(* ===== verification/Prelude.thy ===== *)
theory Prelude
  imports Main "HOL-Library.Word" "HOL-Library.Sublist"
begin

text \<open>
  Shared vocabulary of the development: the machine types of the Rust sources, the
  \<open>Result\<close> type with its short-circuiting bind, panics as values, big-endian
  byte conversions, and the list and word lemmas that the component theories use.

  Rust's unsigned integers of fixed width are words. Lengths and \<open>usize\<close>
  counters are natural numbers; where the source uses \<open>checked_add\<close> or an
  operator that panics on overflow, the bound \<open>usize_max\<close> of a 64-bit target
  is written out.
\<close>

unbundle bit_operations_syntax

section \<open>Machine types\<close>

type_synonym u8 = "8 word"
type_synonym u16 = "16 word"
type_synonym u32 = "32 word"
type_synonym u64 = "64 word"
type_synonym bytes = "8 word list"

definition usize_max :: nat where
  "usize_max = 18446744073709551615"

definition usize_checked_add :: "nat \<Rightarrow> nat \<Rightarrow> nat option" where
  "usize_checked_add a b = (if a + b \<le> usize_max then Some (a + b) else None)"

definition u32_checked_add :: "u32 \<Rightarrow> u32 \<Rightarrow> u32 option" where
  "u32_checked_add a b = (if unat a + unat b < 2 ^ 32 then Some (a + b) else None)"

definition u64_saturating_add :: "u64 \<Rightarrow> u64 \<Rightarrow> u64" where
  "u64_saturating_add a b = (if unat a + unat b < 2 ^ 64 then a + b else - 1)"

definition u64_saturating_sub :: "u64 \<Rightarrow> u64 \<Rightarrow> u64" where
  "u64_saturating_sub a b = (if a < b then 0 else a - b)"

section \<open>Results and panics\<close>

text \<open>
  A fallible function returns \<open>Inl\<close> of its error or \<open>Inr\<close> of its value.
  A function whose body holds an \<open>expect\<close>, an operator that can panic or a loop
  that may run forever returns an error of type \<open>'e fault\<close>, so that a panic and a
  divergence are values a theorem can exclude. A method on \<open>&mut self\<close> returns the
  new state with its result, also on failure; \<open>sbind\<close> sequences such methods.
\<close>

datatype 'e fault = Panic | Diverge | Err 'e

fun sbind :: "'s \<times> ('e + 'a) \<Rightarrow> ('a \<Rightarrow> 's \<Rightarrow> 's \<times> ('e + 'b)) \<Rightarrow> 's \<times> ('e + 'b)" where
  "sbind (s, Inl e) k = (s, Inl e)"
| "sbind (s, Inr x) k = k x s"

fun rbind :: "'e + 'a \<Rightarrow> ('a \<Rightarrow> 'e + 'b) \<Rightarrow> 'e + 'b" where
  "rbind (Inl e) f = Inl e"
| "rbind (Inr x) f = f x"

fun map_err :: "('e \<Rightarrow> 'f) \<Rightarrow> 'e + 'a \<Rightarrow> 'f + 'a" where
  "map_err g (Inl e) = Inl (g e)"
| "map_err g (Inr x) = Inr x"

fun ok_or :: "'a option \<Rightarrow> 'e \<Rightarrow> 'e + 'a" where
  "ok_or None e = Inl e"
| "ok_or (Some x) e = Inr x"

named_theorems result_simps "inversion of the result combinators"

lemma rbind_Inr_iff [result_simps]:
  "rbind m f = Inr y \<longleftrightarrow> (\<exists>x. m = Inr x \<and> f x = Inr y)"
  by (cases m) auto

lemma rbind_Inl_iff [result_simps]:
  "rbind m f = Inl e \<longleftrightarrow> m = Inl e \<or> (\<exists>x. m = Inr x \<and> f x = Inl e)"
  by (cases m) auto

lemma map_err_Inr_iff [result_simps]: "map_err g m = Inr y \<longleftrightarrow> m = Inr y"
  by (cases m) auto

lemma ok_or_Inr_iff [result_simps]: "ok_or m e = Inr y \<longleftrightarrow> m = Some y"
  by (cases m) auto

lemma ok_or_Inl_iff [result_simps]: "ok_or m e = Inl x \<longleftrightarrow> m = None \<and> x = e"
  by (cases m) auto

section \<open>Lists\<close>

text \<open>
  \<open>slice_get\<close> is Rust's \<open>slice.get(from..to)\<close>: \<open>None\<close> when the range
  is inverted or leaves the slice.
\<close>

definition slice_get :: "'a list \<Rightarrow> nat \<Rightarrow> nat \<Rightarrow> 'a list option" where
  "slice_get xs from to =
     (if from \<le> to \<and> to \<le> length xs then Some (take (to - from) (drop from xs)) else None)"

definition slice_from :: "'a list \<Rightarrow> nat \<Rightarrow> 'a list option" where
  "slice_from xs from = (if from \<le> length xs then Some (drop from xs) else None)"

lemma slice_get_append [simp]:
  "slice_get (xs @ ys @ zs) (length xs) (length xs + length ys) = Some ys"
  by (simp add: slice_get_def)

text \<open>Where a cut of \<open>a @ b\<close> falls: inside \<open>a\<close>, or at its end or beyond.\<close>

lemma append_cut:
  assumes "a @ b = p @ q"
  obtains (inside) q' where "a = p @ q'" "q' \<noteq> []" "q = q' @ b"
    | (beyond) p' where "p = a @ p'" "b = p' @ q"
  using assms unfolding append_eq_append_conv2 by (metis append_Nil append_Nil2)

lemma sum_list_nat_member_le:
  "x \<in> set xs \<Longrightarrow> f x \<le> sum_list (map f xs)" for f :: "'a \<Rightarrow> nat"
  by (induction xs) auto

section \<open>Words\<close>

named_theorems word_nat "word operations read as natural numbers"

lemma unat_drop_bit_word [word_nat]: "unat (drop_bit n w) = unat w div 2 ^ n" for w :: "'a::len word"
  by (metis unat_drop_bit_eq drop_bit_eq_div)

lemma unat_take_bit_word [word_nat]: "unat (take_bit n w) = unat w mod 2 ^ n" for w :: "'a::len word"
  by (metis unsigned_take_bit_eq take_bit_eq_mod)

lemma unat_ucast_mod [word_nat]:
  "unat (ucast (w :: 'a::len word) :: 'b::len word) = unat w mod 2 ^ LENGTH('b)"
  by (simp add: unsigned_ucast_eq take_bit_eq_mod)

lemma unat_u8_less [simp]: "unat (b :: u8) < 256"
  using unsigned_less [of b] by simp

lemma unat_word_of_nat: "n < 2 ^ LENGTH('a) \<Longrightarrow> unat (word_of_nat n :: 'a::len word) = n"
  by (simp add: unat_of_nat)

lemma ucast_ucast_u8 [simp]: "ucast (ucast (b :: u8) :: u64) = b"
  by (rule bit_word_eqI) (simp add: bit_simps)

lemma unat_u32_less [simp]: "unat (v :: u32) < 4294967296"
  using unsigned_less [of v] by simp

lemma unat_u64_less [simp]: "unat (v :: u64) < 18446744073709551616"
  using unsigned_less [of v] by simp

lemma unat_and_127_u64 [word_nat]: "unat (w AND 127) = unat w mod 128" for w :: u64
  using unat_take_bit_word [of 7 w] by (simp add: take_bit_eq_mask mask_eq_exp_minus_1)

lemma unat_and_127_u8 [word_nat]: "unat (b AND 127) = unat b mod 128" for b :: u8
  using unat_take_bit_word [of 7 b] by (simp add: take_bit_eq_mask mask_eq_exp_minus_1)

lemma bit_7_u8: "bit b 7 \<longleftrightarrow> 128 \<le> unat b" for b :: u8
proof -
  have bit: "bit b 7 \<longleftrightarrow> odd (unat b div 128)"
    using bit_iff_odd [of "unat b" 7] by (simp add: bit_unsigned_iff)
  show ?thesis
  proof (cases "128 \<le> unat b")
    case True
    then have "unat b div 128 = 1"
      using unat_u8_less [of b] by (intro div_nat_eqI) auto
    with bit True show ?thesis by simp
  qed (simp add: bit)
qed

lemma and_128_eq_0_iff: "b AND 128 = 0 \<longleftrightarrow> unat b < 128" for b :: u8
  using bit_iff_and_push_bit_not_eq_0 [of b 7] by (auto simp: bit_7_u8)

text \<open>Or-ing a shifted digit above the bits already read is addition.\<close>

lemma add_mult_power_less:
  assumes "a < 2 ^ s" and "l * 2 ^ s < 2 ^ n" and "s \<le> n"
  shows "a + l * 2 ^ s < (2::nat) ^ n"
proof -
  from assms(3) have n: "2 ^ n = 2 ^ (n - s) * (2::nat) ^ s" by (simp flip: power_add)
  with assms(2) have "l < 2 ^ (n - s)" by simp
  then have "(l + 1) * 2 ^ s \<le> 2 ^ (n - s) * 2 ^ s" by (intro mult_le_mono) auto
  with assms(1) n show ?thesis by (simp add: algebra_simps)
qed

lemma unat_or_push_bit:
  fixes a l :: "'a::len word"
  assumes "unat a < 2 ^ s" and "unat l * 2 ^ s < 2 ^ LENGTH('a)" and "s \<le> LENGTH('a)"
  shows "unat (a OR push_bit s l) = unat a + unat l * 2 ^ s"
proof -
  have a: "take_bit s a = a" using assms(1)
    by (metis mod_less unat_take_bit_word unsigned_word_eqI)
  have "a AND push_bit s l = 0"
    by (subst a [symmetric], rule bit_word_eqI) (auto simp: bit_simps)
  then have "a OR push_bit s l = a + push_bit s l"
    by (simp add: disjunctive_add_eq_or)
  moreover have p: "unat (push_bit s l) = unat l * 2 ^ s"
    using assms(2) by (metis push_bit_eq_mult take_bit_nat_eq_self unsigned_push_bit_eq)
  moreover have "unat a + unat (push_bit s l) < 2 ^ LENGTH('a)"
    using assms add_mult_power_less p by metis
  ultimately show ?thesis by (simp add: unat_word_ariths)
qed

section \<open>Big-endian bytes\<close>

text \<open>Rust's \<open>to_be_bytes\<close> and \<open>from_be_bytes\<close> at widths 16, 32 and 64.\<close>

definition u16_to_be :: "u16 \<Rightarrow> bytes" where
  "u16_to_be x = [ucast (drop_bit 8 x), ucast x]"

definition u16_of_be :: "u8 \<Rightarrow> u8 \<Rightarrow> u16" where
  "u16_of_be a b = push_bit 8 (ucast a) OR ucast b"

definition u32_to_be :: "u32 \<Rightarrow> bytes" where
  "u32_to_be x = [ucast (drop_bit 24 x), ucast (drop_bit 16 x), ucast (drop_bit 8 x), ucast x]"

definition u32_of_be :: "u8 \<Rightarrow> u8 \<Rightarrow> u8 \<Rightarrow> u8 \<Rightarrow> u32" where
  "u32_of_be a b c d =
     push_bit 24 (ucast a) OR push_bit 16 (ucast b) OR push_bit 8 (ucast c) OR ucast d"

definition u64_to_be :: "u64 \<Rightarrow> bytes" where
  "u64_to_be x =
     [ucast (drop_bit 56 x), ucast (drop_bit 48 x), ucast (drop_bit 40 x), ucast (drop_bit 32 x),
      ucast (drop_bit 24 x), ucast (drop_bit 16 x), ucast (drop_bit 8 x), ucast x]"

lemma length_u64_to_be [simp]: "length (u64_to_be x) = 8"
  by (simp add: u64_to_be_def)

lemma length_u16_to_be [simp]: "length (u16_to_be x) = 2"
  by (simp add: u16_to_be_def)

lemma length_u32_to_be [simp]: "length (u32_to_be x) = 4"
  by (simp add: u32_to_be_def)

lemma not_bit_u8: "8 \<le> n \<Longrightarrow> \<not> bit (b :: u8) n"
  using bit_imp_le_length [of b n] by auto

lemma u16_of_be_to_be [simp]: "u16_of_be (ucast (drop_bit 8 x)) (ucast x) = x"
  unfolding u16_of_be_def
  by (rule bit_word_eqI) (auto simp: bit_simps)

lemma u16_to_be_of_be [simp]: "u16_to_be (u16_of_be a b) = [a, b]"
  unfolding u16_of_be_def u16_to_be_def
  by (auto intro!: bit_word_eqI simp: bit_simps not_bit_u8)

lemma u32_of_be_to_be [simp]:
  "u32_of_be (ucast (drop_bit 24 x)) (ucast (drop_bit 16 x)) (ucast (drop_bit 8 x)) (ucast x) = x"
  (is "?y = x")
proof (rule bit_word_eqI)
  fix n assume "n < LENGTH(32)"
  then consider "n < 8" | "8 \<le> n" "n < 16" | "16 \<le> n" "n < 24" | "24 \<le> n" "n < 32"
    by fastforce
  then show "bit ?y n = bit x n"
    unfolding u32_of_be_def by cases (auto simp: bit_simps)
qed

lemma u32_to_be_of_be [simp]: "u32_to_be (u32_of_be a b c d) = [a, b, c, d]"
  unfolding u32_of_be_def u32_to_be_def
  by (auto intro!: bit_word_eqI simp: bit_simps not_bit_u8)

end
