(* ===== verification/Varint.thy ===== *)
theory Varint
  imports Prelude
begin

text \<open>
  The unsigned varint codec of \<open>crates/identity/src/peer_id.rs\<close>, which every
  wire format of the workspace is built on: seven value bits per byte, least
  significant group first, the top bit set on every byte but the last. The reader
  accepts minimal encodings only. The theory shows that writer and reader are
  inverse to each other on all of \<open>u64\<close>.
\<close>

datatype varint_error = BufferTooShort | Overflow | NonCanonical

section \<open>The codec\<close>

function uvarint_len :: "u64 \<Rightarrow> nat" where
  "uvarint_len value = (if 0x80 \<le> value then Suc (uvarint_len (drop_bit 7 value)) else 1)"
  by pat_completeness auto
termination
  by (relation "measure unat") (auto simp: word_le_nat_alt unat_drop_bit_word)

function write_uvarint :: "u64 \<Rightarrow> bytes \<Rightarrow> bytes" where
  "write_uvarint value out =
     (let byte = ucast (value AND 0x7f);
          value' = drop_bit 7 value;
          byte' = (if value' \<noteq> 0 then byte OR 0x80 else byte);
          out' = out @ [byte']
      in if value' = 0 then out' else write_uvarint value' out')"
  by pat_completeness auto
termination
  by (relation "measure (\<lambda>(value, out). unat value)")
     (auto simp: unat_drop_bit_word simp flip: unat_gt_0 intro!: div_less_dividend)

text \<open>
  The loop of \<open>read_uvarint_with_remainder\<close>: \<open>idx\<close> counts the bytes read and
  \<open>shift\<close> is the position of the next group.
\<close>

fun read_uvarint_loop :: "nat \<Rightarrow> nat \<Rightarrow> u64 \<Rightarrow> bytes \<Rightarrow> varint_error + (u64 \<times> bytes)" where
  "read_uvarint_loop idx shift value [] = Inl BufferTooShort"
| "read_uvarint_loop idx shift value (byte # rest) =
     (if 10 \<le> idx then Inl Overflow
      else if idx = 9 \<and> (byte AND 0x80 \<noteq> 0 \<or> 1 < byte) then Inl Overflow
      else
        let value' = value OR push_bit shift (ucast (byte AND 0x7f)) in
        if byte AND 0x80 = 0 then
          if idx + 1 \<noteq> uvarint_len value' then Inl NonCanonical else Inr (value', rest)
        else read_uvarint_loop (idx + 1) (shift + 7) value' rest)"

definition read_uvarint_with_remainder :: "bytes \<Rightarrow> varint_error + (u64 \<times> bytes)" where
  "read_uvarint_with_remainder input = read_uvarint_loop 0 0 0 input"

definition read_uvarint :: "bytes \<Rightarrow> varint_error + (u64 \<times> nat)" where
  "read_uvarint input =
     rbind (read_uvarint_with_remainder input)
       (\<lambda>(value, remaining). Inr (value, length input - length remaining))"

declare uvarint_len.simps [simp del] write_uvarint.simps [simp del]


section \<open>The encoding, byte by byte\<close>

lemma drop_bit_7_eq_0_iff: "drop_bit 7 v = 0 \<longleftrightarrow> unat v < 128" for v :: u64
  using unat_0_iff [of "drop_bit 7 v"] by (simp add: unat_drop_bit_word div_eq_0_iff)

lemma unat_continuation: "unat (ucast (v AND 127) OR 128 :: u8) = 128 + unat v mod 128" for v :: u64
proof -
  have "unat (ucast (v AND 127) OR push_bit 7 1 :: u8) = unat (ucast (v AND 127) :: u8) + 1 * 2 ^ 7"
    by (subst unat_or_push_bit) (simp_all add: word_nat)
  then show ?thesis by (simp add: word_nat)
qed

lemma write_uvarint_append: "write_uvarint v (out @ out') = out @ write_uvarint v out'"
proof (induction v out' rule: write_uvarint.induct)
  case (1 v out')
  show ?case
    by (subst (1 2) write_uvarint.simps) (use "1" in \<open>auto simp: Let_def\<close>)
qed

lemma write_uvarint_acc: "write_uvarint v out = out @ write_uvarint v []"
  using write_uvarint_append [of v out "[]"] by simp

lemma write_uvarint_nil:
  "write_uvarint v [] =
     (if unat v < 128 then [ucast v]
      else (ucast (v AND 127) OR 128) # write_uvarint (drop_bit 7 v) [])"
proof (cases "unat v < 128")
  case True
  then have "v AND 127 = v"
    by (metis mod_less unat_and_127_u64 unsigned_word_eqI)
  with True show ?thesis
    by (subst write_uvarint.simps) (simp add: drop_bit_7_eq_0_iff)
next
  case False
  then show ?thesis
    by (subst write_uvarint.simps)
       (simp add: drop_bit_7_eq_0_iff Let_def write_uvarint_acc [of _ "[_]"])
qed

lemma uvarint_len_unfold:
  "uvarint_len v = (if unat v < 128 then 1 else Suc (uvarint_len (drop_bit 7 v)))"
  by (subst uvarint_len.simps) (auto simp: word_le_nat_alt)

lemma uvarint_len_ge_1: "1 \<le> uvarint_len v"
  by (subst uvarint_len_unfold) simp

lemma length_write_uvarint: "length (write_uvarint v []) = uvarint_len v"
proof (induction v rule: uvarint_len.induct)
  case (1 v)
  then show ?case
    by (subst write_uvarint_nil, subst uvarint_len_unfold) (auto simp: word_le_nat_alt)
qed

lemma write_uvarint_not_nil [simp]: "write_uvarint v [] \<noteq> []"
  using length_write_uvarint [of v] uvarint_len_ge_1 [of v] by auto

text \<open>The number of bytes is the least one that can hold the value.\<close>

lemma uvarint_len_le_iff: "1 \<le> k \<Longrightarrow> uvarint_len v \<le> k \<longleftrightarrow> unat v < 128 ^ k"
proof (induction v arbitrary: k rule: uvarint_len.induct)
  case (1 v)
  show ?case
  proof (cases "unat v < 128")
    case True
    have "(128::nat) ^ 1 \<le> 128 ^ k" using "1.prems" by (intro power_increasing) auto
    with True "1.prems" show ?thesis by (subst uvarint_len_unfold) simp
  next
    case False
    obtain j where k: "k = Suc j" using "1.prems" by (cases k) auto
    show ?thesis
    proof (cases j)
      case 0
      with False k show ?thesis
        using uvarint_len_ge_1 [of "drop_bit 7 v"] by (subst uvarint_len_unfold) simp
    next
      case (Suc i)
      with False have "uvarint_len (drop_bit 7 v) \<le> j \<longleftrightarrow> unat (drop_bit 7 v) < 128 ^ j"
        by (intro "1.IH") (auto simp: word_le_nat_alt)
      also have "\<dots> \<longleftrightarrow> unat v < 128 ^ k"
        by (simp add: unat_drop_bit_word k div_less_iff_less_mult mult.commute)
      finally show ?thesis using False k by (subst uvarint_len_unfold) simp
    qed
  qed
qed

lemma uvarint_len_le_10: "uvarint_len v \<le> 10"
  using uvarint_len_le_iff [of 10 v] unat_u64_less [of v] by simp


section \<open>Reading back what was written\<close>

text \<open>
  The invariant of the loop: after \<open>idx\<close> bytes the accumulator holds a value below
  \<open>2 ^ (7 * idx)\<close>, and what is left to read sits above it.
\<close>

lemma unat_value_step:
  assumes "unat (acc :: u64) < 2 ^ (7 * idx)" and "idx \<le> 9"
    and "unat (b AND 127 :: u8) * 2 ^ (7 * idx) < 2 ^ 64"
  shows "unat (acc OR push_bit (7 * idx) (ucast (b AND 127) :: u64)) =
           unat acc + (unat b mod 128) * 2 ^ (7 * idx)"
proof -
  have u: "unat (ucast (b AND 127) :: u64) = unat b mod 128"
    using unat_u8_less [of b] by (simp add: word_nat)
  show ?thesis
    using assms by (subst unat_or_push_bit) (simp_all add: u, simp_all add: word_nat)
qed

lemma digit_bound:
  "(a::nat) < 2 ^ (7 * idx) \<Longrightarrow> d < 128 \<Longrightarrow> a + d * 2 ^ (7 * idx) < 2 ^ (7 * Suc idx)"
  using add_mult_power_less [of a "7 * idx" d "7 * Suc idx"] by (simp add: power_add mult.commute)

lemma split_digit:
  "w = m + 128 * d \<Longrightarrow> w * 2 ^ (7 * idx) = m * 2 ^ (7 * idx) + d * 2 ^ (7 * Suc idx)"
  for w m d :: nat
  by (simp add: power_add distrib_right)

lemma read_uvarint_loop_write:
  assumes "unat acc < 2 ^ (7 * idx)"
    and "unat V = unat acc + unat w * 2 ^ (7 * idx)"
    and "idx + uvarint_len w = uvarint_len V"
  shows "read_uvarint_loop idx (7 * idx) acc (write_uvarint w [] @ rest) = Inr (V, rest)"
  using assms
proof (induction w arbitrary: idx acc rule: uvarint_len.induct)
  case (1 w)
  have idx: "idx \<le> 9"
    using "1.prems"(3) uvarint_len_le_10 [of V] uvarint_len_ge_1 [of w] by linarith
  have V64: "unat w * 2 ^ (7 * idx) < 2 ^ 64"
    using "1.prems"(2) unat_u64_less [of V] by simp
  have top: "unat w < 2" if "idx = 9"
    using V64 that by simp
  show ?case
  proof (cases "unat w < 128")
    case True
    define b :: u8 where "b = ucast w"
    have b: "unat b = unat w" "b AND 128 = 0"
      using True by (simp_all add: b_def word_nat and_128_eq_0_iff)
    have "unat (acc OR push_bit (7 * idx) (ucast (b AND 127))) = unat V"
      using "1.prems"(1,2) idx V64 True b by (subst unat_value_step) (simp_all add: word_nat)
    then have "acc OR push_bit (7 * idx) (ucast (b AND 127)) = V"
      by (rule unsigned_word_eqI)
    moreover have "uvarint_len w = 1" using True by (subst uvarint_len_unfold) simp
    moreover have "\<not> 1 < b" if "idx = 9"
      using top [OF that] b by (simp add: word_less_nat_alt)
    ultimately show ?thesis
      using "1.prems"(3) idx b True by (subst write_uvarint_nil) (auto simp: b_def [symmetric])
  next
    case False
    then have idx8: "idx \<noteq> 9" using top by auto
    define b :: u8 where "b = ucast (w AND 127) OR 128"
    have b: "unat b mod 128 = unat w mod 128" "b AND 128 \<noteq> 0"
      by (simp_all add: b_def unat_continuation and_128_eq_0_iff)
    define acc' where "acc' = acc OR push_bit (7 * idx) (ucast (b AND 127))"
    have "unat (b AND 127) * 2 ^ (7 * idx) < 2 ^ 64"
      by (rule le_less_trans [OF _ V64]) (simp add: word_nat b)
    then have acc': "unat acc' = unat acc + (unat w mod 128) * 2 ^ (7 * idx)"
      unfolding acc'_def using "1.prems"(1) idx b(1)
      by (subst unat_value_step) auto
    have "read_uvarint_loop (Suc idx) (7 * Suc idx) acc' (write_uvarint (drop_bit 7 w) [] @ rest)
            = Inr (V, rest)"
    proof (rule "1.IH")
      show "0x80 \<le> w" using False by (simp add: word_le_nat_alt)
      show "unat acc' < 2 ^ (7 * Suc idx)"
        unfolding acc' by (rule digit_bound [OF "1.prems"(1)]) simp
      have "unat w = unat w mod 128 + 128 * unat (drop_bit 7 w)"
        by (simp add: unat_drop_bit_word)
      then have "unat w * 2 ^ (7 * idx) =
          (unat w mod 128) * 2 ^ (7 * idx) + unat (drop_bit 7 w) * 2 ^ (7 * Suc idx)"
        by (rule split_digit)
      then show "unat V = unat acc' + unat (drop_bit 7 w) * 2 ^ (7 * Suc idx)"
        using "1.prems"(2) by (simp add: acc')
      show "Suc idx + uvarint_len (drop_bit 7 w) = uvarint_len V"
        using "1.prems"(3) False by (simp add: uvarint_len_unfold [of w])
    qed
    then show ?thesis
      using idx idx8 b False
      by (subst write_uvarint_nil) (auto simp: b_def [symmetric] acc'_def Let_def add.commute)
  qed
qed

lemma read_write_uvarint:
  "read_uvarint_with_remainder (write_uvarint v [] @ rest) = Inr (v, rest)"
  unfolding read_uvarint_with_remainder_def
  using read_uvarint_loop_write [of 0 0 v v rest] by simp


section \<open>Only the minimal encoding is accepted\<close>

lemma digit_fits:
  assumes "idx \<le> 9" and "d < 128" and "idx = 9 \<Longrightarrow> d \<le> 1"
  shows "d * 2 ^ (7 * idx) < (2::nat) ^ 64"
proof (cases "idx = 9")
  case True
  with assms show ?thesis by (cases d) auto
next
  case False
  with assms(1) have "2 ^ (7 * idx) \<le> (2::nat) ^ 56" by (intro power_increasing) auto
  with assms(2) have "d * 2 ^ (7 * idx) \<le> 127 * (2::nat) ^ 56" by (intro mult_le_mono) auto
  then show ?thesis by simp
qed

lemma write_uvarint_cons:
  assumes b: "128 \<le> unat b" and w: "unat w = unat b mod 128 + 128 * unat w'" and w': "w' \<noteq> 0"
  shows "write_uvarint w [] = b # write_uvarint w' []"
proof -
  have "0 < unat w'" using w' by (simp add: unat_gt_0)
  then have "\<not> unat w < 128" using w by linarith
  moreover have "drop_bit 7 w = w'"
    by (rule unsigned_word_eqI [where 'a = nat]) (simp add: unat_drop_bit_word w)
  moreover have "ucast (w AND 127) OR 128 = b"
  proof (rule unsigned_word_eqI [where 'a = nat])
    have "unat w mod 128 = unat b mod 128" using w by simp
    moreover have "unat b - 128 < 128"
      using unat_u8_less [of b] by linarith
    then have "unat b = 128 + unat b mod 128"
      using b by (simp add: le_mod_geq)
    ultimately show "unat (ucast (w AND 127) OR 128 :: u8) = unat b"
      by (simp add: unat_continuation)
  qed
  ultimately show ?thesis by (subst write_uvarint_nil) simp
qed

lemma read_uvarint_loop_inv:
  assumes "read_uvarint_loop idx (7 * idx) acc bs = Inr (V, rest)"
    and "unat acc < 2 ^ (7 * idx)"
  shows "\<exists>w. bs = write_uvarint w [] @ rest \<and>
             unat V = unat acc + unat w * 2 ^ (7 * idx) \<and>
             idx + uvarint_len w = uvarint_len V"
  using assms
proof (induction bs arbitrary: idx acc)
  case Nil
  then show ?case by simp
next
  case (Cons b bs)
  define d where "d = unat b mod 128"
  define acc' where "acc' = acc OR push_bit (7 * idx) (ucast (b AND 127))"
  have idx: "idx \<le> 9" and top: "idx = 9 \<Longrightarrow> b AND 128 = 0 \<and> \<not> 1 < b"
    using Cons.prems(1) by (auto split: if_splits)
  have d: "d < 128" "idx = 9 \<Longrightarrow> d \<le> 1"
    using top by (auto simp: d_def word_less_nat_alt)
  have acc': "unat acc' = unat acc + d * 2 ^ (7 * idx)"
    using Cons.prems(2) idx digit_fits [OF idx d]
    by (simp add: acc'_def d_def unat_value_step word_nat)
  have acc'_bound: "unat acc' < 2 ^ (7 * Suc idx)"
    unfolding acc' by (rule digit_bound [OF Cons.prems(2) d(1)])
  show ?case
  proof (cases "b AND 128 = 0")
    case True
    then have b: "unat b < 128" by (simp add: and_128_eq_0_iff)
    have "V = acc'" "rest = bs" "idx + 1 = uvarint_len V"
      using Cons.prems(1) idx top True by (auto simp: acc'_def Let_def split: if_splits)
    moreover have "unat (ucast b :: u64) = d" using b by (simp add: word_nat d_def)
    moreover have "write_uvarint (ucast b) [] = [b]"
      using b by (subst write_uvarint_nil) (simp add: word_nat)
    moreover have "uvarint_len (ucast b) = 1"
      using b by (subst uvarint_len_unfold) (simp add: word_nat)
    ultimately show ?thesis using acc' by (intro exI [of _ "ucast b"]) simp
  next
    case False
    then have b: "128 \<le> unat b" by (simp add: and_128_eq_0_iff)
    have "read_uvarint_loop (Suc idx) (7 * Suc idx) acc' bs = Inr (V, rest)"
      using Cons.prems(1) idx top False
      by (auto simp: acc'_def Let_def add.commute split: if_splits)
    from Cons.IH [OF this acc'_bound] obtain w' where
      bs: "bs = write_uvarint w' [] @ rest" and
      V: "unat V = unat acc' + unat w' * 2 ^ (7 * Suc idx)" and
      len: "Suc idx + uvarint_len w' = uvarint_len V" by blast
    define n where "n = d + 128 * unat w'"
    have nV: "unat V = unat acc + n * 2 ^ (7 * idx)"
      using V split_digit [OF n_def, of idx] by (simp add: acc')
    obtain w :: u64 where w: "unat w = n"
    proof (rule that [OF unat_word_of_nat])
      have "n \<le> n * 2 ^ (7 * idx)" by simp
      also have "\<dots> < 2 ^ LENGTH(64)" using nV unat_u64_less [of V] by simp
      finally show "n < 2 ^ LENGTH(64)" .
    qed
    have w'0: "w' \<noteq> 0"
    proof
      assume "w' = 0"
      then have "unat V < 2 ^ (7 * Suc idx)"
        using V acc'_bound by simp
      also have "\<dots> = 128 ^ Suc idx"
        unfolding power_mult by simp
      finally have "unat V < 128 ^ Suc idx" .
      then have "uvarint_len V \<le> Suc idx" by (simp add: uvarint_len_le_iff)
      with len show False using uvarint_len_ge_1 [of w'] by simp
    qed
    have "unat w = unat b mod 128 + 128 * unat w'"
      by (simp only: w n_def d_def)
    then have cons: "write_uvarint w [] = b # write_uvarint w' []"
      by (rule write_uvarint_cons [OF b _ w'0])
    moreover have "uvarint_len w = Suc (uvarint_len w')"
      using arg_cong [OF cons, of length] by (simp add: length_write_uvarint)
    ultimately show ?thesis
      unfolding bs nV w [symmetric] using len by (intro exI [of _ w]) simp
  qed
qed

lemma read_uvarint_with_remainder_iff:
  "read_uvarint_with_remainder bs = Inr (v, rest) \<longleftrightarrow> bs = write_uvarint v [] @ rest"
proof
  assume "read_uvarint_with_remainder bs = Inr (v, rest)"
  then have "read_uvarint_loop 0 (7 * 0) 0 bs = Inr (v, rest)"
    by (simp add: read_uvarint_with_remainder_def)
  from read_uvarint_loop_inv [OF this] obtain w where
    "bs = write_uvarint w [] @ rest" "unat v = unat w" by auto
  then show "bs = write_uvarint v [] @ rest" by (auto dest: unsigned_word_eqI)
qed (simp add: read_write_uvarint)

lemma read_uvarint_iff:
  "read_uvarint bs = Inr (v, n) \<longleftrightarrow>
     (\<exists>rest. bs = write_uvarint v [] @ rest \<and> n = uvarint_len v)"
proof -
  have "read_uvarint bs = Inr (v, n) \<longleftrightarrow>
      (\<exists>rest. read_uvarint_with_remainder bs = Inr (v, rest) \<and> n = length bs - length rest)"
    by (auto simp: read_uvarint_def result_simps)
  also have "\<dots> \<longleftrightarrow> (\<exists>rest. bs = write_uvarint v [] @ rest \<and> n = uvarint_len v)"
    by (auto simp: read_uvarint_with_remainder_iff length_write_uvarint)
  finally show ?thesis .
qed

section \<open>Truncated input\<close>

text \<open>
  A proper prefix of an encoding is reported as too short and never as malformed, so
  a caller that buffers a stream can wait for more bytes.
\<close>

lemma read_uvarint_loop_prefix:
  assumes "read_uvarint_loop idx shift acc bs = Inr (V, rest)" and "bs = xs @ ys"
    and "length xs < length bs - length rest"
  shows "read_uvarint_loop idx shift acc xs = Inl BufferTooShort"
  using assms
proof (induction bs arbitrary: idx shift acc xs)
  case Nil
  then show ?case by simp
next
  case (Cons b bs)
  show ?case
  proof (cases xs)
    case Nil
    then show ?thesis by simp
  next
    case xs: (Cons x xs')
    show ?thesis
    proof (cases "b AND 128 = 0")
      case True
      then have "rest = bs" using Cons.prems(1) by (simp add: Let_def split: if_splits)
      with Cons.prems(3) xs show ?thesis by simp
    next
      case False
      define value' where "value' = acc OR push_bit shift (ucast (b AND 127))"
      have idx: "\<not> 10 \<le> idx" "\<not> (idx = 9 \<and> (b AND 128 \<noteq> 0 \<or> 1 < b))"
        and rec: "read_uvarint_loop (idx + 1) (shift + 7) value' bs = Inr (V, rest)"
        using Cons.prems(1) False by (simp_all add: Let_def value'_def split: if_splits)
      have "read_uvarint_loop (idx + 1) (shift + 7) value' xs' = Inl BufferTooShort"
        using Cons.prems(2,3) xs by (intro Cons.IH [OF rec]) auto
      with idx False xs Cons.prems(2) show ?thesis by (simp add: Let_def value'_def)
    qed
  qed
qed

lemma read_uvarint_prefix:
  assumes "write_uvarint v [] = xs @ ys" and "ys \<noteq> []"
  shows "read_uvarint_with_remainder xs = Inl BufferTooShort"
proof -
  have read: "read_uvarint_loop 0 0 0 (write_uvarint v []) = Inr (v, [])"
    using read_write_uvarint [of v "[]"] unfolding read_uvarint_with_remainder_def append_Nil2 .
  have "length xs < length (write_uvarint v []) - length ([] :: bytes)"
    using assms by simp
  with read assms(1) show ?thesis
    unfolding read_uvarint_with_remainder_def by (rule read_uvarint_loop_prefix)
qed

text \<open>
  The converse: the reader waits only where one more byte completes an encoding.
\<close>

text \<open>A verdict of the reader does not change when more bytes follow.\<close>

lemma read_uvarint_loop_append:
  "read_uvarint_loop idx shift acc bs = Inl e \<Longrightarrow> e \<noteq> BufferTooShort \<Longrightarrow>
     read_uvarint_loop idx shift acc (bs @ more) = Inl e"
  by (induction idx shift acc bs rule: read_uvarint_loop.induct) (auto simp: Let_def split: if_splits)

lemma read_uvarint_append:
  "read_uvarint_with_remainder bs = Inl e \<Longrightarrow> e \<noteq> BufferTooShort \<Longrightarrow>
     read_uvarint_with_remainder (bs @ more) = Inl e"
  unfolding read_uvarint_with_remainder_def by (rule read_uvarint_loop_append)

lemma uvarint_len_top_digit:
  assumes "unat (acc :: u64) < 2 ^ (7 * idx)" and "unat v = unat acc + 2 ^ (7 * idx)"
  shows "uvarint_len v = Suc idx"
proof -
  have v: "2 ^ (7 * idx) \<le> unat v" "unat v < 2 ^ (7 * Suc idx)"
    using assms digit_bound [OF assms(1), of 1] by simp_all
  have pow: "(2::nat) ^ (7 * k) = 128 ^ k" for k by (simp add: power_mult)
  have "uvarint_len v \<le> Suc idx"
    using v(2) unfolding pow by (simp add: uvarint_len_le_iff)
  moreover have "\<not> uvarint_len v \<le> idx"
  proof (cases idx)
    case 0
    then show ?thesis using uvarint_len_ge_1 [of v] by simp
  next
    case (Suc k)
    then show ?thesis using v(1) unfolding pow by (simp add: uvarint_len_le_iff)
  qed
  ultimately show ?thesis by simp
qed

lemma read_uvarint_loop_short:
  assumes "read_uvarint_loop idx (7 * idx) acc xs = Inl BufferTooShort"
    and "unat acc < 2 ^ (7 * idx)" and "idx \<le> 9"
  shows "\<exists>v. read_uvarint_loop idx (7 * idx) acc (xs @ [1]) = Inr (v, [])"
  using assms
proof (induction xs arbitrary: idx acc)
  case Nil
  define v where "v = acc OR push_bit (7 * idx) (ucast (1 AND 127 :: u8))"
  have "unat v = unat acc + 1 * 2 ^ (7 * idx)"
    unfolding v_def using Nil.prems digit_fits [of idx 1]
    by (subst unat_value_step) simp_all
  then have "uvarint_len v = Suc idx"
    using Nil.prems by (intro uvarint_len_top_digit) simp_all
  then have "read_uvarint_loop idx (7 * idx) acc [1] = Inr (v, [])"
    using Nil.prems(3) by (simp add: v_def)
  then show ?case by auto
next
  case (Cons b bs)
  define acc' where "acc' = acc OR push_bit (7 * idx) (ucast (b AND 127))"
  have idx: "idx \<noteq> 9" and b: "b AND 128 \<noteq> 0"
    and rec: "read_uvarint_loop (Suc idx) (7 * Suc idx) acc' bs = Inl BufferTooShort"
    using Cons.prems(1,3) by (auto simp: acc'_def Let_def add.commute split: if_splits)
  have "unat acc' = unat acc + (unat b mod 128) * 2 ^ (7 * idx)"
    unfolding acc'_def using Cons.prems idx digit_fits [of idx "unat b mod 128"]
    by (subst unat_value_step) (simp_all add: word_nat)
  then have "unat acc' < 2 ^ (7 * Suc idx)"
    using digit_bound [OF Cons.prems(2), of "unat b mod 128"] by simp
  from Cons.IH [OF rec this] idx Cons.prems(3) obtain v where
    "read_uvarint_loop (Suc idx) (7 * Suc idx) acc' (bs @ [1]) = Inr (v, [])" by auto
  with idx b Cons.prems(3) show ?case
    by (intro exI [of _ v]) (simp add: acc'_def Let_def add.commute)
qed

lemma read_uvarint_short_iff:
  "read_uvarint_with_remainder xs = Inl BufferTooShort \<longleftrightarrow>
     (\<exists>v ys. ys \<noteq> [] \<and> write_uvarint v [] = xs @ ys)"
proof
  assume "read_uvarint_with_remainder xs = Inl BufferTooShort"
  then obtain v where "read_uvarint_with_remainder (xs @ [1]) = Inr (v, [])"
    using read_uvarint_loop_short [of 0 0 xs] by (auto simp: read_uvarint_with_remainder_def)
  then have "write_uvarint v [] = xs @ [1]" by (simp add: read_uvarint_with_remainder_iff)
  then show "\<exists>v ys. ys \<noteq> [] \<and> write_uvarint v [] = xs @ ys" by blast
qed (auto dest: read_uvarint_prefix)

section \<open>Properties\<close>

text \<open>
  C19. The varint reader accepts exactly the output of the writer: it returns a value
  and a remainder if and only if the input is the minimal encoding of that value
  followed by the remainder, and it asks for more input if and only if the input is a
  proper prefix of some encoding. Every value takes one to ten bytes.
\<close>

theorem uvarint_reader_characterised:
  "(read_uvarint_with_remainder bs = Inr (v, rest) \<longleftrightarrow> bs = write_uvarint v [] @ rest) \<and>
   (read_uvarint_with_remainder bs = Inl BufferTooShort \<longleftrightarrow>
      (\<exists>w more. more \<noteq> [] \<and> write_uvarint w [] = bs @ more)) \<and>
   length (write_uvarint v []) \<in> {1..10}"
  using uvarint_len_ge_1 [of v] uvarint_len_le_10 [of v]
  by (simp add: read_uvarint_with_remainder_iff read_uvarint_short_iff length_write_uvarint)

end
