(* ===== verification/Stream_Codec.thy ===== *)
theory Stream_Codec
  imports Prelude
begin

text \<open>
  The contract every framing layer of the workspace offers to its client: an encoder
  and an incremental decoder over a growing receive buffer. The locale states what a
  provider promises; its lemmas say, once for all framings, that a receiver recovers
  the sent messages however the bytes are cut into chunks. It is interpreted by the
  length-prefixed frames of \<open>minip2p-core\<close>, the lines of multistream-select, the
  frames of Noise and the frames of Yamux.
\<close>

datatype ('a, 'e) step =
    Done 'a nat  \<comment> \<open>a message and the number of bytes it took\<close>
  | More         \<comment> \<open>wait for more bytes\<close>
  | Bad 'e       \<comment> \<open>the stream is malformed\<close>

text \<open>
  \<open>drain dec buf\<close> takes messages off the front of the buffer until the decoder asks
  for more bytes or fails; it returns the messages and what is left in the buffer.
\<close>

function drain :: "(bytes \<Rightarrow> ('a, 'e) step) \<Rightarrow> bytes \<Rightarrow> 'a list \<times> bytes" where
  "drain dec buf =
     (case dec buf of
        Done x n \<Rightarrow>
          if 0 < n \<and> n \<le> length buf then
            (let (xs, rest) = drain dec (drop n buf) in (x # xs, rest))
          else ([], buf)
      | More \<Rightarrow> ([], buf)
      | Bad e \<Rightarrow> ([], buf))"
  by pat_completeness auto
termination
  by (relation "measure (\<lambda>(dec, buf). length buf)") auto

declare drain.simps [simp del]

lemma drain_nil [simp]: "drain dec [] = ([], [])"
  by (subst drain.simps) (simp split: step.splits)

text \<open>
  \<open>feed dec buf chunks\<close> is a receiver: it appends each chunk to what it has and drains.
\<close>

fun feed :: "(bytes \<Rightarrow> ('a, 'e) step) \<Rightarrow> bytes \<Rightarrow> bytes list \<Rightarrow> 'a list \<times> bytes" where
  "feed dec buf [] = ([], buf)"
| "feed dec buf (c # cs) =
     (let (xs, rest) = drain dec (buf @ c); (ys, rest') = feed dec rest cs in (xs @ ys, rest'))"

locale stream_codec =
  fixes valid :: "'a \<Rightarrow> bool"
    and enc :: "'a \<Rightarrow> bytes"
    and dec :: "bytes \<Rightarrow> ('a, 'e) step"
  assumes enc_nonempty: "valid x \<Longrightarrow> enc x \<noteq> []"
    and dec_enc: "valid x \<Longrightarrow> dec (enc x @ rest) = Done x (length (enc x))"
    and dec_prefix: "valid x \<Longrightarrow> enc x = p @ q \<Longrightarrow> q \<noteq> [] \<Longrightarrow> dec p = More"
begin

lemma drain_more: "dec buf = More \<Longrightarrow> drain dec buf = ([], buf)"
  by (subst drain.simps) simp

lemma drain_enc:
  assumes "valid x"
  shows "drain dec (enc x @ rest) = (x # fst (drain dec rest), snd (drain dec rest))"
  using assms
  by (subst drain.simps) (simp add: dec_enc enc_nonempty split: prod.splits)

lemma drain_messages:
  assumes "\<forall>x \<in> set xs. valid x"
  shows "drain dec (concat (map enc xs) @ rest) =
           (xs @ fst (drain dec rest), snd (drain dec rest))"
  using assms by (induction xs) (simp_all add: drain_enc)

text \<open>Two streams of messages with equal bytes are the same stream.\<close>

lemma uniquely_decodable:
  assumes "\<forall>x \<in> set xs. valid x" and "\<forall>y \<in> set ys. valid y"
    and "concat (map enc xs) = concat (map enc ys)"
  shows "xs = ys"
proof -
  have "(xs, []) = drain dec (concat (map enc xs))"
    using drain_messages [OF assms(1), of "[]"] by simp
  also have "\<dots> = (ys, [])"
    using drain_messages [OF assms(2), of "[]"] by (simp add: assms(3))
  finally show ?thesis by simp
qed

text \<open>
  Every prefix of a stream of messages splits into whole messages and a remainder on
  which the decoder waits.
\<close>

lemma prefix_of_stream:
  assumes "\<forall>x \<in> set xs. valid x" and "concat (map enc xs) = p @ q"
  shows "\<exists>us vs r. xs = us @ vs \<and> p = concat (map enc us) @ r \<and> r @ q = concat (map enc vs)
           \<and> (r = [] \<or> dec r = More)"
  using assms
proof (induction xs arbitrary: p)
  case Nil
  then show ?case by (intro exI [of _ "[]"]) simp
next
  case (Cons x xs)
  have bytes: "enc x @ concat (map enc xs) = p @ q" using Cons.prems(2) by simp
  then show ?case
  proof (cases rule: append_cut)
    case (inside q')
    with Cons.prems(1) have "dec p = More" by (intro dec_prefix [of x]) auto
    with inside show ?thesis
      by (intro exI [of _ "[]"] exI [of _ "x # xs"] exI [of _ p]) simp
  next
    case (beyond p')
    from Cons.IH [OF _ beyond(2)] Cons.prems(1) obtain us vs r where
      "xs = us @ vs" "p' = concat (map enc us) @ r" "r @ q = concat (map enc vs)"
      "r = [] \<or> dec r = More" by auto
    with beyond(1) show ?thesis
      by (intro exI [of _ "x # us"] exI [of _ vs] exI [of _ r]) simp
  qed
qed

lemma feed_stream:
  assumes "\<forall>x \<in> set xs. valid x" and "concat (map enc xs) = buf @ concat chunks"
    and "buf = [] \<or> dec buf = More"
  shows "feed dec buf chunks = (xs, [])"
  using assms
proof (induction chunks arbitrary: buf xs)
  case Nil
  have "xs = []"
  proof (cases xs)
    case (Cons x ys)
    with Nil.prems have "dec buf = Done x (length (enc x))" "buf \<noteq> []"
      using dec_enc [of x "concat (map enc ys)"] enc_nonempty [of x] by auto
    with Nil.prems(3) show ?thesis by simp
  qed
  with Nil.prems show ?case by simp
next
  case (Cons c cs)
  from Cons.prems(2) have "concat (map enc xs) = (buf @ c) @ concat cs" by simp
  from prefix_of_stream [OF Cons.prems(1) this] obtain us vs r where
    xs: "xs = us @ vs" and bc: "buf @ c = concat (map enc us) @ r" and
    rest: "r @ concat cs = concat (map enc vs)" and r: "r = [] \<or> dec r = More" by blast
  have "drain dec r = ([], r)"
    using r by (subst drain.simps) (auto split: step.splits)
  then have "drain dec (buf @ c) = (us, r)"
    using drain_messages [of us r] Cons.prems(1) xs by (simp add: bc)
  moreover have "feed dec r cs = (vs, [])"
    using Cons.prems(1) xs rest r by (intro Cons.IH) auto
  ultimately show ?case by (simp add: xs)
qed

text \<open>
  The receiver recovers the messages from any chunking of their encodings.
\<close>

lemma feed_any_chunking:
  assumes "\<forall>x \<in> set xs. valid x" and "concat chunks = concat (map enc xs)"
  shows "feed dec [] chunks = (xs, [])"
  using assms by (intro feed_stream) auto

end

end
