(* ===== verification/Frame_Codec.thy ===== *)
theory Frame_Codec
  imports Varint Stream_Codec
begin

text \<open>
  The varint-length-prefixed frames of \<open>crates/core/src/frame.rs\<close>, shared by the
  protocol crates (identify, ping, relay, AutoNAT, DCUtR, pubsub). The decoder bounds
  the declared length before it looks at the payload. The theory proves the round trip,
  that every accepted frame is the canonical encoding of its payload, and interprets
  the stream-codec contract.
\<close>

datatype frame_decode =
    FrameComplete (frame_payload: bytes) (frame_consumed: nat)
  | FrameIncomplete
  | FrameTooLarge u64
  | FrameError varint_error

definition decode_frame :: "bytes \<Rightarrow> nat \<Rightarrow> frame_decode" where
  "decode_frame input max_len =
     (if input = [] then FrameIncomplete
      else case read_uvarint input of
        Inl BufferTooShort \<Rightarrow> FrameIncomplete
      | Inl e \<Rightarrow> FrameError e
      | Inr (len, used) \<Rightarrow>
          if max_len < unat len then FrameTooLarge len
          else (case usize_checked_add used (unat len) of
              None \<Rightarrow> FrameIncomplete
            | Some total_len \<Rightarrow>
                (case slice_get input used total_len of
                   None \<Rightarrow> FrameIncomplete
                 | Some payload \<Rightarrow> FrameComplete payload total_len)))"

definition encode_frame :: "bytes \<Rightarrow> bytes" where
  "encode_frame payload = write_uvarint (word_of_nat (length payload)) [] @ payload"

section \<open>Round trip\<close>

text \<open>
  A payload the receiver accepts: within the receiver's bound, and with an encoding
  that fits in the address space.
\<close>

definition frame_valid :: "nat \<Rightarrow> bytes \<Rightarrow> bool" where
  "frame_valid max_len p \<longleftrightarrow> length p \<le> max_len \<and> length (encode_frame p) \<le> usize_max"

lemma encode_frame_not_nil [simp]: "encode_frame p \<noteq> []"
  by (simp add: encode_frame_def)

lemma frame_valid_length: "frame_valid max_len p \<Longrightarrow> unat (word_of_nat (length p) :: u64) = length p"
  by (rule unat_word_of_nat) (simp add: frame_valid_def encode_frame_def usize_max_def)

lemma decode_frame_header:
  "decode_frame (write_uvarint len [] @ rest) max_len =
     (if max_len < unat len then FrameTooLarge len
      else if usize_max < uvarint_len len + unat len \<or> length rest < unat len then FrameIncomplete
      else FrameComplete (take (unat len) rest) (uvarint_len len + unat len))"
proof -
  have "read_uvarint (write_uvarint len [] @ rest) = Inr (len, uvarint_len len)"
    by (auto simp: read_uvarint_iff)
  then show ?thesis
    by (auto simp: decode_frame_def usize_checked_add_def slice_get_def length_write_uvarint)
qed

lemma decode_encode_frame:
  assumes "frame_valid max_len p"
  shows "decode_frame (encode_frame p @ rest) max_len = FrameComplete p (length (encode_frame p))"
  using assms frame_valid_length [OF assms]
  by (auto simp: encode_frame_def decode_frame_header frame_valid_def length_write_uvarint)

lemma decode_frame_complete_iff:
  assumes "length bs \<le> usize_max"
  shows "decode_frame bs max_len = FrameComplete p n \<longleftrightarrow>
           length p \<le> max_len \<and> n = length (encode_frame p) \<and> (\<exists>rest. bs = encode_frame p @ rest)"
    (is "?dec \<longleftrightarrow> ?enc")
proof
  assume ?dec
  then obtain len used where read: "read_uvarint bs = Inr (len, used)"
    by (auto simp: decode_frame_def split: if_splits sum.splits varint_error.splits)
  then obtain rest where bs: "bs = write_uvarint len [] @ rest"
    by (auto simp: read_uvarint_iff)
  with \<open>?dec\<close> have len: "unat len \<le> max_len" "unat len \<le> length rest"
    and p: "p = take (unat len) rest" and n: "n = uvarint_len len + unat len"
    by (auto simp: decode_frame_header split: if_splits)
  then have length: "length p = unat len" by simp
  then have enc: "encode_frame p = write_uvarint len [] @ p" by (simp add: encode_frame_def)
  have "bs = encode_frame p @ drop (unat len) rest"
    unfolding enc bs by (simp add: p)
  with len(1) n length show ?enc by (auto simp: enc length_write_uvarint)
next
  assume ?enc
  with assms show ?dec
    by (auto simp: frame_valid_def intro: decode_encode_frame)
qed

section \<open>Incremental decoding\<close>

lemma decode_frame_prefix:
  assumes "frame_valid max_len p" and "encode_frame p = xs @ ys" and "ys \<noteq> []"
  shows "decode_frame xs max_len = FrameIncomplete"
proof -
  define len :: u64 where "len = word_of_nat (length p)"
  have len: "unat len = length p" unfolding len_def by (rule frame_valid_length [OF assms(1)])
  from assms(2) have "write_uvarint len [] @ p = xs @ ys"
    by (simp add: encode_frame_def len_def)
  then show ?thesis
  proof (cases rule: append_cut)
    case (inside q')
    then have "read_uvarint_with_remainder xs = Inl BufferTooShort"
      by (intro read_uvarint_prefix [of len xs q'])
    then show ?thesis by (simp add: decode_frame_def read_uvarint_def)
  next
    case (beyond p')
    with assms len show ?thesis by (auto simp: decode_frame_header frame_valid_def)
  qed
qed

text \<open>The decoder seen through the stream-codec contract.\<close>

definition frame_step :: "nat \<Rightarrow> bytes \<Rightarrow> (bytes, frame_decode) step" where
  "frame_step max_len buf =
     (case decode_frame buf max_len of
        FrameComplete p n \<Rightarrow> Done p n
      | FrameIncomplete \<Rightarrow> More
      | bad \<Rightarrow> Bad bad)"

interpretation core_frame: stream_codec "frame_valid max_len" encode_frame "frame_step max_len"
  for max_len
  by unfold_locales (simp_all add: frame_step_def decode_encode_frame decode_frame_prefix)

section \<open>Properties\<close>

text \<open>
  A frame decoded from a buffer is the encoding of its payload, within the
  receiver's bound, at the front of the buffer; conversely every such buffer decodes
  to that payload and reports the number of bytes the frame took.
\<close>

theorem decode_frame_correct:
  assumes "length bs \<le> usize_max"
  shows "decode_frame bs max_len = FrameComplete p n \<longleftrightarrow>
           length p \<le> max_len \<and> take n bs = encode_frame p \<and> n = length (encode_frame p)"
proof -
  have "(\<exists>rest. bs = encode_frame p @ rest) \<longleftrightarrow> take (length (encode_frame p)) bs = encode_frame p"
    by (metis append_eq_conv_conj append_take_drop_id)
  then show ?thesis by (auto simp: decode_frame_complete_iff [OF assms])
qed

theorem decode_frame_correct_witness:
  "length [2, 7, 9, 4 :: u8] \<le> usize_max \<and>
   decode_frame [2, 7, 9, 4] 100 = FrameComplete [7, 9] 3"
proof -
  have "encode_frame [7, 9] = [2, 7, 9]"
    by (simp add: encode_frame_def write_uvarint_nil)
  moreover have "length [2, 7, 9, 4 :: u8] \<le> usize_max"
    by (simp add: usize_max_def)
  ultimately show ?thesis
    using decode_frame_correct [of "[2, 7, 9, 4]" 100 "[7, 9]" 3] by simp
qed

text \<open>
  C20. However a transport cuts the bytes of a sequence of frames into chunks, a
  receiver that appends each chunk to its buffer and drains complete frames obtains
  exactly the payloads that were sent, in order, and is left with an empty buffer.
\<close>

theorem core_frames_any_chunking:
  assumes "\<forall>p \<in> set ps. length p \<le> max_len \<and> length (encode_frame p) \<le> usize_max"
    and "concat chunks = concat (map encode_frame ps)"
  shows "feed (frame_step max_len) [] chunks = (ps, [])"
  using assms by (intro core_frame.feed_any_chunking) (simp_all add: frame_valid_def)

theorem core_frames_any_chunking_witness:
  "feed (frame_step 8) [] [[2], [7, 9, 1], [5]] = ([[7, 9], [5 :: u8]], [])"
proof -
  have "encode_frame [7, 9] = [2, 7, 9]" "encode_frame [5] = [1, 5]"
    by (simp_all add: encode_frame_def write_uvarint_nil)
  then show ?thesis
    using core_frames_any_chunking [of "[[7, 9], [5]]" 8 "[[2], [7, 9, 1], [5]]"]
    by (simp add: usize_max_def)
qed

text \<open>
  A frame whose declared length is above the receiver's bound is refused as soon
  as its length prefix is complete, whatever follows it: the decoder never waits for,
  nor buffers, an oversized payload.
\<close>

theorem decode_frame_refuses_oversized:
  "decode_frame (write_uvarint len [] @ rest) max_len = FrameTooLarge len \<longleftrightarrow> max_len < unat len"
  by (simp add: decode_frame_header)

end
