(* ===== verification/Btree_Map.thy ===== *)
theory Btree_Map
  imports Prelude
begin

text \<open>
  \<open>alloc::collections::BTreeMap\<close> as an association list with strictly ascending
  keys, so that iteration order is the order of the list. The locale is the contract
  the client components rely on; it is interpreted on the list operations at the end.
\<close>

type_synonym ('k, 'v) btree = "('k \<times> 'v) list"

fun bt_insert :: "'k::linorder \<Rightarrow> 'v \<Rightarrow> ('k, 'v) btree \<Rightarrow> ('k, 'v) btree" where
  "bt_insert k v [] = [(k, v)]"
| "bt_insert k v ((a, b) # m) =
     (if k < a then (k, v) # (a, b) # m
      else if k = a then (k, v) # m
      else (a, b) # bt_insert k v m)"

fun bt_remove :: "'k::linorder \<Rightarrow> ('k, 'v) btree \<Rightarrow> ('k, 'v) btree" where
  "bt_remove k [] = []"
| "bt_remove k ((a, b) # m) = (if k = a then m else (a, b) # bt_remove k m)"

definition bt_wf :: "('k::linorder, 'v) btree \<Rightarrow> bool" where
  "bt_wf m \<longleftrightarrow> sorted_wrt (<) (map fst m)"

abbreviation bt_get :: "('k, 'v) btree \<Rightarrow> 'k \<Rightarrow> 'v option" where
  "bt_get \<equiv> map_of"

abbreviation bt_keys :: "('k, 'v) btree \<Rightarrow> 'k list" where
  "bt_keys m \<equiv> map fst m"

text \<open>The sum of a measure over the values, as a session totals its queues.\<close>

definition bt_sum :: "('v \<Rightarrow> nat) \<Rightarrow> ('k, 'v) btree \<Rightarrow> nat" where
  "bt_sum f m = sum_list (map (\<lambda>(k, v). f v) m)"

section \<open>Laws\<close>

lemma bt_wf_nil [simp]: "bt_wf []"
  by (simp add: bt_wf_def)

lemma bt_wf_cons [simp]: "bt_wf ((a, b) # m) \<longleftrightarrow> (\<forall>x \<in> fst ` set m. a < x) \<and> bt_wf m"
  by (auto simp: bt_wf_def)

lemma bt_get_below: "(\<forall>x \<in> fst ` set m. k < x) \<Longrightarrow> bt_get m k = None" for k :: "'k::linorder"
  unfolding map_of_eq_None_iff by auto

lemma bt_get_above: "bt_get m k = Some v \<Longrightarrow> \<forall>x \<in> set m. a < fst x \<Longrightarrow> a < k"
  by (metis fst_conv map_of_SomeD)

lemma bt_keys_insert: "fst ` set (bt_insert k v m) = insert k (fst ` set m)"
  by (induction k v m rule: bt_insert.induct) auto

lemma bt_get_insert [simp]: "bt_get (bt_insert k v m) = (bt_get m)(k \<mapsto> v)"
  by (induction k v m rule: bt_insert.induct) (auto simp: fun_eq_iff)

lemma bt_wf_insert [simp]: "bt_wf m \<Longrightarrow> bt_wf (bt_insert k v m)"
  by (induction k v m rule: bt_insert.induct) (auto simp: bt_keys_insert)

lemma bt_keys_remove: "bt_wf m \<Longrightarrow> fst ` set (bt_remove k m) = fst ` set m - {k}"
  by (induction k m rule: bt_remove.induct) auto

lemma bt_get_remove [simp]: "bt_wf m \<Longrightarrow> bt_get (bt_remove k m) = (bt_get m)(k := None)"
  by (induction k m rule: bt_remove.induct) (auto simp: fun_eq_iff bt_get_below)

lemma bt_wf_remove [simp]: "bt_wf m \<Longrightarrow> bt_wf (bt_remove k m)"
  by (induction k m rule: bt_remove.induct) (auto simp: bt_keys_remove)

lemma bt_remove_absent: "bt_get m k = None \<Longrightarrow> bt_remove k m = m"
  by (induction k m rule: bt_remove.induct) (auto split: if_splits)

lemma length_bt_insert:
  "bt_wf m \<Longrightarrow> length (bt_insert k v m) = (if bt_get m k = None then Suc (length m) else length m)"
  by (induction k v m rule: bt_insert.induct) (auto simp: bt_get_below dest: bt_get_above)

lemma length_bt_remove:
  "bt_wf m \<Longrightarrow> length (bt_remove k m) = (if bt_get m k = None then length m else length m - 1)"
proof (induction k m rule: bt_remove.induct)
  case (2 k a b m)
  then show ?case by (cases m) (auto split: if_splits)
qed simp

lemma bt_insert_present: "bt_wf m \<Longrightarrow> bt_get m k \<noteq> None \<Longrightarrow> bt_keys (bt_insert k v m) = bt_keys m"
  by (induction k v m rule: bt_insert.induct) (auto dest: bt_get_above less_asym split: if_splits)

lemma bt_insert_insert [simp]: "bt_insert k w (bt_insert k v m) = bt_insert k w m"
  by (induction k v m rule: bt_insert.induct) auto

lemma bt_remove_below: "\<forall>x \<in> set m. a < fst x \<Longrightarrow> k < a \<Longrightarrow> bt_remove k m = m"
  by (induction k m rule: bt_remove.induct) auto

lemma bt_remove_insert [simp]: "bt_wf m \<Longrightarrow> bt_remove k (bt_insert k v m) = bt_remove k m"
  by (induction k v m rule: bt_insert.induct) (auto simp: bt_remove_below)

lemma bt_mem_iff: "bt_wf m \<Longrightarrow> (k, v) \<in> set m \<longleftrightarrow> bt_get m k = Some v"
proof -
  assume "bt_wf m"
  then have "distinct (map fst m)" by (simp add: bt_wf_def strict_sorted_iff)
  then show ?thesis by simp
qed

section \<open>Sums over the values\<close>

lemma bt_sum_nil [simp]: "bt_sum f [] = 0"
  by (simp add: bt_sum_def)

lemma bt_sum_insert_new:
  "bt_wf m \<Longrightarrow> bt_get m k = None \<Longrightarrow> bt_sum f (bt_insert k v m) = bt_sum f m + f v"
  by (induction k v m rule: bt_insert.induct) (auto simp: bt_sum_def split: if_splits)

lemma bt_sum_insert_upd:
  "bt_wf m \<Longrightarrow> bt_get m k = Some old \<Longrightarrow> bt_sum f (bt_insert k v m) + f old = bt_sum f m + f v"
  by (induction k v m rule: bt_insert.induct) (auto simp: bt_sum_def bt_get_below dest: bt_get_above split: if_splits)

lemma bt_sum_remove:
  "bt_wf m \<Longrightarrow> bt_get m k = Some old \<Longrightarrow> bt_sum f (bt_remove k m) + f old = bt_sum f m"
  by (induction k m rule: bt_remove.induct) (auto simp: bt_sum_def split: if_splits)

lemma bt_sum_member: "bt_get m k = Some v \<Longrightarrow> f v \<le> bt_sum f m"
  by (induction m) (auto simp: bt_sum_def split: if_splits)

section \<open>The contract\<close>

locale ordered_map =
  fixes inv :: "'m \<Rightarrow> bool"
    and empty :: 'm
    and get :: "'m \<Rightarrow> 'k::linorder \<Rightarrow> 'v option"
    and insert_at :: "'k \<Rightarrow> 'v \<Rightarrow> 'm \<Rightarrow> 'm"
    and remove_at :: "'k \<Rightarrow> 'm \<Rightarrow> 'm"
    and keys :: "'m \<Rightarrow> 'k list"
  assumes inv_empty: "inv empty"
    and inv_insert: "inv m \<Longrightarrow> inv (insert_at k v m)"
    and inv_remove: "inv m \<Longrightarrow> inv (remove_at k m)"
    and get_empty: "get empty k = None"
    and get_insert: "inv m \<Longrightarrow> get (insert_at k v m) = (get m)(k \<mapsto> v)"
    and get_remove: "inv m \<Longrightarrow> get (remove_at k m) = (get m)(k := None)"
    and keys_sorted: "inv m \<Longrightarrow> sorted_wrt (<) (keys m)"
    and keys_dom: "inv m \<Longrightarrow> set (keys m) = dom (get m)"
begin

lemma size_is_card: "inv m \<Longrightarrow> length (keys m) = card (dom (get m))"
  by (metis distinct_card keys_dom keys_sorted strict_sorted_iff)

text \<open>Iteration order is determined by the contents alone.\<close>

lemma keys_unique:
  assumes "inv m" and "inv m'" and "get m = get m'"
  shows "keys m = keys m'"
  using assms by (metis keys_dom keys_sorted strict_sorted_equal)

lemma overwrite: "inv m \<Longrightarrow> get (insert_at k w (insert_at k v m)) = get (insert_at k w m)"
  by (simp add: get_insert inv_insert)

lemma remove_fresh: "inv m \<Longrightarrow> get m k = None \<Longrightarrow> get (remove_at k (insert_at k v m)) = get m"
  by (simp add: get_insert get_remove inv_insert fun_upd_idem)

lemma size_insert:
  assumes "inv m"
  shows "length (keys (insert_at k v m)) = (if get m k = None then Suc (length (keys m)) else length (keys m))"
proof -
  have "finite (dom (get m))" using keys_dom [OF assms] by (metis finite_set)
  then show ?thesis
    using assms by (simp add: size_is_card inv_insert get_insert domIff insert_absorb)
qed

end

interpretation bt: ordered_map bt_wf "[]" bt_get bt_insert bt_remove bt_keys
  by unfold_locales (auto simp: bt_wf_def [symmetric] dom_map_of_conv_image_fst)

text \<open>Two well-formed maps with the same contents are the same list.\<close>

lemma bt_ext:
  assumes "bt_wf m" and "bt_wf m'" and "bt_get m = bt_get m'"
  shows "m = m'"
proof -
  have rebuild: "map (\<lambda>k. (k, the (bt_get n k))) (bt_keys n) = n" if "bt_wf n" for n :: "('a, 'b) btree"
    using that by (auto simp: bt_mem_iff intro!: map_idI)
  have "bt_keys m = bt_keys m'" using assms by (rule bt.keys_unique)
  with rebuild [OF assms(1)] rebuild [OF assms(2)] assms(3) show ?thesis by metis
qed

lemma bt_insert_same: "bt_wf m \<Longrightarrow> bt_get m k = Some v \<Longrightarrow> bt_insert k v m = m"
  by (rule bt_ext) (auto simp: fun_upd_idem)

end
