(* ===== verification/Yamux_Frame.thy ===== *)
theory Yamux_Frame
  imports Stream_Codec
begin

text \<open>
  The wire frames of \<open>crates/yamux/src/frame.rs\<close>: a twelve-byte header (version,
  type, flags, stream, value) and, for data frames, the payload. The incremental
  decoder keeps a buffer and a read offset and compacts lazily; it is shown to refine a
  decoder on the unread bytes alone, which satisfies the stream-codec contract.
  The error type is the one of \<open>crates/yamux/src/lib.rs\<close>.
\<close>

section \<open>Frames\<close>

definition HEADER_LEN :: nat where "HEADER_LEN = 12"

definition FLAG_SYN :: u16 where "FLAG_SYN = 1"
definition FLAG_ACK :: u16 where "FLAG_ACK = 2"
definition FLAG_FIN :: u16 where "FLAG_FIN = 4"
definition FLAG_RST :: u16 where "FLAG_RST = 8"

definition STREAM_FLAGS :: u16 where
  "STREAM_FLAGS = FLAG_SYN OR FLAG_ACK OR FLAG_FIN OR FLAG_RST"

definition PING_FLAGS :: u16 where
  "PING_FLAGS = FLAG_SYN OR FLAG_ACK"

lemmas flag_defs = FLAG_SYN_def FLAG_ACK_def FLAG_FIN_def FLAG_RST_def STREAM_FLAGS_def PING_FLAGS_def

datatype frame_type = DataFrame | WindowUpdateFrame | PingFrame | GoAwayFrame

datatype yamux_error =
    InvalidConfig string
  | UnsupportedVersion u8
  | UnknownFrameType u8
  | InvalidFlags frame_type u16
  | InvalidStreamId frame_type u32
  | FrameLengthTooLarge u32 u32  \<comment> \<open>\<open>FrameTooLarge\<close>: declared length and limit\<close>
  | FrameLengthOverflow
  | Protocol string
  | ReceiveWindowExceeded u32
  | WindowOverflow u32
  | TooManyStreams
  | StreamsExhausted
  | UnknownStream u32
  | StreamWriteClosed u32
  | SendBufferFull u32 nat nat nat  \<comment> \<open>stream, attempted, per-stream and total limit\<close>
  | SessionClosed
  | Failed

fun frame_type_decode :: "u8 \<Rightarrow> yamux_error + frame_type" where
  "frame_type_decode v =
     (if v = 0 then Inr DataFrame
      else if v = 1 then Inr WindowUpdateFrame
      else if v = 2 then Inr PingFrame
      else if v = 3 then Inr GoAwayFrame
      else Inl (UnknownFrameType v))"

fun frame_type_code :: "frame_type \<Rightarrow> u8" where
  "frame_type_code DataFrame = 0"
| "frame_type_code WindowUpdateFrame = 1"
| "frame_type_code PingFrame = 2"
| "frame_type_code GoAwayFrame = 3"

record frame =
  fr_type :: frame_type
  fr_flags :: u16
  fr_stream_id :: u32
  fr_value :: u32
  fr_payload :: bytes

definition allowed_flags :: "frame_type \<Rightarrow> u16" where
  "allowed_flags t =
     (case t of DataFrame \<Rightarrow> STREAM_FLAGS | WindowUpdateFrame \<Rightarrow> STREAM_FLAGS
      | PingFrame \<Rightarrow> PING_FLAGS | GoAwayFrame \<Rightarrow> 0)"

definition validate :: "frame \<Rightarrow> yamux_error + unit" where
  "validate f =
     (if fr_flags f AND NOT (allowed_flags (fr_type f)) \<noteq> 0 \<or>
         (fr_type f = PingFrame \<and> \<not> (fr_flags f = FLAG_SYN \<or> fr_flags f = FLAG_ACK))
      then Inl (InvalidFlags (fr_type f) (fr_flags f))
      else
        let valid_stream =
          (case fr_type f of
             DataFrame \<Rightarrow> fr_stream_id f \<noteq> 0 | WindowUpdateFrame \<Rightarrow> fr_stream_id f \<noteq> 0
           | PingFrame \<Rightarrow> fr_stream_id f = 0 | GoAwayFrame \<Rightarrow> fr_stream_id f = 0)
        in if \<not> valid_stream then Inl (InvalidStreamId (fr_type f) (fr_stream_id f)) else Inr ())"

definition data_frame :: "u32 \<Rightarrow> u16 \<Rightarrow> bytes \<Rightarrow> yamux_error + frame" where
  "data_frame stream_id flags payload =
     (if length payload < 2 ^ 32 then
        (let f = \<lparr>fr_type = DataFrame, fr_flags = flags, fr_stream_id = stream_id,
                  fr_value = word_of_nat (length payload), fr_payload = payload\<rparr>
         in rbind (validate f) (\<lambda>_. Inr f))
      else Inl FrameLengthOverflow)"

definition window_update_frame :: "u32 \<Rightarrow> u16 \<Rightarrow> u32 \<Rightarrow> yamux_error + frame" where
  "window_update_frame stream_id flags credit =
     (let f = \<lparr>fr_type = WindowUpdateFrame, fr_flags = flags, fr_stream_id = stream_id,
               fr_value = credit, fr_payload = []\<rparr>
      in rbind (validate f) (\<lambda>_. Inr f))"

definition ping_frame :: "u16 \<Rightarrow> u32 \<Rightarrow> yamux_error + frame" where
  "ping_frame flags nonce =
     (let f = \<lparr>fr_type = PingFrame, fr_flags = flags, fr_stream_id = 0,
               fr_value = nonce, fr_payload = []\<rparr>
      in rbind (validate f) (\<lambda>_. Inr f))"

definition go_away_frame :: "u32 \<Rightarrow> frame" where
  "go_away_frame code =
     \<lparr>fr_type = GoAwayFrame, fr_flags = 0, fr_stream_id = 0, fr_value = code, fr_payload = []\<rparr>"

definition encode :: "frame \<Rightarrow> bytes" where
  "encode f =
     [0, frame_type_code (fr_type f)] @ u16_to_be (fr_flags f) @ u32_to_be (fr_stream_id f)
     @ u32_to_be (fr_value f) @ fr_payload f"

section \<open>The incremental decoder\<close>

record frame_decoder =
  fd_buffer :: bytes
  fd_offset :: nat
  fd_max_frame_len :: u32

definition frame_decoder_new :: "u32 \<Rightarrow> frame_decoder" where
  "frame_decoder_new max_frame_len = \<lparr>fd_buffer = [], fd_offset = 0, fd_max_frame_len = max_frame_len\<rparr>"

definition decoder_push :: "bytes \<Rightarrow> frame_decoder \<Rightarrow> frame_decoder" where
  "decoder_push bytes d = d\<lparr>fd_buffer := fd_buffer d @ bytes\<rparr>"

definition decoder_clear :: "frame_decoder \<Rightarrow> frame_decoder" where
  "decoder_clear d = d\<lparr>fd_buffer := [], fd_offset := 0\<rparr>"

text \<open>\<open>copy_within\<close> and the subtraction panic when the offset is beyond the buffer.\<close>

definition compact_if_needed :: "frame_decoder \<Rightarrow> yamux_error fault + frame_decoder" where
  "compact_if_needed d =
     (if fd_offset d = length (fd_buffer d) then Inr (decoder_clear d)
      else if length (fd_buffer d) div 2 \<le> fd_offset d then
        (if fd_offset d \<le> length (fd_buffer d)
         then Inr (d\<lparr>fd_buffer := drop (fd_offset d) (fd_buffer d), fd_offset := 0\<rparr>)
         else Inl Panic)
      else Inr d)"

text \<open>The twelve header bytes: version, type, flags, stream and value, then the length bound.\<close>

definition parse_header :: "u32 \<Rightarrow> bytes \<Rightarrow> yamux_error + frame_type \<times> u16 \<times> u32 \<times> u32" where
  "parse_header max_frame_len header =
     (case header of
        [version, frame_type_raw, flags_high, flags_low,
         stream_3, stream_2, stream_1, stream_0, value_3, value_2, value_1, value_0] \<Rightarrow>
          if version \<noteq> 0 then Inl (UnsupportedVersion version)
          else rbind (frame_type_decode frame_type_raw) (\<lambda>type.
            let flags = u16_of_be flags_high flags_low;
                stream_id = u32_of_be stream_3 stream_2 stream_1 stream_0;
                val = u32_of_be value_3 value_2 value_1 value_0
            in if type = DataFrame \<and> max_frame_len < val
               then Inl (FrameLengthTooLarge val max_frame_len)
               else Inr (type, flags, stream_id, val))
      | _ \<Rightarrow> Inl FrameLengthOverflow)"

definition payload_len :: "frame_type \<Rightarrow> u32 \<Rightarrow> nat" where
  "payload_len type val = (if type = DataFrame then unat val else 0)"

text \<open>
  The part of \<open>next_frame\<close> that reads: the frame at the offset and its length, or
  \<open>None\<close> when it is not complete yet.
\<close>

definition parse_next :: "frame_decoder \<Rightarrow> yamux_error + (frame \<times> nat) option" where
  "parse_next d =
     (let buffer = fd_buffer d; offset = fd_offset d in
      if length buffer < offset then Inl FrameLengthOverflow
      else let available = length buffer - offset in
      if available < HEADER_LEN then Inr None
      else
        rbind (ok_or (usize_checked_add offset HEADER_LEN) FrameLengthOverflow) (\<lambda>header_end.
        rbind (ok_or (slice_get buffer offset header_end) FrameLengthOverflow) (\<lambda>header.
        rbind (parse_header (fd_max_frame_len d) header) (\<lambda>(type, flags, stream_id, val).
        rbind (ok_or (usize_checked_add HEADER_LEN (payload_len type val)) FrameLengthOverflow) (\<lambda>frame_len.
        if available < frame_len then Inr None
        else
          rbind (ok_or (usize_checked_add header_end (payload_len type val)) FrameLengthOverflow) (\<lambda>payload_end.
          rbind (ok_or (slice_get buffer header_end payload_end) FrameLengthOverflow) (\<lambda>payload.
            let f = \<lparr>fr_type = type, fr_flags = flags, fr_stream_id = stream_id,
                     fr_value = val, fr_payload = payload\<rparr>
            in rbind (validate f) (\<lambda>_. Inr (Some (f, frame_len))))))))))"

definition next_frame :: "frame_decoder \<Rightarrow> frame_decoder \<times> (yamux_error fault + frame option)" where
  "next_frame d =
     (case parse_next d of
        Inl e \<Rightarrow> (d, Inl (Err e))
      | Inr None \<Rightarrow> (d, Inr None)
      | Inr (Some (f, frame_len)) \<Rightarrow>
          (case usize_checked_add (fd_offset d) frame_len of
             None \<Rightarrow> (d, Inl (Err FrameLengthOverflow))
           | Some offset \<Rightarrow>
               (case compact_if_needed (d\<lparr>fd_offset := offset\<rparr>) of
                  Inl e \<Rightarrow> (d\<lparr>fd_offset := offset\<rparr>, Inl e)
                | Inr d' \<Rightarrow> (d', Inr (Some f)))))"

section \<open>The decoder on the unread bytes\<close>

text \<open>The specification the incremental decoder refines: no offset, no compaction.\<close>

definition yamux_step :: "u32 \<Rightarrow> bytes \<Rightarrow> (frame, yamux_error) step" where
  "yamux_step max_frame_len bs =
     (if length bs < HEADER_LEN then More
      else case parse_header max_frame_len (take HEADER_LEN bs) of
        Inl e \<Rightarrow> Bad e
      | Inr (type, flags, stream_id, val) \<Rightarrow>
          let n = payload_len type val in
          if length bs < HEADER_LEN + n then More
          else
            let f = \<lparr>fr_type = type, fr_flags = flags, fr_stream_id = stream_id,
                     fr_value = val, fr_payload = take n (drop HEADER_LEN bs)\<rparr>
            in case validate f of Inl e \<Rightarrow> Bad e | Inr _ \<Rightarrow> Done f (HEADER_LEN + n))"

text \<open>The frames a peer with this bound accepts.\<close>

definition frame_wf :: "frame \<Rightarrow> bool" where
  "frame_wf f \<longleftrightarrow>
     validate f = Inr () \<and>
     length (fr_payload f) = payload_len (fr_type f) (fr_value f)"

definition frame_accepted :: "u32 \<Rightarrow> frame \<Rightarrow> bool" where
  "frame_accepted max_frame_len f \<longleftrightarrow>
     frame_wf f \<and> (fr_type f = DataFrame \<longrightarrow> fr_value f \<le> max_frame_len)"

lemma frame_type_decode_iff [simp]: "frame_type_decode v = Inr t \<longleftrightarrow> v = frame_type_code t"
  by (cases t) auto

lemma frame_type_decode_code [simp]: "frame_type_decode (frame_type_code t) = Inr t"
  by (cases t) auto

declare frame_type_decode.simps [simp del]

text \<open>The header of a frame.\<close>

definition header_bytes :: "frame_type \<Rightarrow> u16 \<Rightarrow> u32 \<Rightarrow> u32 \<Rightarrow> bytes" where
  "header_bytes t flags stream_id val =
     [0, frame_type_code t] @ u16_to_be flags @ u32_to_be stream_id @ u32_to_be val"

lemma length_header_bytes [simp]: "length (header_bytes t flags s v) = HEADER_LEN"
  by (simp add: header_bytes_def HEADER_LEN_def)

lemma encode_header:
  "encode f = header_bytes (fr_type f) (fr_flags f) (fr_stream_id f) (fr_value f) @ fr_payload f"
  by (simp add: encode_def header_bytes_def)

lemma length_encode: "length (encode f) = HEADER_LEN + length (fr_payload f)"
  by (simp add: encode_header)

lemma encode_not_nil [simp]: "encode f \<noteq> []"
  by (simp add: encode_def)

lemma parse_header_iff:
  "parse_header max_frame_len h = Inr (t, flags, stream_id, val) \<longleftrightarrow>
     h = header_bytes t flags stream_id val \<and> (t = DataFrame \<longrightarrow> val \<le> max_frame_len)"
    (is "?l \<longleftrightarrow> ?r")
proof
  assume ?l
  then show ?r
    by (auto simp: parse_header_def header_bytes_def result_simps Let_def not_less
          split: list.splits if_splits)
next
  assume ?r
  then show ?l
    by (simp add: parse_header_def header_bytes_def u16_to_be_def u32_to_be_def Let_def not_less)
qed

lemma parse_header_bytes [simp]:
  "t = DataFrame \<longrightarrow> val \<le> max_frame_len \<Longrightarrow>
   parse_header max_frame_len (header_bytes t flags s val) = Inr (t, flags, s, val)"
  by (simp add: parse_header_iff)

lemma yamux_step_header:
  assumes "t = DataFrame \<longrightarrow> v \<le> max_frame_len"
  shows "yamux_step max_frame_len (header_bytes t flags s v @ rest) =
     (if length rest < payload_len t v then More
      else let f = \<lparr>fr_type = t, fr_flags = flags, fr_stream_id = s, fr_value = v,
                    fr_payload = take (payload_len t v) rest\<rparr>
           in case validate f of Inl e \<Rightarrow> Bad e | Inr _ \<Rightarrow> Done f (HEADER_LEN + payload_len t v))"
  using assms by (simp add: yamux_step_def Let_def)

lemma frame_eta [simp]:
  "\<lparr>fr_type = fr_type f, fr_flags = fr_flags f, fr_stream_id = fr_stream_id f,
    fr_value = fr_value f, fr_payload = fr_payload f\<rparr> = f"
  by simp

lemma yamux_step_encode:
  assumes "frame_accepted max_frame_len f"
  shows "yamux_step max_frame_len (encode f @ rest) = Done f (length (encode f))"
proof -
  have "yamux_step max_frame_len (encode f @ rest) =
      (case validate f of Inl e \<Rightarrow> Bad e | Inr _ \<Rightarrow> Done f (HEADER_LEN + length (fr_payload f)))"
    using assms unfolding encode_header append_assoc
    by (subst yamux_step_header) (simp_all add: frame_accepted_def frame_wf_def Let_def)
  with assms show ?thesis
    by (simp add: length_encode frame_accepted_def frame_wf_def)
qed

lemma yamux_step_prefix:
  assumes "frame_accepted max_frame_len f" and "encode f = xs @ ys" and "ys \<noteq> []"
  shows "yamux_step max_frame_len xs = More"
proof -
  from assms(2)
  have "header_bytes (fr_type f) (fr_flags f) (fr_stream_id f) (fr_value f) @ fr_payload f = xs @ ys"
    by (simp add: encode_header)
  then show ?thesis
  proof (cases rule: append_cut)
    case (inside q')
    then have "length xs < HEADER_LEN"
      using length_header_bytes by (metis length_append length_greater_0_conv less_add_same_cancel1)
    then show ?thesis by (simp add: yamux_step_def)
  next
    case (beyond p')
    then have "length p' < payload_len (fr_type f) (fr_value f)"
      using assms(1,3) by (cases ys) (auto simp: frame_accepted_def frame_wf_def)
    with beyond assms(1) show ?thesis
      by (simp add: yamux_step_header frame_accepted_def frame_wf_def)
  qed
qed

lemma yamux_step_Done:
  assumes "yamux_step max_frame_len bs = Done f n"
  shows "frame_accepted max_frame_len f" and "n = length (encode f)" and "bs = encode f @ drop n bs"
proof -
  obtain t flags s v where
    h: "parse_header max_frame_len (take HEADER_LEN bs) = Inr (t, flags, s, v)"
    using assms by (auto simp: yamux_step_def split: if_splits sum.splits)
  then have v: "t = DataFrame \<longrightarrow> v \<le> max_frame_len" and
    take: "take HEADER_LEN bs = header_bytes t flags s v"
    unfolding parse_header_iff by blast+
  define rest where "rest = drop HEADER_LEN bs"
  have bs: "bs = header_bytes t flags s v @ rest"
    by (simp add: rest_def flip: take)
  then have "yamux_step max_frame_len (header_bytes t flags s v @ rest) = Done f n"
    using assms by simp
  then have f: "f = \<lparr>fr_type = t, fr_flags = flags, fr_stream_id = s, fr_value = v,
      fr_payload = take (payload_len t v) rest\<rparr>"
    and "validate f = Inr ()" and len: "payload_len t v \<le> length rest"
    and n: "n = HEADER_LEN + payload_len t v"
    using v by (auto simp: yamux_step_header Let_def split: if_splits sum.splits)
  then show "frame_accepted max_frame_len f" and "n = length (encode f)"
    using v by (auto simp: frame_accepted_def frame_wf_def length_encode)
  show "bs = encode f @ drop n bs"
    by (simp add: bs n f encode_header)
qed

interpretation yamux_codec: stream_codec "frame_accepted max_frame_len" encode "yamux_step max_frame_len"
  for max_frame_len
  by unfold_locales (simp_all add: yamux_step_encode yamux_step_prefix)

section \<open>Refinement\<close>

definition unread :: "frame_decoder \<Rightarrow> bytes" where
  "unread d = drop (fd_offset d) (fd_buffer d)"

text \<open>
  The decoder's invariant: the offset is inside the first half of the buffer, so the
  buffer is at most twice what is unread, and the buffer fits in memory.
\<close>

definition decoder_inv :: "frame_decoder \<Rightarrow> bool" where
  "decoder_inv d \<longleftrightarrow>
     fd_offset d \<le> length (fd_buffer d) div 2 \<and> length (fd_buffer d) \<le> usize_max"

lemma decoder_inv_offset: "decoder_inv d \<Longrightarrow> fd_offset d \<le> length (fd_buffer d)"
  by (auto simp: decoder_inv_def)

lemma decoder_inv_new [simp]: "decoder_inv (frame_decoder_new m)"
  by (simp add: decoder_inv_def frame_decoder_new_def)

lemma decoder_inv_clear [simp]: "decoder_inv (decoder_clear d)" "unread (decoder_clear d) = []"
  "fd_max_frame_len (decoder_clear d) = fd_max_frame_len d"
  by (simp_all add: decoder_inv_def decoder_clear_def unread_def)

lemma decoder_inv_push:
  assumes "decoder_inv d" and "length (fd_buffer d) + length bytes \<le> usize_max"
  shows "decoder_inv (decoder_push bytes d)" and "unread (decoder_push bytes d) = unread d @ bytes"
    and "fd_max_frame_len (decoder_push bytes d) = fd_max_frame_len d"
  using assms div_le_mono [of "length (fd_buffer d)" "length (fd_buffer d) + length bytes" 2]
  by (auto simp: decoder_inv_def decoder_push_def unread_def)

lemma buffer_le_unread: "decoder_inv d \<Longrightarrow> length (fd_buffer d) \<le> 2 * length (unread d)"
  by (auto simp: decoder_inv_def unread_def)

lemma parse_next_refines:
  assumes "decoder_inv d"
  shows "parse_next d =
     (case yamux_step (fd_max_frame_len d) (unread d) of
        Done f n \<Rightarrow> Inr (Some (f, n)) | More \<Rightarrow> Inr None | Bad e \<Rightarrow> Inl e)"
proof (cases "length (unread d) < HEADER_LEN")
  case True
  with assms show ?thesis
    using decoder_inv_offset [OF assms] by (simp add: parse_next_def yamux_step_def unread_def Let_def)
next
  case False
  define buf where "buf = fd_buffer d"
  define off where "off = fd_offset d"
  have off: "off + HEADER_LEN \<le> length buf" "length buf \<le> usize_max"
    using False assms by (auto simp: buf_def off_def decoder_inv_def unread_def)
  have header: "slice_get buf off (off + HEADER_LEN) = Some (take HEADER_LEN (unread d))"
    using off by (simp add: slice_get_def unread_def buf_def off_def)
  show ?thesis
  proof (cases "parse_header (fd_max_frame_len d) (take HEADER_LEN (unread d))")
    case (Inl e)
    with False off header show ?thesis
      by (simp add: parse_next_def yamux_step_def unread_def usize_checked_add_def
            flip: buf_def off_def)
  next
    case (Inr h)
    obtain t flags s v where h: "h = (t, flags, s, v)" by (cases h) auto
    have "payload_len t v < 4294967296" by (simp add: payload_len_def)
    then have fits: "HEADER_LEN + payload_len t v \<le> usize_max"
      by (simp add: HEADER_LEN_def usize_max_def)
    show ?thesis
    proof (cases "length buf - off < HEADER_LEN + payload_len t v")
      case True
      with fits False off header Inr show ?thesis
        by (simp add: parse_next_def yamux_step_def unread_def usize_checked_add_def
              Let_def h add.commute flip: buf_def off_def)
    next
      case complete: False
      then have "HEADER_LEN + off + payload_len t v \<le> length buf" using off by linarith
      with complete fits False off header Inr show ?thesis
        by (simp add: parse_next_def yamux_step_def unread_def usize_checked_add_def slice_get_def
              Let_def h add.commute flip: buf_def off_def split: sum.split)
    qed
  qed
qed

lemma compact_refines:
  assumes "fd_offset d \<le> length (fd_buffer d)" and "length (fd_buffer d) \<le> usize_max"
  obtains d' where "compact_if_needed d = Inr d'" and "decoder_inv d'" and "unread d' = unread d"
    and "fd_max_frame_len d' = fd_max_frame_len d"
proof -
  have "\<exists>d'. compact_if_needed d = Inr d' \<and> decoder_inv d' \<and> unread d' = unread d \<and>
      fd_max_frame_len d' = fd_max_frame_len d"
    using assms
    by (auto simp: compact_if_needed_def decoder_inv_def decoder_clear_def unread_def)
  then show ?thesis using that by blast
qed

lemma next_frame_None_iff:
  assumes "decoder_inv d"
  shows "yamux_step (fd_max_frame_len d) (unread d) = More \<Longrightarrow> next_frame d = (d, Inr None)"
    and "yamux_step (fd_max_frame_len d) (unread d) = Bad e \<Longrightarrow> next_frame d = (d, Inl (Err e))"
  by (simp_all add: next_frame_def parse_next_refines [OF assms])

lemma next_frame_Some:
  assumes inv: "decoder_inv d" and step: "yamux_step (fd_max_frame_len d) (unread d) = Done f n"
  obtains d' where "next_frame d = (d', Inr (Some f))" and "decoder_inv d'"
    and "unread d' = drop n (unread d)" and "fd_max_frame_len d' = fd_max_frame_len d"
proof -
  have "length (encode f) \<le> length (unread d)" "n = length (encode f)"
    using yamux_step_Done [OF step] by (metis length_append le_add1)+
  then have off: "fd_offset d + n \<le> length (fd_buffer d)"
    using decoder_inv_offset [OF inv] by (simp add: unread_def)
  have len: "length (fd_buffer d) \<le> usize_max" using inv by (simp add: decoder_inv_def)
  obtain d' where "compact_if_needed (d\<lparr>fd_offset := fd_offset d + n\<rparr>) = Inr d'" "decoder_inv d'"
    "unread d' = unread (d\<lparr>fd_offset := fd_offset d + n\<rparr>)" "fd_max_frame_len d' = fd_max_frame_len d"
    using compact_refines [of "d\<lparr>fd_offset := fd_offset d + n\<rparr>"] off len by auto
  with off len step show ?thesis
    by (intro that [of d'])
       (simp_all add: next_frame_def parse_next_refines [OF inv] usize_checked_add_def unread_def add.commute)
qed

text \<open>The decoder waits exactly for the rest of a header or of an announced payload.\<close>

lemma yamux_step_More_iff:
  "yamux_step max_frame_len bs = More \<longleftrightarrow>
     length bs < HEADER_LEN \<or>
     (\<exists>t flags i v rest. bs = header_bytes t flags i v @ rest \<and>
        (t = DataFrame \<longrightarrow> v \<le> max_frame_len) \<and> length rest < payload_len t v)"
    (is "_ \<longleftrightarrow> _ \<or> ?waits")
proof (cases "length bs < HEADER_LEN")
  case False
  have "?waits" if more: "yamux_step max_frame_len bs = More"
  proof -
    obtain t flags i v where h: "parse_header max_frame_len (take HEADER_LEN bs) = Inr (t, flags, i, v)"
      and len: "length bs < HEADER_LEN + payload_len t v"
      using more False by (auto simp: yamux_step_def Let_def split: sum.splits if_splits)
    have "bs = header_bytes t flags i v @ drop HEADER_LEN bs"
      using h append_take_drop_id [of HEADER_LEN bs] unfolding parse_header_iff by simp
    moreover have "length (drop HEADER_LEN bs) < payload_len t v" using len False by simp
    moreover have "t = DataFrame \<longrightarrow> v \<le> max_frame_len" using h unfolding parse_header_iff by simp
    ultimately show ?thesis by blast
  qed
  with False show ?thesis by (auto simp: yamux_step_header)
qed (simp add: yamux_step_def)

text \<open>What a decoder keeps while it waits is less than one frame of the largest size.\<close>

lemma yamux_step_More:
  assumes "yamux_step max_frame_len bs = More"
  shows "length bs < HEADER_LEN + unat max_frame_len"
proof (cases "length bs < HEADER_LEN")
  case False
  then obtain t flags i v where h: "parse_header max_frame_len (take HEADER_LEN bs) = Inr (t, flags, i, v)"
    and len: "length bs < HEADER_LEN + payload_len t v"
    using assms by (auto simp: yamux_step_def Let_def split: sum.splits if_splits)
  have "payload_len t v \<le> unat max_frame_len"
    using h by (auto simp: parse_header_iff payload_len_def word_le_nat_alt)
  with len show ?thesis by linarith
qed simp

text \<open>Every frame shortens the unread bytes, whatever the state of the decoder.\<close>

lemma parse_next_consumes:
  "parse_next d = Inr (Some (f, n)) \<Longrightarrow> 0 < n \<and> fd_offset d + n \<le> length (fd_buffer d)"
  by (auto simp: parse_next_def Let_def HEADER_LEN_def usize_checked_add_def result_simps
      split: if_splits)

lemma next_frame_shrinks:
  assumes "next_frame d = (d', Inr (Some f))"
  shows "length (unread d') < length (unread d)"
proof -
  obtain n where n: "parse_next d = Inr (Some (f, n))"
    and c: "compact_if_needed (d\<lparr>fd_offset := fd_offset d + n\<rparr>) = Inr d'"
    using assms by (auto simp: next_frame_def usize_checked_add_def split: sum.splits option.splits if_splits)
  have "unread d' = drop (fd_offset d + n) (fd_buffer d)"
    using c by (auto simp: compact_if_needed_def unread_def decoder_clear_def split: if_splits)
  with parse_next_consumes [OF n] show ?thesis by (auto simp: unread_def)
qed

section \<open>Constructors\<close>

lemma data_frame_Inr_iff:
  "data_frame s flags p = Inr f \<longleftrightarrow>
     length p < 2 ^ 32 \<and> flags AND NOT STREAM_FLAGS = 0 \<and> s \<noteq> 0 \<and>
     f = \<lparr>fr_type = DataFrame, fr_flags = flags, fr_stream_id = s,
          fr_value = word_of_nat (length p), fr_payload = p\<rparr>"
  by (auto simp: data_frame_def validate_def allowed_flags_def Let_def result_simps split: if_splits)

lemma window_update_frame_Inr_iff:
  "window_update_frame s flags credit = Inr f \<longleftrightarrow>
     flags AND NOT STREAM_FLAGS = 0 \<and> s \<noteq> 0 \<and>
     f = \<lparr>fr_type = WindowUpdateFrame, fr_flags = flags, fr_stream_id = s,
          fr_value = credit, fr_payload = []\<rparr>"
  by (auto simp: window_update_frame_def validate_def allowed_flags_def Let_def result_simps split: if_splits)

lemma ping_frame_Inr_iff:
  "ping_frame flags nonce = Inr f \<longleftrightarrow>
     (flags = FLAG_SYN \<or> flags = FLAG_ACK) \<and>
     f = \<lparr>fr_type = PingFrame, fr_flags = flags, fr_stream_id = 0,
          fr_value = nonce, fr_payload = []\<rparr>"
  by (auto simp: ping_frame_def validate_def allowed_flags_def flag_defs Let_def result_simps split: if_splits)

lemma go_away_frame_wf: "frame_wf (go_away_frame code)"
  by (simp add: frame_wf_def go_away_frame_def validate_def allowed_flags_def payload_len_def)

lemma constructor_wf:
  "data_frame s flags p = Inr f \<Longrightarrow> frame_wf f"
  "window_update_frame s flags credit = Inr f \<Longrightarrow> frame_wf f"
  "ping_frame flags nonce = Inr f \<Longrightarrow> frame_wf f"
proof -
  assume "data_frame s flags p = Inr f"
  then show "frame_wf f"
    by (auto simp: data_frame_Inr_iff frame_wf_def validate_def allowed_flags_def payload_len_def
        unat_word_of_nat)
next
  assume "window_update_frame s flags credit = Inr f"
  then show "frame_wf f"
    by (auto simp: window_update_frame_Inr_iff frame_wf_def validate_def allowed_flags_def payload_len_def)
next
  assume "ping_frame flags nonce = Inr f"
  then show "frame_wf f"
    by (auto simp: ping_frame_Inr_iff frame_wf_def validate_def allowed_flags_def payload_len_def flag_defs)
qed

section \<open>Properties\<close>

text \<open>
  C18. The incremental decoder with its offset and lazy compaction is determined by the unread
  bytes alone, whatever was consumed before. It returns a frame exactly when they start with
  the encoding of that frame and the frame is valid and within the length bound, and then
  consumes exactly this encoding. It waits exactly when the header is not complete, or is a
  well-formed header within the bound whose payload is not complete. In every other case it
  reports an error; waiting and errors leave the decoder as it was. It never panics.
\<close>

theorem next_frame_correct:
  assumes "decoder_inv d"
  shows "(snd (next_frame d) = Inr (Some f) \<longleftrightarrow>
            frame_accepted (fd_max_frame_len d) f \<and> prefix (encode f) (unread d)) \<and>
         (snd (next_frame d) = Inr (Some f) \<longrightarrow>
            unread d = encode f @ unread (fst (next_frame d)) \<and> decoder_inv (fst (next_frame d)) \<and>
            fd_max_frame_len (fst (next_frame d)) = fd_max_frame_len d) \<and>
         (snd (next_frame d) = Inr None \<longleftrightarrow>
            length (unread d) < HEADER_LEN \<or>
            (\<exists>t flags i v rest. unread d = header_bytes t flags i v @ rest \<and>
               (t = DataFrame \<longrightarrow> v \<le> fd_max_frame_len d) \<and> length rest < payload_len t v)) \<and>
         ((\<forall>g. snd (next_frame d) \<noteq> Inr (Some g)) \<longrightarrow> fst (next_frame d) = d) \<and>
         snd (next_frame d) \<noteq> Inl Panic \<and> snd (next_frame d) \<noteq> Inl Diverge"
proof -
  let ?step = "yamux_step (fd_max_frame_len d) (unread d)"
  have enc: "?step = Done f (length (encode f))"
    if "frame_accepted (fd_max_frame_len d) f" "prefix (encode f) (unread d)" for f
    using that by (auto simp: prefix_def yamux_step_encode)
  show ?thesis
  proof (cases ?step)
    case (Done g n)
    then obtain d' where d': "next_frame d = (d', Inr (Some g))" "decoder_inv d'"
      "unread d' = drop n (unread d)" "fd_max_frame_len d' = fd_max_frame_len d"
      by (rule next_frame_Some [OF assms])
    have "unread d = encode g @ unread d'" using yamux_step_Done(3) [OF Done] d'(3) by simp
    moreover from this have "prefix (encode g) (unread d)" by (simp add: prefix_def)
    moreover have "f = g" if "frame_accepted (fd_max_frame_len d) f" "prefix (encode f) (unread d)"
      using enc [OF that] Done by simp
    ultimately show ?thesis
      unfolding yamux_step_More_iff [symmetric] using d' Done yamux_step_Done(1) [OF Done] by auto
  next
    case More
    with enc [of f] next_frame_None_iff(1) [OF assms] show ?thesis
      unfolding yamux_step_More_iff [symmetric] by auto
  next
    case (Bad e)
    with enc [of f] next_frame_None_iff(2) [OF assms] show ?thesis
      unfolding yamux_step_More_iff [symmetric] by auto
  qed
qed

theorem next_frame_correct_witness:
  "(\<exists>d'. next_frame (decoder_push (encode (go_away_frame 1) @ [7]) (frame_decoder_new 16)) =
           (d', Inr (Some (go_away_frame 1))) \<and> unread d' = [7]) \<and>
   (\<exists>e. next_frame (decoder_push (1 # replicate 11 0) (frame_decoder_new 16)) =
           (decoder_push (1 # replicate 11 0) (frame_decoder_new 16), Inl (Err e)))"
proof
  let ?d = "decoder_push (encode (go_away_frame 1) @ [7]) (frame_decoder_new 16)"
  have "decoder_inv ?d" and "unread ?d = encode (go_away_frame 1) @ [7]" and
    "frame_accepted (fd_max_frame_len ?d) (go_away_frame 1)"
    by (simp_all add: decoder_inv_def decoder_push_def frame_decoder_new_def usize_max_def encode_def
        go_away_frame_def unread_def frame_accepted_def frame_wf_def validate_def allowed_flags_def
        payload_len_def)
  with next_frame_correct [of ?d "go_away_frame 1"]
  show "\<exists>d'. next_frame ?d = (d', Inr (Some (go_away_frame 1))) \<and> unread d' = [7]"
    by (intro exI [of _ "fst (next_frame ?d)"]) (auto simp: prod_eq_iff)
next
  let ?d = "decoder_push (1 # replicate 11 0) (frame_decoder_new 16)"
  have d: "decoder_inv ?d" "unread ?d = 1 # replicate 11 0"
    by (simp_all add: decoder_inv_def decoder_push_def frame_decoder_new_def usize_max_def unread_def)
  have none: "snd (next_frame ?d) \<noteq> Inr None" "\<forall>g. snd (next_frame ?d) \<noteq> Inr (Some g)"
    using next_frame_correct [OF d(1)] by (auto simp: d(2) HEADER_LEN_def header_bytes_def encode_def)
  have "snd (next_frame ?d) \<in> range (\<lambda>e. Inl (Err e))"
  proof (cases "snd (next_frame ?d)")
    case (Inl x)
    then show ?thesis using next_frame_correct [OF d(1)] by (cases x) auto
  next
    case (Inr x)
    then show ?thesis using none by (cases x) auto
  qed
  moreover have "fst (next_frame ?d) = ?d" using next_frame_correct [OF d(1)] none(2) by blast
  ultimately show "\<exists>e. next_frame ?d = (?d, Inl (Err e))" by (auto simp: prod_eq_iff)
qed

end
