(* ===== verification/Yamux_Session.thy ===== *)
theory Yamux_Session
  imports Yamux_Frame Btree_Map
begin

text \<open>
  The stream multiplexer of \<open>crates/yamux/src/session.rs\<close>: configuration, stream
  states, the session and every method of it. A method takes the session and returns
  the new session with its result; \<open>Panic\<close> stands for a failed \<open>expect\<close> or an
  arithmetic underflow and \<open>Diverge\<close> for a loop that does not end, so that their
  absence is a theorem. The streams are a map with ascending keys, the queue of outputs
  a list.
\<close>

section \<open>Configuration and outputs\<close>

definition KEEPALIVE_INTERVAL_MS :: u64 where "KEEPALIVE_INTERVAL_MS = 30000"

definition DEFAULT_RECEIVE_WINDOW :: u32 where "DEFAULT_RECEIVE_WINDOW = 262144"

datatype yamux_role = Client | Server

record yamux_config =
  cfg_receive_window :: u32
  cfg_max_frame_len :: u32
  cfg_max_streams :: nat
  cfg_max_buffered_send :: nat
  cfg_max_total_buffered_send :: nat

definition yamux_config_default :: yamux_config where
  "yamux_config_default =
     \<lparr>cfg_receive_window = DEFAULT_RECEIVE_WINDOW, cfg_max_frame_len = 1048576,
      cfg_max_streams = 256, cfg_max_buffered_send = 262144,
      cfg_max_total_buffered_send = 4194304\<rparr>"

datatype yamux_output =
    Outbound bytes
  | IncomingStream u32
  | StreamData u32 bytes
  | RemoteWriteClosed u32
  | StreamClosed u32
  | GoAwayReceived u32

section \<open>Stream states\<close>

datatype open_flag = OpenSyn | OpenAck

record stream_state =
  st_locally_opened :: bool
  st_pending_open :: "open_flag option"
  st_acknowledged :: bool
  st_send_window :: u32
  st_receive_window :: u32
  st_delivered_since_update :: u32
  st_pending_credit :: u64
  st_send_buffer :: "bytes list"
  st_buffered_send :: nat
  st_close_pending :: bool
  st_local_write_closed :: bool
  st_remote_write_closed :: bool

text \<open>The subtraction of the default window panics on a configuration below it.\<close>

definition initial_credit :: "yamux_config \<Rightarrow> yamux_error fault + u64" where
  "initial_credit config =
     (if cfg_receive_window config < DEFAULT_RECEIVE_WINDOW then Inl Panic
      else Inr (ucast (cfg_receive_window config - DEFAULT_RECEIVE_WINDOW)))"

definition stream_outbound :: "yamux_config \<Rightarrow> yamux_error fault + stream_state" where
  "stream_outbound config =
     rbind (initial_credit config) (\<lambda>credit. Inr
       \<lparr>st_locally_opened = True, st_pending_open = Some OpenSyn, st_acknowledged = False,
        st_send_window = DEFAULT_RECEIVE_WINDOW, st_receive_window = DEFAULT_RECEIVE_WINDOW,
        st_delivered_since_update = 0, st_pending_credit = credit,
        st_send_buffer = [], st_buffered_send = 0, st_close_pending = False,
        st_local_write_closed = False, st_remote_write_closed = False\<rparr>)"

definition stream_inbound :: "yamux_config \<Rightarrow> u32 \<Rightarrow> yamux_error fault + stream_state" where
  "stream_inbound config send_window =
     rbind (initial_credit config) (\<lambda>credit. Inr
       \<lparr>st_locally_opened = False, st_pending_open = Some OpenAck, st_acknowledged = False,
        st_send_window = send_window, st_receive_window = DEFAULT_RECEIVE_WINDOW,
        st_delivered_since_update = 0, st_pending_credit = credit,
        st_send_buffer = [], st_buffered_send = 0, st_close_pending = False,
        st_local_write_closed = False, st_remote_write_closed = False\<rparr>)"

definition take_open_flag :: "stream_state \<Rightarrow> stream_state \<times> u16" where
  "take_open_flag st =
     (let st' = st\<lparr>st_pending_open := None\<rparr> in
      case st_pending_open st of
        Some OpenSyn \<Rightarrow> (st', FLAG_SYN)
      | Some OpenAck \<Rightarrow> (st'\<lparr>st_acknowledged := True\<rparr>, FLAG_ACK)
      | None \<Rightarrow> (st', 0))"

definition has_deferred_control :: "stream_state \<Rightarrow> bool" where
  "has_deferred_control st \<longleftrightarrow> st_pending_open st \<noteq> None \<or> st_pending_credit st \<noteq> 0"

section \<open>The session\<close>

record yamux_session =
  y_role :: yamux_role
  y_config :: yamux_config
  y_decoder :: frame_decoder
  y_streams :: "(u32, stream_state) btree"
  y_next_stream_id :: "u32 option"
  y_pending :: "yamux_output list"
  y_total_buffered_send :: nat
  y_failed :: bool
  y_local_go_away :: bool
  y_remote_go_away :: bool
  y_last_activity_ms :: "u64 option"
  y_dirty :: bool
  y_next_ping_nonce :: u32

definition from_validated_config :: "yamux_role \<Rightarrow> yamux_config \<Rightarrow> yamux_session" where
  "from_validated_config role config =
     \<lparr>y_role = role, y_config = config, y_decoder = frame_decoder_new (cfg_max_frame_len config),
      y_streams = [], y_next_stream_id = Some (case role of Client \<Rightarrow> 1 | Server \<Rightarrow> 2),
      y_pending = [], y_total_buffered_send = 0, y_failed = False, y_local_go_away = False,
      y_remote_go_away = False, y_last_activity_ms = None, y_dirty = False, y_next_ping_nonce = 1\<rparr>"

definition yamux_new :: "yamux_role \<Rightarrow> yamux_session" where
  "yamux_new role = from_validated_config role yamux_config_default"

definition with_config :: "yamux_role \<Rightarrow> yamux_config \<Rightarrow> yamux_error + yamux_session" where
  "with_config role config =
     (if cfg_receive_window config < DEFAULT_RECEIVE_WINDOW
      then Inl (InvalidConfig ''receive_window is below Yamux's initial 256 KiB credit'')
      else if cfg_max_frame_len config = 0
      then Inl (InvalidConfig ''max_frame_len must be greater than zero'')
      else Inr (from_validated_config role config))"

type_synonym 'a yamux_result = "yamux_session \<times> (yamux_error fault + 'a)"

definition ensure_active :: "yamux_session \<Rightarrow> yamux_error + unit" where
  "ensure_active s =
     (if y_failed s then Inl Failed
      else if y_local_go_away s \<or> y_remote_go_away s then Inl SessionClosed
      else Inr ())"

text \<open>Writing back a stream state that was borrowed with \<open>get_mut\<close>.\<close>

definition put_stream :: "u32 \<Rightarrow> stream_state \<Rightarrow> yamux_session \<Rightarrow> yamux_session" where
  "put_stream stream st s = s\<lparr>y_streams := bt_insert stream st (y_streams s)\<rparr>"

definition emit :: "yamux_output \<Rightarrow> yamux_session \<Rightarrow> yamux_session" where
  "emit out s = s\<lparr>y_pending := y_pending s @ [out]\<rparr>"

definition queue_frame :: "frame \<Rightarrow> yamux_session \<Rightarrow> yamux_session" where
  "queue_frame f s = emit (Outbound (encode f)) (s\<lparr>y_dirty := True\<rparr>)"

fun queue_frames :: "frame list \<Rightarrow> yamux_session \<Rightarrow> yamux_session" where
  "queue_frames [] s = s"
| "queue_frames (f # fs) s = queue_frames fs (queue_frame f s)"

definition queue_reset_for_unknown :: "u32 \<Rightarrow> yamux_session \<Rightarrow> unit yamux_result" where
  "queue_reset_for_unknown stream s =
     (case data_frame stream FLAG_RST [] of
        Inl e \<Rightarrow> (s, Inl (Err e))
      | Inr f \<Rightarrow> (queue_frame f s, Inr ()))"

definition remove_stream :: "u32 \<Rightarrow> bool \<Rightarrow> yamux_session \<Rightarrow> unit yamux_result" where
  "remove_stream stream notify s =
     (case bt_get (y_streams s) stream of
        None \<Rightarrow> (s, Inr ())
      | Some st \<Rightarrow>
          let s1 = s\<lparr>y_streams := bt_remove stream (y_streams s)\<rparr> in
          if y_total_buffered_send s1 < st_buffered_send st then (s1, Inl Panic)
          else
            let s2 = s1\<lparr>y_total_buffered_send := y_total_buffered_send s1 - st_buffered_send st\<rparr>
            in (if notify then emit (StreamClosed stream) s2 else s2, Inr ()))"

definition close_all_streams :: "yamux_session \<Rightarrow> yamux_session" where
  "close_all_streams s =
     fold (\<lambda>stream. emit (StreamClosed stream)) (bt_keys (y_streams s))
       (s\<lparr>y_streams := [], y_total_buffered_send := 0\<rparr>)"

definition valid_remote_stream_id :: "u32 \<Rightarrow> yamux_session \<Rightarrow> bool" where
  "valid_remote_stream_id stream s \<longleftrightarrow>
     stream \<noteq> 0 \<and> (case y_role s of Client \<Rightarrow> stream mod 2 = 0 | Server \<Rightarrow> \<not> stream mod 2 = 0)"

definition fail_protocol :: "yamux_error \<Rightarrow> yamux_session \<Rightarrow> 'a yamux_result" where
  "fail_protocol error s =
     (let streams = bt_keys (y_streams s);
          s1 = s\<lparr>y_failed := True, y_streams := [], y_total_buffered_send := 0,
                 y_decoder := decoder_clear (y_decoder s), y_pending := []\<rparr>;
          s2 = queue_frame (go_away_frame 1) s1
      in (fold (\<lambda>stream. emit (StreamClosed stream)) streams s2, Inl (Err error)))"

section \<open>Local operations\<close>

definition poll :: "u64 \<Rightarrow> yamux_session \<Rightarrow> unit yamux_result" where
  "poll now s =
     (case ensure_active s of
        Inl e \<Rightarrow> (s, Inl (Err e))
      | Inr _ \<Rightarrow>
          let s1 = (if y_dirty s \<or> y_last_activity_ms s = None
                    then s\<lparr>y_last_activity_ms := Some now, y_dirty := False\<rparr> else s)
          in case y_last_activity_ms s1 of
               None \<Rightarrow> (s1, Inl Panic)
             | Some last_ms \<Rightarrow>
                 if KEEPALIVE_INTERVAL_MS \<le> u64_saturating_sub now last_ms then
                   let nonce = y_next_ping_nonce s1;
                       s2 = s1\<lparr>y_next_ping_nonce := nonce + 1\<rparr>
                   in case ping_frame FLAG_SYN nonce of
                        Inl e \<Rightarrow> (s2, Inl (Err e))
                      | Inr f \<Rightarrow>
                          ((queue_frame f s2)\<lparr>y_last_activity_ms := Some now, y_dirty := False\<rparr>, Inr ())
                 else (s1, Inr ()))"

definition next_deadline :: "yamux_session \<Rightarrow> u64 option" where
  "next_deadline s =
     (if y_failed s \<or> y_local_go_away s \<or> y_remote_go_away s then None
      else case y_last_activity_ms s of
        None \<Rightarrow> None
      | Some last_ms \<Rightarrow> Some (u64_saturating_add last_ms KEEPALIVE_INTERVAL_MS))"

definition open_stream :: "yamux_session \<Rightarrow> u32 yamux_result" where
  "open_stream s =
     (case ensure_active s of
        Inl e \<Rightarrow> (s, Inl (Err e))
      | Inr _ \<Rightarrow>
          if cfg_max_streams (y_config s) \<le> length (y_streams s) then (s, Inl (Err TooManyStreams))
          else case y_next_stream_id s of
            None \<Rightarrow> (s, Inl (Err StreamsExhausted))
          | Some stream \<Rightarrow>
              let s1 = s\<lparr>y_next_stream_id := u32_checked_add stream 2\<rparr> in
              (case stream_outbound (y_config s1) of
                 Inl e \<Rightarrow> (s1, Inl e)
               | Inr st \<Rightarrow> (put_stream stream st s1, Inr stream)))"

text \<open>
  The framing loop of \<open>send\<close>. It does not end for a frame length of zero, which
  \<open>with_config\<close> refuses.
\<close>

partial_function (option) send_loop ::
  "nat \<Rightarrow> u32 \<Rightarrow> bool \<Rightarrow> bytes \<Rightarrow> stream_state \<Rightarrow> frame list
     \<Rightarrow> (stream_state \<times> (yamux_error + frame list)) option" where
  "send_loop max_frame_len stream first immediate st frames =
     (if immediate = [] then Some (st, Inr frames)
      else
        let rest = (if max_frame_len < length immediate then drop max_frame_len immediate else []);
            chunk = (if max_frame_len < length immediate then take max_frame_len immediate else immediate);
            (st', flags) = (if first then take_open_flag st else (st, 0))
        in case data_frame stream flags chunk of
             Inl e \<Rightarrow> Some (st', Inl e)
           | Inr f \<Rightarrow> send_loop max_frame_len stream False rest st' (frames @ [f]))"

text \<open>The frames for the bytes that go out at once.\<close>

definition frame_immediate ::
  "nat \<Rightarrow> u32 \<Rightarrow> bytes \<Rightarrow> nat \<Rightarrow> stream_state \<Rightarrow> (stream_state \<times> (yamux_error + frame list)) option" where
  "frame_immediate max_frame_len stream data immediate_len st =
     (if data = [] \<and> st_pending_open st \<noteq> None then
        let (st', flags) = take_open_flag st
        in Some (st', rbind (data_frame stream flags []) (\<lambda>f. Inr [f]))
      else if immediate_len \<noteq> 0 then
        send_loop max_frame_len stream True (take immediate_len data) st []
      else Some (st, Inr []))"

definition over_limit :: "nat \<Rightarrow> nat \<Rightarrow> nat \<Rightarrow> bool" where
  "over_limit current added limit =
     (case usize_checked_add current added of None \<Rightarrow> True | Some v \<Rightarrow> limit < v)"

definition send :: "u32 \<Rightarrow> bytes \<Rightarrow> yamux_session \<Rightarrow> unit yamux_result" where
  "send stream data s =
     (case ensure_active s of
        Inl e \<Rightarrow> (s, Inl (Err e))
      | Inr _ \<Rightarrow>
        (case bt_get (y_streams s) stream of
           None \<Rightarrow> (s, Inl (Err (UnknownStream stream)))
         | Some st \<Rightarrow>
           if st_local_write_closed st \<or> st_close_pending st
           then (s, Inl (Err (StreamWriteClosed stream)))
           else
             let immediate_len = min (length data) (unat (st_send_window st));
                 queued_len = length data - immediate_len;
                 config = y_config s
             in if over_limit (st_buffered_send st) queued_len (cfg_max_buffered_send config) \<or>
                   over_limit (y_total_buffered_send s) queued_len (cfg_max_total_buffered_send config)
                then (s, Inl (Err (SendBufferFull stream queued_len
                        (cfg_max_buffered_send config) (cfg_max_total_buffered_send config))))
                else
                  let st1 = st\<lparr>st_send_window := st_send_window st - word_of_nat immediate_len\<rparr>;
                      queued = drop immediate_len data
                  in case frame_immediate (unat (cfg_max_frame_len config)) stream data immediate_len st1 of
                       None \<Rightarrow> (s, Inl Diverge)
                     | Some (st2, Inl e) \<Rightarrow> (put_stream stream st2 s, Inl (Err e))
                     | Some (st2, Inr frames) \<Rightarrow>
                         let st3 = (if queued_len \<noteq> 0
                                    then st2\<lparr>st_send_buffer := st_send_buffer st2 @ [queued],
                                             st_buffered_send := st_buffered_send st2 + queued_len\<rparr>
                                    else st2);
                             s1 = put_stream stream st3 s;
                             s2 = s1\<lparr>y_total_buffered_send := y_total_buffered_send s1 + queued_len\<rparr>
                         in (queue_frames frames s2, Inr ())))"

definition close_write :: "u32 \<Rightarrow> yamux_session \<Rightarrow> unit yamux_result" where
  "close_write stream s =
     (case ensure_active s of
        Inl e \<Rightarrow> (s, Inl (Err e))
      | Inr _ \<Rightarrow>
        (case bt_get (y_streams s) stream of
           None \<Rightarrow> (s, Inl (Err (UnknownStream stream)))
         | Some st \<Rightarrow>
           if st_local_write_closed st \<or> st_close_pending st then (s, Inr ())
           else if st_buffered_send st \<noteq> 0
           then (put_stream stream (st\<lparr>st_close_pending := True\<rparr>) s, Inr ())
           else
             let (st1, flags) = take_open_flag st in
             case data_frame stream (flags OR FLAG_FIN) [] of
               Inl e \<Rightarrow> (put_stream stream st1 s, Inl (Err e))
             | Inr f \<Rightarrow>
                 let s1 = queue_frame f (put_stream stream (st1\<lparr>st_local_write_closed := True\<rparr>) s)
                 in if st_remote_write_closed st1 then remove_stream stream True s1 else (s1, Inr ())))"

definition reset :: "u32 \<Rightarrow> yamux_session \<Rightarrow> unit yamux_result" where
  "reset stream s =
     (case ensure_active s of
        Inl e \<Rightarrow> (s, Inl (Err e))
      | Inr _ \<Rightarrow>
        (case bt_get (y_streams s) stream of
           None \<Rightarrow> (s, Inl (Err (UnknownStream stream)))
         | Some st \<Rightarrow>
             let s1 = s\<lparr>y_streams := bt_remove stream (y_streams s)\<rparr> in
             if y_total_buffered_send s1 < st_buffered_send st then (s1, Inl Panic)
             else
               let s2 = s1\<lparr>y_total_buffered_send := y_total_buffered_send s1 - st_buffered_send st\<rparr> in
               (case data_frame stream FLAG_RST [] of
                  Inl e \<Rightarrow> (s2, Inl (Err e))
                | Inr f \<Rightarrow> (emit (StreamClosed stream) (queue_frame f s2), Inr ()))))"

definition go_away :: "u32 \<Rightarrow> yamux_session \<Rightarrow> yamux_session" where
  "go_away code s =
     (if y_local_go_away s \<or> y_failed s then s
      else
        let s1 = close_all_streams (queue_frame (go_away_frame code) (s\<lparr>y_local_go_away := True\<rparr>))
        in s1\<lparr>y_decoder := decoder_clear (y_decoder s1)\<rparr>)"

section \<open>Frames from the peer\<close>

text \<open>
  The loop of \<open>flush_buffered\<close> over one stream; it accumulates the number of bytes
  taken off the queue and the frames.
\<close>

partial_function (option) flush_loop ::
  "nat \<Rightarrow> u32 \<Rightarrow> stream_state \<Rightarrow> nat \<Rightarrow> frame list
     \<Rightarrow> (stream_state \<times> nat \<times> (yamux_error fault + frame list)) option" where
  "flush_loop max_frame_len stream st drained frames =
     (if st_send_window st = 0 then Some (st, drained, Inr frames)
      else case st_send_buffer st of
        [] \<Rightarrow> Some (st, drained, Inr frames)
      | chunk # buffer \<Rightarrow>
          let send_len = min (min (length chunk) (unat (st_send_window st))) max_frame_len;
              remainder = drop send_len chunk;
              st1 = st\<lparr>st_send_buffer := buffer,
                       st_send_window := st_send_window st - word_of_nat send_len\<rparr>
          in if st_buffered_send st1 < send_len then Some (st1, drained, Inl Panic)
             else
               let st2 = st1\<lparr>st_buffered_send := st_buffered_send st1 - send_len\<rparr>;
                   (st3, flags) = take_open_flag st2
               in case data_frame stream flags (take send_len chunk) of
                    Inl e \<Rightarrow> Some (st3, drained + send_len, Inl (Err e))
                  | Inr f \<Rightarrow>
                      flush_loop max_frame_len stream
                        (if remainder = [] then st3
                         else st3\<lparr>st_send_buffer := remainder # st_send_buffer st3\<rparr>)
                        (drained + send_len) (frames @ [f]))"

definition flush_buffered :: "u32 \<Rightarrow> yamux_session \<Rightarrow> unit yamux_result" where
  "flush_buffered stream s =
     (case bt_get (y_streams s) stream of
        None \<Rightarrow> (s, Inl (Err (UnknownStream stream)))
      | Some st \<Rightarrow>
        (case flush_loop (unat (cfg_max_frame_len (y_config s))) stream st 0 [] of
           None \<Rightarrow> (s, Inl Diverge)
         | Some (st1, drained, Inl e) \<Rightarrow> (put_stream stream st1 s, Inl e)
         | Some (st1, drained, Inr frames) \<Rightarrow>
             let close_after_flush = (st_send_buffer st1 = [] \<and> st_close_pending st1);
                 (st2, closing) =
                   (if close_after_flush then
                      let (st', flags) =
                            take_open_flag (st1\<lparr>st_close_pending := False, st_local_write_closed := True\<rparr>)
                      in (st', rbind (data_frame stream (flags OR FLAG_FIN) []) (\<lambda>f. Inr [f]))
                    else (st1, Inr []))
             in case closing of
                  Inl e \<Rightarrow> (put_stream stream st2 s, Inl (Err e))
                | Inr fin \<Rightarrow>
                    let s1 = put_stream stream st2 s in
                    if y_total_buffered_send s1 < drained then (s1, Inl Panic)
                    else
                      let s2 = s1\<lparr>y_total_buffered_send := y_total_buffered_send s1 - drained\<rparr>;
                          s3 = queue_frames (frames @ fin) s2
                      in if close_after_flush \<and> st_remote_write_closed st2
                         then remove_stream stream True s3 else (s3, Inr ())))"

text \<open>
  The common opening of \<open>on_data\<close> and \<open>on_window_update\<close>: a new stream under
  \<open>SYN\<close>, a reset for an unknown one. \<open>Inr True\<close> means that processing goes on.
\<close>

definition accept_syn :: "u32 \<Rightarrow> (yamux_error + u32) \<Rightarrow> yamux_session \<Rightarrow> bool yamux_result" where
  "accept_syn stream send_window s =
     (if \<not> valid_remote_stream_id stream s
      then (s, Inl (Err (Protocol ''remote used a local-parity stream id'')))
      else if bt_get (y_streams s) stream \<noteq> None
      then (s, Inl (Err (Protocol ''duplicate SYN for an existing stream'')))
      else if cfg_max_streams (y_config s) \<le> length (y_streams s)
      then sbind (queue_reset_for_unknown stream s) (\<lambda>_ s1. (s1, Inr False))
      else case send_window of
        Inl e \<Rightarrow> (s, Inl (Err e))
      | Inr w \<Rightarrow>
          (case stream_inbound (y_config s) w of
             Inl e \<Rightarrow> (s, Inl e)
           | Inr st \<Rightarrow> (emit (IncomingStream stream) (put_stream stream st s), Inr True)))"

definition ack_seen :: "frame \<Rightarrow> stream_state \<Rightarrow> stream_state" where
  "ack_seen f st =
     (if fr_flags f AND FLAG_ACK \<noteq> 0 \<and> st_locally_opened st then st\<lparr>st_acknowledged := True\<rparr> else st)"

text \<open>The part of \<open>on_data\<close> that updates the stream: its new state, whether bytes are
  delivered, whether the remote side closed, whether the stream is done.\<close>

definition receive_data :: "yamux_config \<Rightarrow> frame \<Rightarrow> stream_state
    \<Rightarrow> stream_state \<times> (yamux_error + bytes option \<times> bool \<times> bool)" where
  "receive_data config f st =
     (let flags = fr_flags f;
          st1 = ack_seen f st
      in if st_remote_write_closed st1 \<and> fr_payload f \<noteq> [] then (st1, Inl (Protocol ''data after FIN''))
      else if st_receive_window st1 < fr_value f then (st1, Inl (ReceiveWindowExceeded (fr_stream_id f)))
      else
        let st2 = st1\<lparr>st_receive_window := st_receive_window st1 - fr_value f\<rparr> in
        case u32_checked_add (st_delivered_since_update st2) (fr_value f) of
          None \<Rightarrow> (st2, Inl (Protocol ''receive accounting overflow''))
        | Some delivered \<Rightarrow>
            let data_output = (if fr_payload f \<noteq> [] then Some (fr_payload f) else None);
                st3 = st2\<lparr>st_delivered_since_update := delivered\<rparr>;
                st4 = (if cfg_receive_window config div 2 < delivered
                       then st3\<lparr>st_pending_credit := st_pending_credit st3 + ucast delivered,
                                st_delivered_since_update := 0\<rparr>
                       else st3);
                remote_closed = (flags AND FLAG_FIN \<noteq> 0 \<and> \<not> st_remote_write_closed st4);
                st5 = (if remote_closed then st4\<lparr>st_remote_write_closed := True\<rparr> else st4)
            in (st5, Inr (data_output, remote_closed,
                          st_remote_write_closed st5 \<and> st_local_write_closed st5)))"

text \<open>The rest of \<open>on_data\<close>, on a stream that was inserted or found.\<close>

definition on_data_tracked :: "frame \<Rightarrow> yamux_session \<Rightarrow> unit yamux_result" where
  "on_data_tracked f s =
     (let stream = fr_stream_id f in
      case bt_get (y_streams s) stream of
        None \<Rightarrow> (s, Inl Panic)
      | Some st \<Rightarrow>
          (case receive_data (y_config s) f st of
             (st', Inl e) \<Rightarrow> (put_stream stream st' s, Inl (Err e))
           | (st', Inr (data_output, remote_closed, fully_closed)) \<Rightarrow>
               let s1 = put_stream stream st' s;
                   s2 = (case data_output of None \<Rightarrow> s1 | Some data \<Rightarrow> emit (StreamData stream data) s1);
                   s3 = (if remote_closed then emit (RemoteWriteClosed stream) s2 else s2)
               in if fully_closed then remove_stream stream True s3 else (s3, Inr ())))"

definition on_data :: "frame \<Rightarrow> yamux_session \<Rightarrow> unit yamux_result" where
  "on_data f s =
     (let stream = fr_stream_id f; flags = fr_flags f in
      if flags AND FLAG_RST \<noteq> 0
      then remove_stream stream (bt_get (y_streams s) stream \<noteq> None) s
      else
        sbind
          (if flags AND FLAG_SYN \<noteq> 0 then accept_syn stream (Inr DEFAULT_RECEIVE_WINDOW) s
           else if bt_get (y_streams s) stream = None
           then sbind (queue_reset_for_unknown stream s) (\<lambda>_ s1. (s1, Inr False))
           else (s, Inr True))
          (\<lambda>go_on s1. if \<not> go_on then (s1, Inr ()) else on_data_tracked f s1))"

text \<open>The rest of \<open>on_window_update\<close>, on a stream that was inserted or found.\<close>

definition on_window_update_tracked :: "frame \<Rightarrow> yamux_session \<Rightarrow> unit yamux_result" where
  "on_window_update_tracked f s =
     (let stream = fr_stream_id f in
      case bt_get (y_streams s) stream of
        None \<Rightarrow> (s, Inl Panic)
      | Some st \<Rightarrow>
          sbind (flush_buffered stream (put_stream stream (ack_seen f st) s)) (\<lambda>_ s1.
            case bt_get (y_streams s1) stream of
              None \<Rightarrow> (s1, Inr ())
            | Some st1 \<Rightarrow>
                let remote_closed = (fr_flags f AND FLAG_FIN \<noteq> 0 \<and> \<not> st_remote_write_closed st1);
                    st2 = (if remote_closed then st1\<lparr>st_remote_write_closed := True\<rparr> else st1);
                    s2 = put_stream stream st2 s1;
                    s3 = (if remote_closed then emit (RemoteWriteClosed stream) s2 else s2)
                in if st_remote_write_closed st2 \<and> st_local_write_closed st2
                   then remove_stream stream True s3 else (s3, Inr ())))"

definition on_window_update :: "frame \<Rightarrow> yamux_session \<Rightarrow> unit yamux_result" where
  "on_window_update f s =
     (let stream = fr_stream_id f; flags = fr_flags f in
      if flags AND FLAG_RST \<noteq> 0
      then remove_stream stream (bt_get (y_streams s) stream \<noteq> None) s
      else
        sbind
          (if flags AND FLAG_SYN \<noteq> 0
           then accept_syn stream
                  (ok_or (u32_checked_add DEFAULT_RECEIVE_WINDOW (fr_value f)) (WindowOverflow stream)) s
           else case bt_get (y_streams s) stream of
             None \<Rightarrow> sbind (queue_reset_for_unknown stream s) (\<lambda>_ s1. (s1, Inr False))
           | Some st \<Rightarrow>
               (case u32_checked_add (st_send_window st) (fr_value f) of
                  None \<Rightarrow> (s, Inl (Err (WindowOverflow stream)))
                | Some w \<Rightarrow> (put_stream stream (st\<lparr>st_send_window := w\<rparr>) s, Inr True)))
          (\<lambda>go_on s1. if \<not> go_on then (s1, Inr ()) else on_window_update_tracked f s1))"

definition on_ping :: "frame \<Rightarrow> yamux_session \<Rightarrow> unit yamux_result" where
  "on_ping f s =
     (if fr_flags f = FLAG_SYN then
        (case ping_frame FLAG_ACK (fr_value f) of
           Inl e \<Rightarrow> (s, Inl (Err e))
         | Inr reply \<Rightarrow> (queue_frame reply s, Inr ()))
      else (s, Inr ()))"

definition process_frame :: "frame \<Rightarrow> yamux_session \<Rightarrow> unit yamux_result" where
  "process_frame f s =
     (case fr_type f of
        DataFrame \<Rightarrow> on_data f s
      | WindowUpdateFrame \<Rightarrow> on_window_update f s
      | PingFrame \<Rightarrow> on_ping f s
      | GoAwayFrame \<Rightarrow>
          (close_all_streams (emit (GoAwayReceived (fr_value f)) (s\<lparr>y_remote_go_away := True\<rparr>)), Inr ()))"

text \<open>
  The handlers keep the decoder, which bounds the frames a call of \<open>handle_data\<close>
  can process.
\<close>

lemma emit_simps [simp]:
  "y_decoder (emit out s) = y_decoder s" "y_streams (emit out s) = y_streams s"
  "y_total_buffered_send (emit out s) = y_total_buffered_send s"
  "y_config (emit out s) = y_config s" "y_role (emit out s) = y_role s"
  "y_next_stream_id (emit out s) = y_next_stream_id s"
  "y_failed (emit out s) = y_failed s" "y_local_go_away (emit out s) = y_local_go_away s"
  "y_remote_go_away (emit out s) = y_remote_go_away s"
  "y_last_activity_ms (emit out s) = y_last_activity_ms s"
  "y_dirty (emit out s) = y_dirty s" "y_pending (emit out s) = y_pending s @ [out]"
  by (simp_all add: emit_def)

lemma queue_frame_simps [simp]:
  "y_decoder (queue_frame f s) = y_decoder s" "y_streams (queue_frame f s) = y_streams s"
  "y_total_buffered_send (queue_frame f s) = y_total_buffered_send s"
  "y_config (queue_frame f s) = y_config s" "y_role (queue_frame f s) = y_role s"
  "y_next_stream_id (queue_frame f s) = y_next_stream_id s"
  "y_failed (queue_frame f s) = y_failed s" "y_local_go_away (queue_frame f s) = y_local_go_away s"
  "y_remote_go_away (queue_frame f s) = y_remote_go_away s"
  "y_last_activity_ms (queue_frame f s) = y_last_activity_ms s"
  "y_dirty (queue_frame f s)" "y_pending (queue_frame f s) = y_pending s @ [Outbound (encode f)]"
  by (simp_all add: queue_frame_def)

lemma queue_frames_simps [simp]:
  "y_decoder (queue_frames fs s) = y_decoder s" "y_streams (queue_frames fs s) = y_streams s"
  "y_total_buffered_send (queue_frames fs s) = y_total_buffered_send s"
  "y_config (queue_frames fs s) = y_config s" "y_role (queue_frames fs s) = y_role s"
  "y_next_stream_id (queue_frames fs s) = y_next_stream_id s"
  "y_failed (queue_frames fs s) = y_failed s" "y_local_go_away (queue_frames fs s) = y_local_go_away s"
  "y_remote_go_away (queue_frames fs s) = y_remote_go_away s"
  "y_pending (queue_frames fs s) = y_pending s @ map (Outbound \<circ> encode) fs"
  by (induction fs arbitrary: s) simp_all

lemma emit_all_simps [simp]:
  "y_decoder (fold (\<lambda>i. emit (out i)) is s) = y_decoder s"
  "y_streams (fold (\<lambda>i. emit (out i)) is s) = y_streams s"
  "y_total_buffered_send (fold (\<lambda>i. emit (out i)) is s) = y_total_buffered_send s"
  "y_config (fold (\<lambda>i. emit (out i)) is s) = y_config s"
  "y_role (fold (\<lambda>i. emit (out i)) is s) = y_role s"
  "y_next_stream_id (fold (\<lambda>i. emit (out i)) is s) = y_next_stream_id s"
  "y_failed (fold (\<lambda>i. emit (out i)) is s) = y_failed s"
  "y_local_go_away (fold (\<lambda>i. emit (out i)) is s) = y_local_go_away s"
  "y_remote_go_away (fold (\<lambda>i. emit (out i)) is s) = y_remote_go_away s"
  "y_pending (fold (\<lambda>i. emit (out i)) is s) = y_pending s @ map out is"
  by (induction "is" arbitrary: s) simp_all

lemma put_stream_simps [simp]:
  "y_decoder (put_stream i st s) = y_decoder s" "y_streams (put_stream i st s) = bt_insert i st (y_streams s)"
  "y_total_buffered_send (put_stream i st s) = y_total_buffered_send s"
  "y_config (put_stream i st s) = y_config s" "y_role (put_stream i st s) = y_role s"
  "y_next_stream_id (put_stream i st s) = y_next_stream_id s"
  "y_failed (put_stream i st s) = y_failed s" "y_local_go_away (put_stream i st s) = y_local_go_away s"
  "y_remote_go_away (put_stream i st s) = y_remote_go_away s"
  "y_pending (put_stream i st s) = y_pending s"
  by (simp_all add: put_stream_def)

lemma sbind_split:
  "P (sbind m k) \<longleftrightarrow>
     (\<forall>s e. m = (s, Inl e) \<longrightarrow> P (s, Inl e)) \<and> (\<forall>s x. m = (s, Inr x) \<longrightarrow> P (k x s))"
  by (cases m; cases "snd m") auto

text \<open>The fields that no frame handler touches.\<close>

definition fixed_fields :: "yamux_session \<Rightarrow> frame_decoder \<times> bool \<times> bool \<times> yamux_config \<times> yamux_role \<times> u32 option" where
  "fixed_fields s = (y_decoder s, y_failed s, y_local_go_away s, y_config s, y_role s, y_next_stream_id s)"

lemma fixed_fields_simps [simp]:
  "fixed_fields (emit out s) = fixed_fields s" "fixed_fields (queue_frame f s) = fixed_fields s"
  "fixed_fields (queue_frames fs s) = fixed_fields s" "fixed_fields (put_stream i st s) = fixed_fields s"
  "fixed_fields (s\<lparr>y_streams := m\<rparr>) = fixed_fields s" "fixed_fields (s\<lparr>y_dirty := b\<rparr>) = fixed_fields s"
  "fixed_fields (s\<lparr>y_total_buffered_send := n\<rparr>) = fixed_fields s"
  "fixed_fields (s\<lparr>y_remote_go_away := b\<rparr>) = fixed_fields s"
  by (simp_all add: fixed_fields_def)

lemma fixed_remove_stream [simp]: "fixed_fields (fst (remove_stream i b s)) = fixed_fields s"
  by (simp add: remove_stream_def Let_def split: option.split)

lemma fixed_queue_reset [simp]: "fixed_fields (fst (queue_reset_for_unknown i s)) = fixed_fields s"
  by (simp add: queue_reset_for_unknown_def split: sum.split)

lemma fixed_flush_buffered [simp]: "fixed_fields (fst (flush_buffered i s)) = fixed_fields s"
  by (auto simp: flush_buffered_def Let_def split: option.split sum.split prod.split)

lemma fixed_sbind:
  "fixed_fields (fst m) = d \<Longrightarrow> (\<And>x s. fixed_fields s = d \<Longrightarrow> fixed_fields (fst (k x s)) = d) \<Longrightarrow>
   fixed_fields (fst (sbind m k)) = d"
  by (cases m; cases "snd m") auto

lemma fixed_accept_syn [simp]: "fixed_fields (fst (accept_syn i w s)) = fixed_fields s"
  by (auto simp: accept_syn_def split: sum.split intro!: fixed_sbind)

lemma fixed_on_data_tracked [simp]: "fixed_fields (fst (on_data_tracked f s)) = fixed_fields s"
  by (auto simp: on_data_tracked_def Let_def split: option.split sum.split prod.split)

lemma fixed_on_data [simp]: "fixed_fields (fst (on_data f s)) = fixed_fields s"
  by (auto simp: on_data_def Let_def intro!: fixed_sbind)

lemma fixed_on_window_update_tracked [simp]: "fixed_fields (fst (on_window_update_tracked f s)) = fixed_fields s"
  by (auto simp: on_window_update_tracked_def Let_def intro!: fixed_sbind split: option.split)

lemma fixed_on_window_update [simp]: "fixed_fields (fst (on_window_update f s)) = fixed_fields s"
  by (auto simp: on_window_update_def Let_def intro!: fixed_sbind split: option.split)

lemma fixed_emit_all [simp]: "fixed_fields (fold (\<lambda>i. emit (out i)) is s) = fixed_fields s"
  by (simp add: fixed_fields_def)

lemma fixed_process_frame [simp]: "fixed_fields (fst (process_frame f s)) = fixed_fields s"
  by (auto simp: process_frame_def on_ping_def close_all_streams_def split: frame_type.split sum.split)

lemma process_frame_decreases:
  assumes "next_frame (y_decoder s) = (d, Inr (Some f))"
    and "process_frame f (s\<lparr>y_decoder := d\<rparr>) = (s1, y)"
  shows "length (unread (y_decoder s1)) < length (unread (y_decoder s))"
  using fixed_process_frame [of f "s\<lparr>y_decoder := d\<rparr>"] next_frame_shrinks [OF assms(1)] assms(2)
  by (simp add: fixed_fields_def)

function handle_loop :: "yamux_session \<Rightarrow> unit yamux_result" where
  "handle_loop s =
     (case next_frame (y_decoder s) of
        (d, Inl (Err e)) \<Rightarrow> fail_protocol e (s\<lparr>y_decoder := d\<rparr>)
      | (d, Inl flt) \<Rightarrow> (s\<lparr>y_decoder := d\<rparr>, Inl flt)
      | (d, Inr None) \<Rightarrow> (s\<lparr>y_decoder := d\<rparr>, Inr ())
      | (d, Inr (Some f)) \<Rightarrow>
          (case process_frame f (s\<lparr>y_decoder := d\<rparr>) of
             (s1, Inl (Err e)) \<Rightarrow> fail_protocol e s1
           | (s1, Inl flt) \<Rightarrow> (s1, Inl flt)
           | (s1, Inr _) \<Rightarrow>
               let s2 = s1\<lparr>y_dirty := True\<rparr> in
               if y_remote_go_away s2
               then (s2\<lparr>y_decoder := decoder_clear (y_decoder s2)\<rparr>, Inr ())
               else handle_loop s2))"
  by pat_completeness auto
termination
  by (relation "measure (\<lambda>s. length (unread (y_decoder s)))")
     (auto dest: sym intro: process_frame_decreases)

declare handle_loop.simps [simp del]

definition handle_data :: "bytes \<Rightarrow> yamux_session \<Rightarrow> unit yamux_result" where
  "handle_data bytes s =
     (if y_failed s then (s, Inl (Err Failed))
      else if y_local_go_away s \<or> y_remote_go_away s then (s, Inl (Err SessionClosed))
      else handle_loop (s\<lparr>y_decoder := decoder_push bytes (y_decoder s)\<rparr>))"

section \<open>Output\<close>

definition materialize_deferred_control :: "yamux_session \<Rightarrow> unit yamux_result" where
  "materialize_deferred_control s =
     (case find (\<lambda>(i, st). has_deferred_control st) (y_streams s) of
        None \<Rightarrow> (s, Inr ())
      | Some (stream, st) \<Rightarrow>
          let (st1, flags) = take_open_flag st;
              credit = ucast (min (st_pending_credit st1) (ucast (- 1 :: u32))) :: u32;
              st2 = st1\<lparr>st_pending_credit := st_pending_credit st1 - ucast credit\<rparr>
          in case u32_checked_add (st_receive_window st2) credit of
               None \<Rightarrow> (put_stream stream st2 s, Inl Panic)
             | Some w \<Rightarrow>
                 let s1 = put_stream stream (st2\<lparr>st_receive_window := w\<rparr>) s in
                 (case window_update_frame stream flags credit of
                    Inl e \<Rightarrow> (s1, Inl Panic)
                  | Inr f \<Rightarrow> (queue_frame f s1, Inr ())))"

definition pop_pending :: "yamux_session \<Rightarrow> yamux_output option yamux_result" where
  "pop_pending s =
     (case y_pending s of
        [] \<Rightarrow> (s, Inr None)
      | out # rest \<Rightarrow> (s\<lparr>y_pending := rest\<rparr>, Inr (Some out)))"

definition poll_output :: "yamux_session \<Rightarrow> yamux_output option yamux_result" where
  "poll_output s =
     (case y_pending s of
        out # rest \<Rightarrow> (s\<lparr>y_pending := rest\<rparr>, Inr (Some out))
      | [] \<Rightarrow>
          if \<not> y_failed s \<and> \<not> y_local_go_away s \<and> \<not> y_remote_go_away s
          then sbind (materialize_deferred_control s) (\<lambda>_ s1. pop_pending s1)
          else pop_pending s)"

definition is_idle :: "yamux_session \<Rightarrow> bool" where
  "is_idle s \<longleftrightarrow>
     y_pending s = [] \<and> list_all (\<lambda>(i, st). \<not> has_deferred_control st) (y_streams s)"

end
