(* ===== verification/Yamux_Invariant.thy ===== *)
theory Yamux_Invariant
  imports Yamux_Session
begin

text \<open>
  The invariant of a Yamux session and its preservation by every method. The invariant
  fixes the accounting of the send queues and of the receive windows, the partition of
  the stream identifiers between the two sides, the capacity limits, and that no bytes
  are queued while the peer has granted credit. From it follows that no method of a
  session panics or loops forever.
\<close>

section \<open>The invariant\<close>

text \<open>
  Accounting of one stream: the queue counter is the length of the queue, and credit
  granted, delivered and still to be granted add up to the configured window.
\<close>

definition stream_acct :: "yamux_config \<Rightarrow> stream_state \<Rightarrow> bool" where
  "stream_acct c st \<longleftrightarrow>
     st_buffered_send st = length (concat (st_send_buffer st)) \<and>
     [] \<notin> set (st_send_buffer st) \<and>
     st_buffered_send st \<le> cfg_max_buffered_send c \<and>
     unat (st_receive_window st) + unat (st_delivered_since_update st) + unat (st_pending_credit st) =
       unat (cfg_receive_window c) \<and>
     unat (st_delivered_since_update st) \<le> unat (cfg_receive_window c) div 2 \<and>
     st_pending_open st \<in> {None, Some (if st_locally_opened st then OpenSyn else OpenAck)}"

definition stream_inv :: "yamux_config \<Rightarrow> stream_state \<Rightarrow> bool" where
  "stream_inv c st \<longleftrightarrow>
     stream_acct c st \<and>
     (st_send_buffer st \<noteq> [] \<longrightarrow> st_send_window st = 0) \<and>
     (st_close_pending st \<longrightarrow> st_send_buffer st \<noteq> []) \<and>
     (st_local_write_closed st \<longrightarrow> st_send_buffer st = []) \<and>
     \<not> (st_local_write_closed st \<and> st_remote_write_closed st)"

text \<open>Clients own the odd identifiers and servers the even ones.\<close>

definition local_id :: "yamux_role \<Rightarrow> u32 \<Rightarrow> bool" where
  "local_id role i \<longleftrightarrow> (case role of Client \<Rightarrow> odd i | Server \<Rightarrow> even i)"

definition below_next :: "u32 option \<Rightarrow> u32 \<Rightarrow> bool" where
  "below_next next i \<longleftrightarrow> (case next of None \<Rightarrow> True | Some n \<Rightarrow> i < n)"

definition entry_inv :: "yamux_role \<Rightarrow> yamux_config \<Rightarrow> u32 option \<Rightarrow> u32 \<Rightarrow> stream_state \<Rightarrow> bool" where
  "entry_inv role c next i st \<longleftrightarrow>
     stream_inv c st \<and> i \<noteq> 0 \<and> (st_locally_opened st \<longleftrightarrow> local_id role i) \<and>
     (st_locally_opened st \<longrightarrow> below_next next i)"

definition config_ok :: "yamux_config \<Rightarrow> bool" where
  "config_ok c \<longleftrightarrow> DEFAULT_RECEIVE_WINDOW \<le> cfg_receive_window c \<and> cfg_max_frame_len c \<noteq> 0"

definition streams_inv :: "yamux_role \<Rightarrow> yamux_config \<Rightarrow> u32 option \<Rightarrow> (u32, stream_state) btree \<Rightarrow> nat \<Rightarrow> bool" where
  "streams_inv role c next m total_send \<longleftrightarrow>
     bt_wf m \<and> (\<forall>i st. bt_get m i = Some st \<longrightarrow> entry_inv role c next i st) \<and>
     total_send = bt_sum st_buffered_send m \<and> total_send \<le> cfg_max_total_buffered_send c \<and>
     length m \<le> cfg_max_streams c \<and>
     (\<forall>n. next = Some n \<longrightarrow> n \<noteq> 0 \<and> local_id role n)"

definition yamux_inv :: "yamux_session \<Rightarrow> bool" where
  "yamux_inv s \<longleftrightarrow>
     config_ok (y_config s) \<and>
     streams_inv (y_role s) (y_config s) (y_next_stream_id s) (y_streams s) (y_total_buffered_send s) \<and>
     (y_failed s \<or> y_local_go_away s \<or> y_remote_go_away s \<longrightarrow> y_streams s = []) \<and>
     decoder_inv (y_decoder s) \<and> fd_max_frame_len (y_decoder s) = cfg_max_frame_len (y_config s)"

text \<open>A result that keeps the invariant and is neither a panic nor a divergence.\<close>

definition safe :: "'a yamux_result \<Rightarrow> bool" where
  "safe r \<longleftrightarrow> yamux_inv (fst r) \<and> snd r \<noteq> Inl Panic \<and> snd r \<noteq> Inl Diverge"

lemma safe_simps [simp]:
  "safe (s, Inr x) \<longleftrightarrow> yamux_inv s"
  "safe (s, Inl (Err e)) \<longleftrightarrow> yamux_inv s"
  "\<not> safe (s, Inl Panic)" "\<not> safe (s, Inl Diverge)"
  by (auto simp: safe_def)

lemma safe_sbind: "safe m \<Longrightarrow> (\<And>x s. m = (s, Inr x) \<Longrightarrow> safe (k x s)) \<Longrightarrow> safe (sbind m k)"
  by (cases m; cases "snd m") (auto simp: safe_def)

section \<open>Steps on the map of streams\<close>

lemma streams_inv_entry:
  "streams_inv role c next m t \<Longrightarrow> bt_get m i = Some st \<Longrightarrow> entry_inv role c next i st"
  by (simp add: streams_inv_def)

lemma streams_inv_wf: "streams_inv role c next m t \<Longrightarrow> bt_wf m"
  by (simp add: streams_inv_def)

lemma streams_inv_nil:
  "(\<forall>n. next = Some n \<longrightarrow> n \<noteq> 0 \<and> local_id role n) \<Longrightarrow> streams_inv role c next [] 0"
  by (simp add: streams_inv_def)

lemma streams_inv_update:
  assumes inv: "streams_inv role c next m t" and get: "bt_get m i = Some st"
    and st': "stream_inv c st'" "st_locally_opened st' = st_locally_opened st"
    and t': "t' + st_buffered_send st = t + st_buffered_send st'" "t' \<le> cfg_max_total_buffered_send c"
  shows "streams_inv role c next (bt_insert i st' m) t'"
proof -
  have "t' = bt_sum st_buffered_send (bt_insert i st' m)"
    using bt_sum_insert_upd [of m i st st_buffered_send st'] inv get t'(1) by (simp add: streams_inv_def)
  moreover have "entry_inv role c next i st'"
    using streams_inv_entry [OF inv get] st' by (simp add: entry_inv_def)
  ultimately show ?thesis
    using inv get t'(2) by (simp add: streams_inv_def length_bt_insert)
qed

lemma streams_inv_same_queue:
  assumes "streams_inv role c next m t" and "bt_get m i = Some st" and "stream_inv c st'"
    and "st_locally_opened st' = st_locally_opened st" and "st_buffered_send st' = st_buffered_send st"
  shows "streams_inv role c next (bt_insert i st' m) t"
  using assms by (intro streams_inv_update [where t' = t]) (auto simp: streams_inv_def)

lemma streams_inv_remove:
  assumes inv: "streams_inv role c next m t" and get: "bt_get m i = Some st"
  shows "st_buffered_send st \<le> t" and "streams_inv role c next (bt_remove i m) (t - st_buffered_send st)"
proof -
  have sum: "bt_sum st_buffered_send (bt_remove i m) + st_buffered_send st = t"
    using bt_sum_remove [of m i st st_buffered_send] inv get by (simp add: streams_inv_def)
  then show "st_buffered_send st \<le> t" by simp
  from sum have "t - st_buffered_send st = bt_sum st_buffered_send (bt_remove i m)" by simp
  with inv get show "streams_inv role c next (bt_remove i m) (t - st_buffered_send st)"
    by (auto simp: streams_inv_def length_bt_remove split: if_splits)
qed

lemma streams_inv_new:
  assumes "streams_inv role c next m t" and "bt_get m i = None" and "length m < cfg_max_streams c"
    and "entry_inv role c next' i st" and "st_buffered_send st = 0"
    and "\<And>j. below_next next j \<Longrightarrow> below_next next' j"
    and "\<forall>n. next' = Some n \<longrightarrow> n \<noteq> 0 \<and> local_id role n"
  shows "streams_inv role c next' (bt_insert i st m) t"
  using assms by (auto simp: streams_inv_def length_bt_insert bt_sum_insert_new entry_inv_def)

section \<open>Opening flags\<close>

definition opened :: "stream_state \<Rightarrow> stream_state" where
  "opened st = st\<lparr>st_pending_open := None,
     st_acknowledged := st_acknowledged st \<or> st_pending_open st = Some OpenAck\<rparr>"

definition open_bits :: "stream_state \<Rightarrow> u16" where
  "open_bits st = (case st_pending_open st of None \<Rightarrow> 0 | Some OpenSyn \<Rightarrow> FLAG_SYN | Some OpenAck \<Rightarrow> FLAG_ACK)"

lemma take_open_flag_eq [simp]: "take_open_flag st = (opened st, open_bits st)"
  by (cases st) (auto simp: take_open_flag_def opened_def open_bits_def Let_def
      split: option.split open_flag.split)

lemma opened_simps [simp]:
  "st_locally_opened (opened st) = st_locally_opened st" "st_pending_open (opened st) = None"
  "st_send_window (opened st) = st_send_window st" "st_receive_window (opened st) = st_receive_window st"
  "st_delivered_since_update (opened st) = st_delivered_since_update st"
  "st_pending_credit (opened st) = st_pending_credit st" "st_send_buffer (opened st) = st_send_buffer st"
  "st_buffered_send (opened st) = st_buffered_send st" "st_close_pending (opened st) = st_close_pending st"
  "st_local_write_closed (opened st) = st_local_write_closed st"
  "st_remote_write_closed (opened st) = st_remote_write_closed st"
  by (simp_all add: opened_def)

lemma open_bits_allowed [simp]:
  "open_bits st AND NOT STREAM_FLAGS = 0" "(open_bits st OR FLAG_FIN) AND NOT STREAM_FLAGS = 0"
  "FLAG_RST AND NOT STREAM_FLAGS = 0"
  by (auto simp: open_bits_def flag_defs split: option.split open_flag.split)

lemma open_bits_update [simp]:
  "open_bits (st\<lparr>st_send_window := w\<rparr>) = open_bits st" "open_bits (st\<lparr>st_send_buffer := b\<rparr>) = open_bits st"
  "open_bits (st\<lparr>st_buffered_send := n\<rparr>) = open_bits st"
  by (simp_all add: open_bits_def)

lemma stream_acct_opened: "stream_acct c st \<Longrightarrow> stream_acct c (opened st)"
  by (simp add: stream_acct_def)

lemma stream_inv_opened: "stream_inv c st \<Longrightarrow> stream_inv c (opened st)"
  by (simp add: stream_inv_def stream_acct_opened)

section \<open>Framing loops\<close>

definition raw_data :: "u32 \<Rightarrow> u16 \<Rightarrow> bytes \<Rightarrow> frame" where
  "raw_data i flags p =
     \<lparr>fr_type = DataFrame, fr_flags = flags, fr_stream_id = i,
      fr_value = word_of_nat (length p), fr_payload = p\<rparr>"

lemma raw_data_simps [simp]:
  "fr_type (raw_data i flags p) = DataFrame" "fr_stream_id (raw_data i flags p) = i"
  "fr_payload (raw_data i flags p) = p" "fr_flags (raw_data i flags p) = flags"
  by (simp_all add: raw_data_def)

lemma data_frame_ok [simp]:
  "i \<noteq> 0 \<Longrightarrow> flags AND NOT STREAM_FLAGS = 0 \<Longrightarrow> length p < 4294967296 \<Longrightarrow>
   data_frame i flags p = Inr (raw_data i flags p)"
  by (simp add: data_frame_Inr_iff raw_data_def)

text \<open>A data frame of the given stream with a payload that is not empty and fits.\<close>

definition carries :: "u32 \<Rightarrow> nat \<Rightarrow> frame \<Rightarrow> bool" where
  "carries i max_len f \<longleftrightarrow>
     frame_wf f \<and> fr_type f = DataFrame \<and> fr_stream_id f = i \<and>
     fr_flags f AND FLAG_FIN = 0 \<and> fr_flags f AND FLAG_RST = 0 \<and>
     fr_payload f \<noteq> [] \<and> length (fr_payload f) \<le> max_len"

lemma carries_raw_data:
  assumes "i \<noteq> 0" and "flags = 0 \<or> flags = open_bits st" and "p \<noteq> []" and "length p \<le> max_len"
    and "length p < 4294967296"
  shows "carries i max_len (raw_data i flags p)"
proof -
  have "flags AND NOT STREAM_FLAGS = 0" using assms(2) by auto
  then have "data_frame i flags p = Inr (raw_data i flags p)" using assms by simp
  then have "frame_wf (raw_data i flags p)" by (rule constructor_wf)
  with assms show ?thesis
    by (auto simp: carries_def open_bits_def flag_defs split: option.splits open_flag.splits)
qed

lemma send_loop_spec:
  assumes "max_len \<noteq> 0" and "i \<noteq> 0" and "length immediate < 4294967296"
  shows "\<exists>fs. send_loop max_len i first immediate st frames =
            Some (if first \<and> immediate \<noteq> [] then opened st else st, Inr (frames @ fs)) \<and>
          concat (map fr_payload fs) = immediate \<and> list_all (carries i max_len) fs"
  using assms(3)
proof (induction "length immediate" arbitrary: immediate first st frames rule: less_induct)
  case less
  show ?case
  proof (cases "immediate = []")
    case True
    then show ?thesis by (subst send_loop.simps) simp
  next
    case False
    define rest where "rest = drop max_len immediate"
    define chunk where "chunk = take max_len immediate"
    define flags where "flags = (if first then open_bits st else 0)"
    define st' where "st' = (if first then opened st else st)"
    have split: "immediate = chunk @ rest" by (simp add: chunk_def rest_def)
    have chunk: "carries i max_len (raw_data i flags chunk)"
      using assms False less.prems by (intro carries_raw_data [of _ _ st]) (auto simp: chunk_def flags_def)
    have rest: "length rest < length immediate" using False assms(1) by (simp add: rest_def)
    then have "length rest < 4294967296" using less.prems by simp
    from less.hyps [OF rest this, of False st' "frames @ [raw_data i flags chunk]"] obtain fs where
      fs: "send_loop max_len i False rest st' (frames @ [raw_data i flags chunk]) =
             Some (st', Inr (frames @ raw_data i flags chunk # fs))"
        "concat (map fr_payload fs) = rest" "list_all (carries i max_len) fs"
      by auto
    have "flags AND NOT STREAM_FLAGS = 0" by (simp add: flags_def)
    moreover have "length chunk < 4294967296" using less.prems by (simp add: chunk_def)
    ultimately have "send_loop max_len i first immediate st frames =
        send_loop max_len i False rest st' (frames @ [raw_data i flags chunk])"
      using False assms
      by (subst send_loop.simps) (auto simp: rest_def chunk_def flags_def st'_def Let_def)
    with fs split chunk False show ?thesis
      by (intro exI [of _ "raw_data i flags chunk # fs"]) (auto simp: st'_def)
  qed
qed

text \<open>The fields that sending leaves alone; the opening flag may have been used up.\<close>

definition same_control :: "stream_state \<Rightarrow> stream_state \<Rightarrow> bool" where
  "same_control st st' \<longleftrightarrow>
     st_locally_opened st' = st_locally_opened st \<and> st_receive_window st' = st_receive_window st \<and>
     st_delivered_since_update st' = st_delivered_since_update st \<and>
     st_pending_credit st' = st_pending_credit st \<and> st_close_pending st' = st_close_pending st \<and>
     st_local_write_closed st' = st_local_write_closed st \<and>
     st_remote_write_closed st' = st_remote_write_closed st \<and>
     st_pending_open st' \<in> {None, st_pending_open st}"

text \<open>
  A flush takes as many bytes off the queue as the window allows, in order. What is
  left in the queue, if anything, has no window.
\<close>

definition flushed :: "u32 \<Rightarrow> nat \<Rightarrow> stream_state \<Rightarrow> nat \<Rightarrow> frame list \<Rightarrow> stream_state \<Rightarrow> bool" where
  "flushed i max_len st n fs st' \<longleftrightarrow>
     list_all (carries i max_len) fs \<and>
     concat (map fr_payload fs) @ concat (st_send_buffer st') = concat (st_send_buffer st) \<and>
     [] \<notin> set (st_send_buffer st') \<and> (st_send_buffer st' \<noteq> [] \<longrightarrow> st_send_window st' = 0) \<and>
     st_buffered_send st' = length (concat (st_send_buffer st')) \<and>
     n = min (st_buffered_send st) (unat (st_send_window st)) \<and>
     n = length (concat (map fr_payload fs)) \<and>
     unat (st_send_window st') = unat (st_send_window st) - n \<and>
     same_control st st'"

lemma flushed_done:
  assumes "st_send_window st = 0 \<or> st_send_buffer st = []"
    and "st_buffered_send st = length (concat (st_send_buffer st))" and "[] \<notin> set (st_send_buffer st)"
  shows "flushed i max_len st 0 [] st"
  using assms by (auto simp: flushed_def same_control_def)

lemma flushed_step:
  assumes post: "flushed i max_len st' k fs st''" and f: "carries i max_len f"
    and buf: "concat (st_send_buffer st) = fr_payload f @ concat (st_send_buffer st')"
    and n: "n \<le> st_buffered_send st" "n \<le> unat (st_send_window st)" "n = length (fr_payload f)"
    and st': "st_buffered_send st' = st_buffered_send st - n"
      "unat (st_send_window st') = unat (st_send_window st) - n" "same_control st st'"
  shows "flushed i max_len st (n + k) (f # fs) st''"
proof -
  have "same_control st st''"
    using post st'(3) by (auto simp: flushed_def same_control_def)
  moreover have "n + k = min (st_buffered_send st) (unat (st_send_window st))"
    using post n st'(1,2) by (auto simp: flushed_def)
  moreover have "n + k = length (concat (map fr_payload (f # fs)))"
    using post n(3) by (simp add: flushed_def)
  moreover have "unat (st_send_window st'') = unat (st_send_window st) - (n + k)"
    using post st'(2) by (simp add: flushed_def)
  ultimately show ?thesis
    using post f buf unfolding flushed_def by auto
qed

lemma flush_loop_spec:
  assumes "max_len \<noteq> 0" and "i \<noteq> 0"
    and "st_buffered_send st = length (concat (st_send_buffer st))" and "[] \<notin> set (st_send_buffer st)"
  shows "\<exists>st' n fs. flush_loop max_len i st drained frames = Some (st', drained + n, Inr (frames @ fs)) \<and>
           flushed i max_len st n fs st'"
  using assms(3,4)
proof (induction "st_buffered_send st" arbitrary: st drained frames rule: less_induct)
  case less
  show ?case
  proof (cases "st_send_window st = 0 \<or> st_send_buffer st = []")
    case True
    then have "flush_loop max_len i st drained frames = Some (st, drained + 0, Inr (frames @ []))"
      by (subst flush_loop.simps) auto
    with flushed_done [OF True less.prems] show ?thesis by blast
  next
    case False
    then obtain chunk buffer where buf: "st_send_buffer st = chunk # buffer"
      by (cases "st_send_buffer st") auto
    define n where "n = min (min (length chunk) (unat (st_send_window st))) max_len"
    have chunk: "chunk \<noteq> []" using less.prems buf by auto
    have "0 < unat (st_send_window st)" using False by (simp add: unat_gt_0)
    then have n: "0 < n" "n \<le> length chunk" "n \<le> unat (st_send_window st)" "n \<le> max_len"
      using chunk assms(1) by (auto simp: n_def)
    have n32: "n < 4294967296" using n(3) unat_u32_less [of "st_send_window st"] by linarith
    have buffered: "n \<le> st_buffered_send st" using less.prems(1) buf n by simp
    define f where "f = raw_data i (open_bits st) (take n chunk)"
    define st3 where "st3 = opened (st\<lparr>st_send_buffer := buffer,
      st_send_window := st_send_window st - word_of_nat n, st_buffered_send := st_buffered_send st - n\<rparr>)"
    define st' where "st' = (if drop n chunk = [] then st3
      else st3\<lparr>st_send_buffer := drop n chunk # st_send_buffer st3\<rparr>)"
    have f: "carries i max_len f"
      unfolding f_def using assms(2) n chunk n32 by (intro carries_raw_data [of _ _ st]) auto
    have step: "flush_loop max_len i st drained frames =
        flush_loop max_len i st' (drained + n) (frames @ [f])"
      using False assms(2) n n32 buffered buf
      by (subst flush_loop.simps)
         (simp add: Let_def n_def [symmetric] f_def st'_def st3_def)
    have bytes: "concat (st_send_buffer st) = fr_payload f @ concat (st_send_buffer st')"
      by (simp add: buf st'_def st3_def f_def)
    have "st_buffered_send st' < st_buffered_send st"
      using n buffered by (simp add: st'_def st3_def)
    moreover have "st_buffered_send st' = length (concat (st_send_buffer st'))"
      using less.prems(1) buf n by (auto simp: st'_def st3_def)
    moreover have "[] \<notin> set (st_send_buffer st')"
      using less.prems(2) buf by (auto simp: st'_def st3_def)
    ultimately obtain st'' k fs where
      IH: "flush_loop max_len i st' (drained + n) (frames @ [f]) =
             Some (st'', drained + n + k, Inr (frames @ [f] @ fs))"
          "flushed i max_len st' k fs st''"
      using less.hyps [of st' "drained + n" "frames @ [f]"] by auto
    have "flushed i max_len st (n + k) (f # fs) st''"
    proof (rule flushed_step [OF IH(2) f bytes buffered n(3)])
      show "n = length (fr_payload f)" using n(2) by (simp add: f_def)
      show "unat (st_send_window st') = unat (st_send_window st) - n"
        using n(3) n32 by (simp add: st'_def st3_def unat_sub_if' unat_word_of_nat)
      show "same_control st st'" by (simp add: st'_def st3_def same_control_def)
    qed (simp add: st'_def st3_def)
    with IH(1) step show ?thesis by (metis add.assoc append_Cons append_Nil)
  qed
qed

section \<open>Steps on the session\<close>

lemma yamux_inv_outputs [simp]:
  "yamux_inv (emit out s) = yamux_inv s" "yamux_inv (queue_frame f s) = yamux_inv s"
  "yamux_inv (queue_frames fs s) = yamux_inv s"
  "yamux_inv (s\<lparr>y_pending := ps\<rparr>) = yamux_inv s" "yamux_inv (s\<lparr>y_dirty := b\<rparr>) = yamux_inv s"
  "yamux_inv (s\<lparr>y_last_activity_ms := l\<rparr>) = yamux_inv s"
  "yamux_inv (s\<lparr>y_next_ping_nonce := n\<rparr>) = yamux_inv s"
  by (simp_all add: yamux_inv_def)

lemma yamux_inv_streams:
  "yamux_inv s \<Longrightarrow>
   streams_inv (y_role s) (y_config s) (y_next_stream_id s) (y_streams s) (y_total_buffered_send s)"
  by (simp add: yamux_inv_def)

lemma yamux_inv_entry:
  "yamux_inv s \<Longrightarrow> bt_get (y_streams s) i = Some st \<Longrightarrow>
   entry_inv (y_role s) (y_config s) (y_next_stream_id s) i st"
  using streams_inv_entry yamux_inv_streams by blast

lemma yamux_inv_stream:
  assumes "yamux_inv s" and "bt_get (y_streams s) i = Some st"
  shows "stream_inv (y_config s) st" and "i \<noteq> 0"
  using yamux_inv_entry [OF assms] by (simp_all add: entry_inv_def)

lemma yamux_inv_wf: "yamux_inv s \<Longrightarrow> bt_wf (y_streams s)"
  using streams_inv_wf yamux_inv_streams by blast

lemma yamux_inv_config:
  "yamux_inv s \<Longrightarrow> unat (cfg_max_frame_len (y_config s)) \<noteq> 0"
  by (simp add: yamux_inv_def config_ok_def unat_eq_zero)

text \<open>Replacing the state of a tracked stream, and the total with it.\<close>

lemma yamux_inv_update:
  assumes inv: "yamux_inv s" and get: "bt_get (y_streams s) i = Some st"
    and st': "stream_inv (y_config s) st'" "st_locally_opened st' = st_locally_opened st"
    and t: "t + st_buffered_send st = y_total_buffered_send s + st_buffered_send st'"
      "t \<le> cfg_max_total_buffered_send (y_config s)"
  shows "yamux_inv ((put_stream i st' s)\<lparr>y_total_buffered_send := t\<rparr>)"
  using inv get streams_inv_update [OF yamux_inv_streams [OF inv] get st' t]
  by (auto simp: yamux_inv_def)

lemma yamux_inv_put:
  assumes inv: "yamux_inv s" and get: "bt_get (y_streams s) i = Some st"
    and st': "stream_inv (y_config s) st'" "st_locally_opened st' = st_locally_opened st"
      "st_buffered_send st' = st_buffered_send st"
  shows "yamux_inv (put_stream i st' s)"
  using inv get streams_inv_same_queue [OF yamux_inv_streams [OF inv] get st']
  by (auto simp: yamux_inv_def)

lemma safe_remove:
  assumes "yamux_inv s"
  shows "safe (remove_stream i notify s)"
proof (cases "bt_get (y_streams s) i")
  case None
  with assms show ?thesis by (simp add: remove_stream_def)
next
  case (Some st)
  have "yamux_inv (s\<lparr>y_streams := bt_remove i (y_streams s),
      y_total_buffered_send := y_total_buffered_send s - st_buffered_send st\<rparr>)"
    using assms Some streams_inv_remove(2) [OF yamux_inv_streams [OF assms] Some]
    by (auto simp: yamux_inv_def)
  then show ?thesis
    using Some streams_inv_remove(1) [OF yamux_inv_streams [OF assms] Some]
    by (simp add: remove_stream_def Let_def not_less)
qed

text \<open>
  A stream that has just been finished is removed before the invariant is needed again,
  so the state written back may violate it.
\<close>

lemma safe_remove_finished:
  assumes inv: "yamux_inv s" and get: "bt_get (y_streams s) i = Some st"
    and s': "y_streams s' = bt_insert i st' (y_streams s)"
      "y_total_buffered_send s' + st_buffered_send st = y_total_buffered_send s + st_buffered_send st'"
      "y_config s' = y_config s" "y_role s' = y_role s" "y_next_stream_id s' = y_next_stream_id s"
      "y_decoder s' = y_decoder s" "y_failed s' = y_failed s" "y_local_go_away s' = y_local_go_away s"
      "y_remote_go_away s' = y_remote_go_away s"
  shows "safe (remove_stream i notify s')"
proof -
  have le: "st_buffered_send st \<le> y_total_buffered_send s"
    and rem: "streams_inv (y_role s) (y_config s) (y_next_stream_id s) (bt_remove i (y_streams s))
      (y_total_buffered_send s - st_buffered_send st)"
    using streams_inv_remove [OF yamux_inv_streams [OF inv] get] by simp_all
  have eq: "y_total_buffered_send s' - st_buffered_send st' = y_total_buffered_send s - st_buffered_send st"
    "\<not> y_total_buffered_send s' < st_buffered_send st'"
    using le s'(2) by simp_all
  have "yamux_inv (s'\<lparr>y_streams := bt_remove i (y_streams s'),
      y_total_buffered_send := y_total_buffered_send s' - st_buffered_send st'\<rparr>)"
    using inv get rem s'(1,3-) eq(1) yamux_inv_wf [OF inv] by (auto simp: yamux_inv_def)
  then show ?thesis
    using s'(1) eq(2) by (simp add: remove_stream_def Let_def)
qed

lemma safe_queue_reset: "yamux_inv s \<Longrightarrow> i \<noteq> 0 \<Longrightarrow> safe (queue_reset_for_unknown i s)"
  by (simp add: queue_reset_for_unknown_def)

lemma yamux_inv_next_id:
  "yamux_inv s \<Longrightarrow> \<forall>n. y_next_stream_id s = Some n \<longrightarrow> n \<noteq> 0 \<and> local_id (y_role s) n"
  using yamux_inv_streams by (auto simp: streams_inv_def)

lemma yamux_inv_cleared:
  assumes "yamux_inv s" and "y_streams s' = []" and "y_total_buffered_send s' = 0"
    and "y_config s' = y_config s" and "y_role s' = y_role s" and "y_next_stream_id s' = y_next_stream_id s"
    and "y_decoder s' = y_decoder s \<or> y_decoder s' = decoder_clear (y_decoder s)"
  shows "yamux_inv s'"
  using assms yamux_inv_next_id [OF assms(1)]
  by (auto simp: yamux_inv_def streams_inv_nil)

lemma safe_fail_protocol: "yamux_inv s \<Longrightarrow> safe (fail_protocol e s)"
  by (auto simp: fail_protocol_def Let_def intro: yamux_inv_cleared)

lemma yamux_inv_close_all: "yamux_inv s \<Longrightarrow> yamux_inv (close_all_streams s)"
  by (auto simp: close_all_streams_def intro: yamux_inv_cleared)

section \<open>Every method keeps the invariant\<close>

lemma ensure_active_iff:
  "ensure_active s = Inr () \<longleftrightarrow> \<not> y_failed s \<and> \<not> y_local_go_away s \<and> \<not> y_remote_go_away s"
  by (simp add: ensure_active_def)

lemma safe_poll: "yamux_inv s \<Longrightarrow> safe (poll now s)"
  by (auto simp: poll_def Let_def ping_frame_def validate_def allowed_flags_def flag_defs
      split: sum.split option.split)

lemma initial_credit_ok:
  assumes "config_ok c"
  obtains credit where "initial_credit c = Inr credit"
    and "unat DEFAULT_RECEIVE_WINDOW + unat credit = unat (cfg_receive_window c)"
proof
  have le: "DEFAULT_RECEIVE_WINDOW \<le> cfg_receive_window c" using assms by (simp add: config_ok_def)
  then show "initial_credit c = Inr (ucast (cfg_receive_window c - DEFAULT_RECEIVE_WINDOW))"
    by (simp add: initial_credit_def)
  have "unat (cfg_receive_window c - DEFAULT_RECEIVE_WINDOW) < 18446744073709551616"
    using unat_u32_less [of "cfg_receive_window c - DEFAULT_RECEIVE_WINDOW"] by linarith
  with le show "unat DEFAULT_RECEIVE_WINDOW + unat (ucast (cfg_receive_window c - DEFAULT_RECEIVE_WINDOW) :: u64)
      = unat (cfg_receive_window c)"
    by (simp add: unat_ucast_mod unat_sub word_le_nat_alt)
qed

lemma stream_new_inv:
  assumes "config_ok c"
  shows "\<exists>st. stream_outbound c = Inr st \<and> stream_inv c st \<and> st_locally_opened st \<and> st_buffered_send st = 0"
    and "\<exists>st. stream_inbound c w = Inr st \<and> stream_inv c st \<and> \<not> st_locally_opened st \<and> st_buffered_send st = 0"
proof -
  obtain credit where "initial_credit c = Inr credit"
    "unat DEFAULT_RECEIVE_WINDOW + unat credit = unat (cfg_receive_window c)"
    by (rule initial_credit_ok [OF assms])
  then show
    "\<exists>st. stream_outbound c = Inr st \<and> stream_inv c st \<and> st_locally_opened st \<and> st_buffered_send st = 0"
    "\<exists>st. stream_inbound c w = Inr st \<and> stream_inv c st \<and> \<not> st_locally_opened st \<and> st_buffered_send st = 0"
    by (simp_all add: stream_outbound_def stream_inbound_def stream_inv_def stream_acct_def)
qed

lemma yamux_inv_insert:
  assumes inv: "yamux_inv s" and new: "bt_get (y_streams s) i = None"
    and room: "length (y_streams s) < cfg_max_streams (y_config s)"
    and active: "ensure_active s = Inr ()"
    and st: "entry_inv (y_role s) (y_config s) next i st" "st_buffered_send st = 0"
    and below: "\<And>j. below_next (y_next_stream_id s) j \<Longrightarrow> below_next next j"
    and "next": "\<forall>n. next = Some n \<longrightarrow> n \<noteq> 0 \<and> local_id (y_role s) n"
  shows "yamux_inv (put_stream i st (s\<lparr>y_next_stream_id := next\<rparr>))"
  using inv active streams_inv_new [OF yamux_inv_streams [OF inv] new room st below "next"]
  by (simp add: yamux_inv_def ensure_active_iff)

lemma u32_checked_add_2:
  assumes "u32_checked_add n 2 = Some m"
  shows "n < m" and "even m \<longleftrightarrow> even n" and "m \<noteq> 0"
proof -
  have m: "m = n + 2" and "unat n + 2 < 4294967296"
    using assms by (auto simp: u32_checked_add_def split: if_splits)
  then have "unat m = unat n + 2" by (simp add: unat_word_ariths)
  then show "n < m" "m \<noteq> 0" by (auto simp: word_less_nat_alt)
  show "even m \<longleftrightarrow> even n" by (simp add: m)
qed

lemma safe_open_stream:
  assumes inv: "yamux_inv s"
  shows "safe (open_stream s)"
proof (cases "ensure_active s = Inr () \<and> length (y_streams s) < cfg_max_streams (y_config s) \<and> y_next_stream_id s \<noteq> None")
  case False
  with inv show ?thesis by (auto simp: open_stream_def split: sum.split option.split)
next
  case True
  then obtain i where active: "ensure_active s = Inr ()" and i: "y_next_stream_id s = Some i"
    and room: "length (y_streams s) < cfg_max_streams (y_config s)" by auto
  have id: "i \<noteq> 0" "local_id (y_role s) i" using yamux_inv_next_id [OF inv] i by auto
  have cfg: "config_ok (y_config s)" using inv by (simp add: yamux_inv_def)
  obtain st where st: "stream_outbound (y_config s) = Inr st" "stream_inv (y_config s) st"
    "st_locally_opened st" "st_buffered_send st = 0" using stream_new_inv(1) [OF cfg] by blast
  have new: "bt_get (y_streams s) i = None"
  proof (rule ccontr)
    assume "bt_get (y_streams s) i \<noteq> None"
    then obtain st0 where "bt_get (y_streams s) i = Some st0" by auto
    from yamux_inv_entry [OF inv this] i id show False by (auto simp: entry_inv_def below_next_def)
  qed
  have "yamux_inv (put_stream i st (s\<lparr>y_next_stream_id := u32_checked_add i 2\<rparr>))"
  proof (rule yamux_inv_insert [OF inv new room active])
    show "entry_inv (y_role s) (y_config s) (u32_checked_add i 2) i st"
      using st id by (auto simp: entry_inv_def below_next_def u32_checked_add_2(1) split: option.split)
    show "below_next (u32_checked_add i 2) j" if "below_next (y_next_stream_id s) j" for j
      using that i by (auto simp: below_next_def dest: u32_checked_add_2(1) split: option.split)
    show "\<forall>n. u32_checked_add i 2 = Some n \<longrightarrow> n \<noteq> 0 \<and> local_id (y_role s) n"
      using id by (auto simp: local_id_def u32_checked_add_2 split: yamux_role.splits)
  qed (rule st)
  with active room i st show ?thesis by (simp add: open_stream_def Let_def)
qed

subsection \<open>Sending\<close>

lemma stream_acct_same_control:
  "stream_acct c st \<Longrightarrow> same_control st st' \<Longrightarrow>
   st_buffered_send st' = length (concat (st_send_buffer st')) \<Longrightarrow> [] \<notin> set (st_send_buffer st') \<Longrightarrow>
   st_buffered_send st' \<le> cfg_max_buffered_send c \<Longrightarrow> stream_acct c st'"
  by (auto simp: stream_acct_def same_control_def)

lemma over_limit_iff: "\<not> over_limit a b limit \<longleftrightarrow> a + b \<le> limit \<and> a + b \<le> usize_max"
  by (auto simp: over_limit_def usize_checked_add_def)

lemma frame_immediate_spec:
  assumes "max_len \<noteq> 0" and "i \<noteq> 0" and "n \<le> length data" and "n < 4294967296"
  shows "\<exists>fs st'. frame_immediate max_len i data n st = Some (st', Inr fs) \<and>
           concat (map fr_payload fs) = take n data \<and>
           (if data = [] then fs = (if st_pending_open st = None then [] else [raw_data i (open_bits st) []])
            else list_all (carries i max_len) fs) \<and>
           (st' = st \<or> st' = opened st)"
proof (cases "data = [] \<or> n = 0")
  case True
  with assms(2,3) show ?thesis by (auto simp: frame_immediate_def)
next
  case False
  have "length (take n data) < 4294967296" using assms(3,4) by simp
  from send_loop_spec [OF assms(1,2) this, of True st "[]"] False show ?thesis
    by (auto simp: frame_immediate_def)
qed

text \<open>A call of \<open>send\<close> that passes the checks.\<close>

lemma send_ok:
  assumes inv: "yamux_inv s" and active: "ensure_active s = Inr ()"
    and get: "bt_get (y_streams s) i = Some st"
    and opn: "\<not> st_local_write_closed st" "\<not> st_close_pending st"
    and n: "n = min (length data) (unat (st_send_window st))"
    and room: "\<not> over_limit (st_buffered_send st) (length data - n) (cfg_max_buffered_send (y_config s))"
      "\<not> over_limit (y_total_buffered_send s) (length data - n) (cfg_max_total_buffered_send (y_config s))"
  obtains fs st' where
    "send i data s = (queue_frames fs ((put_stream i st' s)
       \<lparr>y_total_buffered_send := y_total_buffered_send s + (length data - n)\<rparr>), Inr ())"
    "concat (map fr_payload fs) = take n data"
    "if data = [] then fs = (if st_pending_open st = None then [] else [raw_data i (open_bits st) []])
     else list_all (carries i (unat (cfg_max_frame_len (y_config s)))) fs"
    "concat (st_send_buffer st') = concat (st_send_buffer st) @ drop n data"
    "stream_inv (y_config s) st'" "same_control st st'"
    "st_buffered_send st' = st_buffered_send st + (length data - n)"
    "unat (st_send_window st') = unat (st_send_window st) - n"
proof -
  define w where "w = st_send_window st - word_of_nat n"
  have n_le: "n \<le> unat (st_send_window st)" and n_data: "n \<le> length data"
    unfolding n by (rule min.cobounded2, rule min.cobounded1)
  then have n32: "n < 4294967296" using unat_u32_less [of "st_send_window st"] by linarith
  then have w: "unat w = unat (st_send_window st) - n"
    using n_le n32 by (simp add: w_def unat_sub_if' unat_word_of_nat)
  have st: "stream_inv (y_config s) st" and i: "i \<noteq> 0" using yamux_inv_stream [OF inv get] by simp_all
  let ?st1 = "st\<lparr>st_send_window := w\<rparr>"
  obtain fs st2 where
    framed: "frame_immediate (unat (cfg_max_frame_len (y_config s))) i data n ?st1 = Some (st2, Inr fs)"
    and fs: "concat (map fr_payload fs) = take n data"
      "if data = [] then fs = (if st_pending_open st = None then [] else [raw_data i (open_bits st) []])
       else list_all (carries i (unat (cfg_max_frame_len (y_config s)))) fs"
    and "st2 = ?st1 \<or> st2 = opened ?st1"
    using frame_immediate_spec [OF yamux_inv_config [OF inv] i n_data n32, of ?st1] by auto
  then have st2: "same_control st st2" "st_send_buffer st2 = st_send_buffer st"
      "st_buffered_send st2 = st_buffered_send st" "st_send_window st2 = w"
    by (auto simp: same_control_def)
  define st' where "st' = (if length data - n \<noteq> 0
    then st2\<lparr>st_send_buffer := st_send_buffer st2 @ [drop n data],
             st_buffered_send := st_buffered_send st2 + (length data - n)\<rparr> else st2)"
  have buf: "concat (st_send_buffer st') = concat (st_send_buffer st) @ drop n data"
    "st_buffered_send st' = st_buffered_send st + (length data - n)" "same_control st st'"
    "st_send_window st' = w" "[] \<notin> set (st_send_buffer st')"
    using st2 st by (auto simp: st'_def same_control_def stream_inv_def stream_acct_def)
  have "stream_acct (y_config s) st'"
  proof (rule stream_acct_same_control [OF _ buf(3) _ buf(5)])
    show acct: "stream_acct (y_config s) st" using st by (simp add: stream_inv_def)
    then show "st_buffered_send st' = length (concat (st_send_buffer st'))"
      unfolding buf(1,2) by (simp add: stream_acct_def)
    show "st_buffered_send st' \<le> cfg_max_buffered_send (y_config s)"
      using room(1) unfolding buf(2) over_limit_iff by blast
  qed
  moreover have "st_send_buffer st' \<noteq> [] \<longrightarrow> st_send_window st' = 0"
  proof
    assume "st_send_buffer st' \<noteq> []"
    then have "st_send_buffer st \<noteq> [] \<or> length data > n"
      using st2(2) by (auto simp: st'_def split: if_splits)
    then have "unat (st_send_window st) = 0 \<or> unat (st_send_window st) = n"
      using st n by (auto simp: stream_inv_def min_def split: if_splits)
    then have "unat w = 0" using w by auto
    then show "st_send_window st' = 0" by (simp add: buf(4) unat_eq_zero)
  qed
  ultimately have inv': "stream_inv (y_config s) st'"
    using buf(3) opn by (simp add: stream_inv_def same_control_def)
  have "send i data s = (queue_frames fs ((put_stream i st' s)
       \<lparr>y_total_buffered_send := y_total_buffered_send s + (length data - n)\<rparr>), Inr ())"
    unfolding send_def active get sum.case option.case
    using opn room framed
    by (simp add: Let_def st'_def flip: n w_def)
  then show ?thesis
    by (rule that [OF _ fs buf(1) inv' buf(3,2)]) (simp add: buf(4) w)
qed

text \<open>A call of \<open>send\<close> that a check refuses changes nothing.\<close>

lemma send_refused:
  assumes "\<not> (ensure_active s = Inr () \<and> (\<exists>st. bt_get (y_streams s) i = Some st \<and>
      \<not> st_local_write_closed st \<and> \<not> st_close_pending st \<and>
      (let n = min (length data) (unat (st_send_window st)) in
       \<not> over_limit (st_buffered_send st) (length data - n) (cfg_max_buffered_send (y_config s)) \<and>
       \<not> over_limit (y_total_buffered_send s) (length data - n) (cfg_max_total_buffered_send (y_config s)))))"
  shows "\<exists>e. send i data s = (s, Inl (Err e))"
proof (cases "ensure_active s = Inr () \<and> bt_get (y_streams s) i \<noteq> None")
  case False
  then show ?thesis by (cases "ensure_active s") (auto simp: send_def)
next
  case True
  then obtain st where get: "bt_get (y_streams s) i = Some st" and active: "ensure_active s = Inr ()"
    by auto
  show ?thesis
  proof (cases "st_local_write_closed st \<or> st_close_pending st")
    case True
    with get active show ?thesis by (simp add: send_def)
  next
    case False
    with assms get active show ?thesis unfolding send_def by (simp add: Let_def)
  qed
qed

lemma safe_send:
  assumes inv: "yamux_inv s"
  shows "safe (send i data s)"
proof (cases "ensure_active s = Inr () \<and> (\<exists>st. bt_get (y_streams s) i = Some st \<and>
      \<not> st_local_write_closed st \<and> \<not> st_close_pending st \<and>
      (let n = min (length data) (unat (st_send_window st)) in
       \<not> over_limit (st_buffered_send st) (length data - n) (cfg_max_buffered_send (y_config s)) \<and>
       \<not> over_limit (y_total_buffered_send s) (length data - n) (cfg_max_total_buffered_send (y_config s))))")
  case False
  from send_refused [OF this] inv show ?thesis by auto
next
  case True
  then obtain st n where active: "ensure_active s = Inr ()" and get: "bt_get (y_streams s) i = Some st"
    and opn: "\<not> st_local_write_closed st" "\<not> st_close_pending st"
    and n: "n = min (length data) (unat (st_send_window st))"
    and room: "\<not> over_limit (st_buffered_send st) (length data - n) (cfg_max_buffered_send (y_config s))"
      "\<not> over_limit (y_total_buffered_send s) (length data - n) (cfg_max_total_buffered_send (y_config s))"
    by (auto simp: Let_def)
  obtain fs st' where
    eq: "send i data s = (queue_frames fs ((put_stream i st' s)
       \<lparr>y_total_buffered_send := y_total_buffered_send s + (length data - n)\<rparr>), Inr ())"
    and st': "stream_inv (y_config s) st'" "same_control st st'"
      "st_buffered_send st' = st_buffered_send st + (length data - n)"
    by (rule send_ok [OF inv active get opn n room])
  have "yamux_inv ((put_stream i st' s)
      \<lparr>y_total_buffered_send := y_total_buffered_send s + (length data - n)\<rparr>)"
    using st'(2,3) room(2)
    by (intro yamux_inv_update [OF inv get st'(1)]) (simp_all add: same_control_def over_limit_iff)
  with eq show ?thesis by simp
qed

subsection \<open>Closing\<close>

lemma buffered_zero_iff: "stream_inv c st \<Longrightarrow> st_buffered_send st = 0 \<longleftrightarrow> st_send_buffer st = []"
  by (cases "st_send_buffer st") (auto simp: stream_inv_def stream_acct_def)

lemma safe_close_write:
  assumes inv: "yamux_inv s"
  shows "safe (close_write i s)"
proof (cases "ensure_active s = Inr () \<and> bt_get (y_streams s) i \<noteq> None")
  case False
  with inv show ?thesis by (auto simp: close_write_def split: sum.split)
next
  case True
  then obtain st where get: "bt_get (y_streams s) i = Some st" and active: "ensure_active s = Inr ()"
    by auto
  have st: "stream_inv (y_config s) st" and i: "i \<noteq> 0" using yamux_inv_stream [OF inv get] by simp_all
  consider (again) "st_local_write_closed st \<or> st_close_pending st"
    | (queued) "\<not> st_local_write_closed st" "\<not> st_close_pending st" "st_buffered_send st \<noteq> 0"
    | (now) "\<not> st_local_write_closed st" "\<not> st_close_pending st" "st_buffered_send st = 0" by auto
  then show ?thesis
  proof cases
    case again
    with inv get active show ?thesis by (simp add: close_write_def)
  next
    case queued
    then have "st_send_buffer st \<noteq> []" using buffered_zero_iff [OF st] by metis
    then have "stream_inv (y_config s) (st\<lparr>st_close_pending := True\<rparr>)"
      using st queued(1) by (simp add: stream_inv_def stream_acct_def)
    then have "yamux_inv (put_stream i (st\<lparr>st_close_pending := True\<rparr>) s)"
      by (rule yamux_inv_put [OF inv get]) simp_all
    with get active queued show ?thesis by (simp add: close_write_def)
  next
    case now
    let ?st = "(opened st)\<lparr>st_local_write_closed := True\<rparr>"
    let ?s = "queue_frame (raw_data i (open_bits st OR FLAG_FIN) []) (put_stream i ?st s)"
    have eq: "close_write i s =
        (if st_remote_write_closed st then remove_stream i True ?s else (?s, Inr ()))"
      using get active now i by (simp add: close_write_def Let_def)
    show ?thesis
    proof (cases "st_remote_write_closed st")
      case True
      with eq show ?thesis
        by (simp, intro safe_remove_finished [OF inv get, of _ ?st]) simp_all
    next
      case False
      then have "stream_inv (y_config s) ?st"
        using st now buffered_zero_iff [OF st] by (simp add: stream_inv_def stream_acct_def)
      then have "yamux_inv (put_stream i ?st s)"
        by (rule yamux_inv_put [OF inv get]) simp_all
      with eq False show ?thesis by simp
    qed
  qed
qed

lemma safe_reset:
  assumes inv: "yamux_inv s"
  shows "safe (reset i s)"
proof (cases "ensure_active s = Inr () \<and> bt_get (y_streams s) i \<noteq> None")
  case False
  with inv show ?thesis by (auto simp: reset_def split: sum.split)
next
  case True
  then obtain st where get: "bt_get (y_streams s) i = Some st" and active: "ensure_active s = Inr ()"
    by auto
  have "i \<noteq> 0" using yamux_inv_stream [OF inv get] by simp
  moreover have "st_buffered_send st \<le> y_total_buffered_send s"
    using streams_inv_remove(1) [OF yamux_inv_streams [OF inv] get] .
  moreover have "safe (remove_stream i False s)" using inv by (rule safe_remove)
  ultimately show ?thesis
    using get active by (simp add: reset_def remove_stream_def Let_def not_less)
qed

lemma yamux_inv_go_away:
  assumes "yamux_inv s"
  shows "yamux_inv (go_away code s)"
proof (cases "y_local_go_away s \<or> y_failed s")
  case True
  with assms show ?thesis by (auto simp: go_away_def)
next
  case False
  then show ?thesis
    by (intro yamux_inv_cleared [OF assms]) (simp_all add: go_away_def Let_def close_all_streams_def)
qed

subsection \<open>Flushing\<close>

text \<open>
  A flush works on a stream whose window was just raised: the accounting holds, the
  link between queue and window need not.
\<close>

definition flush_pre :: "yamux_config \<Rightarrow> stream_state \<Rightarrow> bool" where
  "flush_pre c st \<longleftrightarrow>
     stream_acct c st \<and>
     (st_close_pending st \<longrightarrow> st_send_buffer st \<noteq> []) \<and>
     (st_local_write_closed st \<longrightarrow> st_send_buffer st = []) \<and>
     \<not> (st_local_write_closed st \<and> st_remote_write_closed st)"

text \<open>The stream after the flush, with a delayed close carried out.\<close>

definition after_flush :: "stream_state \<Rightarrow> stream_state" where
  "after_flush st =
     (if st_send_buffer st = [] \<and> st_close_pending st
      then opened (st\<lparr>st_close_pending := False, st_local_write_closed := True\<rparr>) else st)"

definition fin_frames :: "u32 \<Rightarrow> stream_state \<Rightarrow> frame list" where
  "fin_frames i st =
     (if st_send_buffer st = [] \<and> st_close_pending st
      then [raw_data i (open_bits st OR FLAG_FIN) []] else [])"

lemma open_bits_close [simp]:
  "open_bits (st\<lparr>st_close_pending := a, st_local_write_closed := b\<rparr>) = open_bits st"
  by (simp add: open_bits_def)

lemma flushed_acct:
  assumes "stream_acct c st" and "flushed i max_len st n fs st'"
  shows "stream_acct c st'" and "n + st_buffered_send st' = st_buffered_send st"
    and "n \<le> st_buffered_send st"
proof -
  show len: "n + st_buffered_send st' = st_buffered_send st"
    using assms unfolding flushed_def stream_acct_def by (metis length_append)
  then show "n \<le> st_buffered_send st" by simp
  show "stream_acct c st'"
  proof (rule stream_acct_same_control [OF assms(1)])
    show "st_buffered_send st' \<le> cfg_max_buffered_send c"
      using assms(1) len by (simp add: stream_acct_def)
  qed (use assms(2) in \<open>simp_all add: flushed_def\<close>)
qed

lemma after_flush_simps [simp]:
  "st_locally_opened (after_flush st) = st_locally_opened st"
  "st_buffered_send (after_flush st) = st_buffered_send st"
  "st_send_buffer (after_flush st) = st_send_buffer st"
  "st_send_window (after_flush st) = st_send_window st"
  "st_remote_write_closed (after_flush st) = st_remote_write_closed st"
  by (simp_all add: after_flush_def)

lemma flushed_nil: "flushed i max_len st n fs st' \<Longrightarrow> st_send_buffer st = [] \<Longrightarrow> st_send_buffer st' = []"
  by (cases "st_send_buffer st'") (auto simp: flushed_def)

lemma after_flush_inv:
  assumes pre: "flush_pre c st" and fl: "flushed i max_len st n fs st'"
  shows "stream_inv c (after_flush st') \<or> st_local_write_closed (after_flush st') \<and> st_remote_write_closed st'"
    and "\<not> (st_send_buffer st' = [] \<and> st_close_pending st' \<and> st_remote_write_closed st') \<Longrightarrow>
         stream_inv c (after_flush st')"
proof -
  have acct: "stream_acct c st'" using pre fl flushed_acct(1) by (auto simp: flush_pre_def)
  then have "stream_acct c (after_flush st')"
    by (simp add: after_flush_def stream_acct_def)
  moreover have "st_local_write_closed st' \<longrightarrow> st_send_buffer st' = [] \<and> \<not> st_remote_write_closed st'"
    using pre fl flushed_nil [OF fl] by (auto simp: flush_pre_def flushed_def same_control_def)
  ultimately show
    "stream_inv c (after_flush st') \<or> st_local_write_closed (after_flush st') \<and> st_remote_write_closed st'"
    "\<not> (st_send_buffer st' = [] \<and> st_close_pending st' \<and> st_remote_write_closed st') \<Longrightarrow>
         stream_inv c (after_flush st')"
    using fl by (auto simp: stream_inv_def after_flush_def flushed_def)
qed

text \<open>
  What \<open>flush_buffered\<close> does to a session in which one stream was written back in a
  state that satisfies the precondition.
\<close>

lemma flush_buffered_eq:
  assumes cfg: "unat (cfg_max_frame_len (y_config s)) \<noteq> 0" and i: "i \<noteq> 0"
    and get: "bt_get (y_streams s) i = Some st" and pre: "flush_pre (y_config s) st"
    and le: "st_buffered_send st \<le> y_total_buffered_send s"
  shows "\<exists>st' n fs. flushed i (unat (cfg_max_frame_len (y_config s))) st n fs st' \<and>
     flush_buffered i s =
       (let s' = queue_frames (fs @ fin_frames i st') ((put_stream i (after_flush st') s)
          \<lparr>y_total_buffered_send := y_total_buffered_send s - n\<rparr>)
        in if st_send_buffer st' = [] \<and> st_close_pending st' \<and> st_remote_write_closed st'
           then remove_stream i True s' else (s', Inr ()))"
proof -
  from flush_loop_spec [OF cfg i, of st 0 "[]"] pre obtain st' n fs where
    loop: "flush_loop (unat (cfg_max_frame_len (y_config s))) i st 0 [] = Some (st', n, Inr fs)"
    and fl: "flushed i (unat (cfg_max_frame_len (y_config s))) st n fs st'"
    by (auto simp: flush_pre_def stream_acct_def)
  have "n \<le> y_total_buffered_send s"
    using flushed_acct(3) [OF _ fl] pre le by (fastforce simp: flush_pre_def)
  with get loop i have "flush_buffered i s =
       (let s' = queue_frames (fs @ fin_frames i st') ((put_stream i (after_flush st') s)
          \<lparr>y_total_buffered_send := y_total_buffered_send s - n\<rparr>)
        in if st_send_buffer st' = [] \<and> st_close_pending st' \<and> st_remote_write_closed st'
           then remove_stream i True s' else (s', Inr ()))"
    by (auto simp: flush_buffered_def after_flush_def fin_frames_def Let_def not_less)
  with fl show ?thesis by blast
qed

end
