(* ===== verification/Yamux_Safety.thy ===== *)
theory Yamux_Safety
  imports Yamux_Invariant
begin

text \<open>
  The frame handlers, the receive loop and the output side of a Yamux session keep the
  invariant; together with the local operations this gives the safety of every session
  that can be reached by calls of the public interface.
\<close>

section \<open>Frames from the peer\<close>

text \<open>Sessions that agree on everything the invariant reads.\<close>

definition same_core :: "yamux_session \<Rightarrow> yamux_session \<Rightarrow> bool" where
  "same_core s s' \<longleftrightarrow>
     y_streams s' = y_streams s \<and> y_total_buffered_send s' = y_total_buffered_send s \<and>
     y_config s' = y_config s \<and> y_role s' = y_role s \<and> y_next_stream_id s' = y_next_stream_id s \<and>
     y_decoder s' = y_decoder s \<and> y_failed s' = y_failed s \<and>
     y_local_go_away s' = y_local_go_away s \<and> y_remote_go_away s' = y_remote_go_away s"

lemma same_core_simps [simp]:
  "same_core s s" "same_core s (emit out s') = same_core s s'"
  "same_core s (queue_frame f s') = same_core s s'" "same_core s (queue_frames fs s') = same_core s s'"
  by (simp_all add: same_core_def)

lemma yamux_inv_same_core: "same_core s s' \<Longrightarrow> yamux_inv s' = yamux_inv s"
  by (simp add: yamux_inv_def same_core_def)

lemma put_put [simp]: "put_stream i a (put_stream i b s) = put_stream i a s"
  by (simp add: put_stream_def)

lemma put_same: "yamux_inv s \<Longrightarrow> bt_get (y_streams s) i = Some st \<Longrightarrow> put_stream i st s = s"
  using yamux_inv_wf [of s] by (simp add: put_stream_def bt_insert_same)

text \<open>
  Writing back a stream and removing it when both directions are closed.
\<close>

lemma safe_finish:
  assumes inv: "yamux_inv s" and get: "bt_get (y_streams s) i = Some st"
    and st': "st_locally_opened st' = st_locally_opened st" "st_buffered_send st' = st_buffered_send st"
    and open_inv: "\<not> (st_remote_write_closed st' \<and> st_local_write_closed st') \<Longrightarrow> stream_inv (y_config s) st'"
    and core: "same_core (put_stream i st' s) s'"
  shows "safe (if st_remote_write_closed st' \<and> st_local_write_closed st'
               then remove_stream i True s' else (s', Inr ()))"
proof (cases "st_remote_write_closed st' \<and> st_local_write_closed st'")
  case True
  have "safe (remove_stream i True s')"
    using core st'(2) by (intro safe_remove_finished [OF inv get, of s' st']) (simp_all add: same_core_def)
  with True show ?thesis by simp
next
  case False
  have "yamux_inv (put_stream i st' s)"
    using open_inv [OF False] st' by (rule yamux_inv_put [OF inv get])
  with core False show ?thesis by (auto simp: yamux_inv_same_core)
qed

lemma remote_id_iff: "valid_remote_stream_id i s \<longleftrightarrow> i \<noteq> 0 \<and> \<not> local_id (y_role s) i"
  by (auto simp: valid_remote_stream_id_def local_id_def even_iff_mod_2_eq_zero split: yamux_role.splits)

lemma safe_accept_syn:
  assumes inv: "yamux_inv s" and active: "ensure_active s = Inr ()" and i: "i \<noteq> 0"
  shows "safe (accept_syn i w s)"
    and "accept_syn i w s = (s', Inr True) \<Longrightarrow> ensure_active s' = Inr () \<and> (\<exists>st. bt_get (y_streams s') i = Some st)"
proof -
  have cfg: "config_ok (y_config s)" using inv by (simp add: yamux_inv_def)
  have new: "yamux_inv (put_stream i st s)"
    if "valid_remote_stream_id i s" "bt_get (y_streams s) i = None"
      "length (y_streams s) < cfg_max_streams (y_config s)" "stream_inbound (y_config s) v = Inr st" for st v
  proof -
    have "stream_inv (y_config s) st" "\<not> st_locally_opened st" "st_buffered_send st = 0"
      using stream_new_inv(2) [OF cfg, of v] that(4) by auto
    then have "yamux_inv (put_stream i st (s\<lparr>y_next_stream_id := y_next_stream_id s\<rparr>))"
      using that yamux_inv_next_id [OF inv]
      by (intro yamux_inv_insert [OF inv _ _ active]) (auto simp: entry_inv_def remote_id_iff)
    then show ?thesis by simp
  qed
  show "safe (accept_syn i w s)"
  proof (cases "valid_remote_stream_id i s \<and> bt_get (y_streams s) i = None")
    case False
    with inv show ?thesis by (auto simp: accept_syn_def)
  next
    case ok: True
    show ?thesis
    proof (cases "cfg_max_streams (y_config s) \<le> length (y_streams s)")
      case True
      have "safe (sbind (queue_reset_for_unknown i s) (\<lambda>_ s1. (s1, Inr False)))"
        using safe_queue_reset [OF inv i] by (intro safe_sbind) (auto simp: safe_def)
      with True ok show ?thesis by (simp add: accept_syn_def)
    next
      case False
      show ?thesis
      proof (cases w)
        case (Inr v)
        obtain st where st: "stream_inbound (y_config s) v = Inr st"
          using stream_new_inv(2) [OF cfg, of v] by blast
        with new [OF _ _ _ st] ok False Inr show ?thesis by (simp add: accept_syn_def)
      qed (use inv ok False in \<open>simp add: accept_syn_def\<close>)
    qed
  qed
  show "ensure_active s' = Inr () \<and> (\<exists>st. bt_get (y_streams s') i = Some st)"
    if "accept_syn i w s = (s', Inr True)"
    using that active
    by (auto simp: accept_syn_def ensure_active_iff queue_reset_for_unknown_def
        split: if_splits sum.splits)
qed

text \<open>The arithmetic of a delivery: nothing wraps while the accounting holds.\<close>

lemma u32_checked_add_fits:
  assumes "unat a + unat b < 4294967296"
  shows "u32_checked_add a b = Some (a + b)" and "unat (a + b) = unat a + unat b"
  using assms by (simp_all add: u32_checked_add_def unat_word_ariths)

lemma unat_div_2_u32: "unat (c div 2) = unat c div 2" for c :: u32
  by (simp add: unat_div)

definition credit_sum :: "stream_state \<Rightarrow> nat" where
  "credit_sum st = unat (st_receive_window st) + unat (st_delivered_since_update st) + unat (st_pending_credit st)"

lemma stream_acct_credit:
  "stream_acct c st \<longleftrightarrow>
     st_buffered_send st = length (concat (st_send_buffer st)) \<and> [] \<notin> set (st_send_buffer st) \<and>
     st_buffered_send st \<le> cfg_max_buffered_send c \<and> credit_sum st = unat (cfg_receive_window c) \<and>
     unat (st_delivered_since_update st) \<le> unat (cfg_receive_window c) div 2 \<and>
     st_pending_open st \<in> {None, Some (if st_locally_opened st then OpenSyn else OpenAck)}"
  by (simp add: stream_acct_def credit_sum_def)

lemma deliver_credit:
  fixes c v :: u32
  assumes sum: "credit_sum st = unat c" and v: "v \<le> st_receive_window st"
  defines "d \<equiv> st_delivered_since_update st + v"
  shows "u32_checked_add (st_delivered_since_update st) v = Some d"
    and "credit_sum (st\<lparr>st_receive_window := st_receive_window st - v, st_delivered_since_update := d\<rparr>) = unat c"
    and "credit_sum (st\<lparr>st_receive_window := st_receive_window st - v,
           st_pending_credit := st_pending_credit st + ucast d, st_delivered_since_update := 0\<rparr>) = unat c"
proof -
  have v': "unat v \<le> unat (st_receive_window st)" using v by (simp add: word_le_nat_alt)
  have c: "unat c < 4294967296" by simp
  have fits: "unat (st_delivered_since_update st) + unat v < 4294967296"
    using sum v' c unfolding credit_sum_def by linarith
  show "u32_checked_add (st_delivered_since_update st) v = Some d"
    unfolding d_def by (rule u32_checked_add_fits(1) [OF fits])
  have d: "unat d = unat (st_delivered_since_update st) + unat v"
    unfolding d_def by (rule u32_checked_add_fits(2) [OF fits])
  have w: "unat (st_receive_window st - v) = unat (st_receive_window st) - unat v"
    using v by (simp add: unat_sub)
  show "credit_sum (st\<lparr>st_receive_window := st_receive_window st - v, st_delivered_since_update := d\<rparr>) = unat c"
    using sum v' d w unfolding credit_sum_def by simp
  have "unat d < 18446744073709551616" using unat_u32_less [of d] by linarith
  then have u: "unat (ucast d :: u64) = unat d" by (simp add: unat_ucast_mod)
  have "unat (st_pending_credit st) + unat d < 18446744073709551616"
    using sum v' c d unfolding credit_sum_def by linarith
  then have "unat (st_pending_credit st + ucast d) = unat (st_pending_credit st) + unat d"
    by (simp add: unat_word_ariths u)
  then show "credit_sum (st\<lparr>st_receive_window := st_receive_window st - v,
           st_pending_credit := st_pending_credit st + ucast d, st_delivered_since_update := 0\<rparr>) = unat c"
    using sum v' d w unfolding credit_sum_def by simp
qed

lemma ack_seen_inv [simp]:
  "stream_acct c (ack_seen f st) = stream_acct c st" "stream_inv c (ack_seen f st) = stream_inv c st"
  "flush_pre c (ack_seen f st) = flush_pre c st" "credit_sum (ack_seen f st) = credit_sum st"
  "st_locally_opened (ack_seen f st) = st_locally_opened st"
  "st_buffered_send (ack_seen f st) = st_buffered_send st"
  "st_receive_window (ack_seen f st) = st_receive_window st"
  "st_delivered_since_update (ack_seen f st) = st_delivered_since_update st"
  "st_remote_write_closed (ack_seen f st) = st_remote_write_closed st"
  "st_local_write_closed (ack_seen f st) = st_local_write_closed st"
  "st_send_buffer (ack_seen f st) = st_send_buffer st"
  "st_pending_open (ack_seen f st) = st_pending_open st"
  by (simp_all add: ack_seen_def stream_inv_def stream_acct_def flush_pre_def credit_sum_def)

lemma credit_sum_remote [simp]: "credit_sum (st\<lparr>st_remote_write_closed := b\<rparr>) = credit_sum st"
  by (simp add: credit_sum_def)

text \<open>The stream after a delivery that passes the checks.\<close>

definition delivered :: "yamux_config \<Rightarrow> frame \<Rightarrow> stream_state \<Rightarrow> stream_state" where
  "delivered c f st =
     (let st1 = ack_seen f st; d = st_delivered_since_update st + fr_value f;
          st2 = st1\<lparr>st_receive_window := st_receive_window st - fr_value f\<rparr>;
          st4 = (if cfg_receive_window c div 2 < d
                 then st2\<lparr>st_pending_credit := st_pending_credit st2 + ucast d, st_delivered_since_update := 0\<rparr>
                 else st2\<lparr>st_delivered_since_update := d\<rparr>)
      in if fr_flags f AND FLAG_FIN \<noteq> 0 \<and> \<not> st_remote_write_closed st
         then st4\<lparr>st_remote_write_closed := True\<rparr> else st4)"

lemma receive_data_ok:
  assumes st: "stream_inv c st"
    and ok: "\<not> (st_remote_write_closed st \<and> fr_payload f \<noteq> [])" "fr_value f \<le> st_receive_window st"
  shows "receive_data c f st =
     (delivered c f st, Inr (if fr_payload f \<noteq> [] then Some (fr_payload f) else None,
        fr_flags f AND FLAG_FIN \<noteq> 0 \<and> \<not> st_remote_write_closed st,
        st_remote_write_closed (delivered c f st) \<and> st_local_write_closed (delivered c f st)))"
proof -
  have "credit_sum st = unat (cfg_receive_window c)"
    using st by (simp add: stream_inv_def stream_acct_credit)
  from deliver_credit(1) [OF this ok(2)] show ?thesis
    using ok by (simp add: receive_data_def delivered_def Let_def not_less)
qed

lemma delivered_inv:
  assumes st: "stream_inv c st" and v: "fr_value f \<le> st_receive_window st"
    and "\<not> (st_remote_write_closed (delivered c f st) \<and> st_local_write_closed (delivered c f st))"
  shows "stream_inv c (delivered c f st)"
proof -
  have sum: "credit_sum (ack_seen f st) = unat (cfg_receive_window c)"
    using st by (simp add: stream_inv_def stream_acct_credit)
  have v': "fr_value f \<le> st_receive_window (ack_seen f st)" using v by simp
  note credit = deliver_credit [OF sum v']
  have "credit_sum (delivered c f st) = unat (cfg_receive_window c)"
    using credit(2,3) by (simp add: delivered_def Let_def)
  moreover have "unat (st_delivered_since_update (delivered c f st)) \<le> unat (cfg_receive_window c) div 2"
    by (simp add: delivered_def Let_def not_less word_le_nat_alt unat_div_2_u32)
  moreover have "stream_acct c st" using st by (simp add: stream_inv_def)
  ultimately have "stream_acct c (delivered c f st)"
    unfolding stream_acct_credit by (simp add: delivered_def Let_def)
  with assms(3) st show ?thesis
    by (auto simp: stream_inv_def delivered_def ack_seen_def Let_def split: if_splits)
qed

lemma delivered_simps [simp]:
  "st_locally_opened (delivered c f st) = st_locally_opened st"
  "st_buffered_send (delivered c f st) = st_buffered_send st"
  by (simp_all add: delivered_def Let_def)

lemma receive_data_refused:
  assumes "\<not> (\<not> (st_remote_write_closed st \<and> fr_payload f \<noteq> []) \<and> fr_value f \<le> st_receive_window st)"
  shows "\<exists>e. receive_data c f st = (ack_seen f st, Inl e)"
  using assms by (auto simp: receive_data_def Let_def not_le)

text \<open>
  Both handlers of stream frames start by opening the stream, or by resetting an unknown
  one; \<open>on_data\<close> then works on a tracked stream.
\<close>

lemma safe_open_phase:
  assumes inv: "yamux_inv s" and active: "ensure_active s = Inr ()" and i: "i \<noteq> 0"
    and known: "\<And>st. bt_get (y_streams s) i = Some st \<Longrightarrow> P (s, Inr True)"
    and refused: "\<And>s' e. yamux_inv s' \<Longrightarrow> P (s', Inl (Err e))"
    and stop: "\<And>s'. yamux_inv s' \<Longrightarrow> P (s', Inr False)"
    and opened: "\<And>s' st. yamux_inv s' \<Longrightarrow> ensure_active s' = Inr () \<Longrightarrow> bt_get (y_streams s') i = Some st \<Longrightarrow>
      P (s', Inr True)"
  shows "P (if syn then accept_syn i w s
            else if bt_get (y_streams s) i = None
            then sbind (queue_reset_for_unknown i s) (\<lambda>_ s1. (s1, Inr False))
            else (s, Inr True))"
proof -
  have accept: "P (accept_syn i w s)"
  proof -
    obtain s' r where r: "accept_syn i w s = (s', r)" by fastforce
    have sf: "safe (s', r)" using safe_accept_syn(1) [OF inv active i, of w] r by simp
    show ?thesis
    proof (cases r)
      case (Inl e)
      with sf r refused show ?thesis by (cases e) auto
    next
      case (Inr b)
      with sf r stop opened safe_accept_syn(2) [OF inv active i, of w s'] show ?thesis
        by (cases b) auto
    qed
  qed
  moreover have "P (sbind (queue_reset_for_unknown i s) (\<lambda>_ s1. (s1, Inr False)))"
    using stop inv i by (simp add: queue_reset_for_unknown_def)
  ultimately show ?thesis using known by auto
qed

lemma safe_on_data_tracked:
  assumes inv: "yamux_inv s" and get: "bt_get (y_streams s) (fr_stream_id f) = Some st"
  shows "safe (on_data_tracked f s)"
proof (cases "\<not> (st_remote_write_closed st \<and> fr_payload f \<noteq> []) \<and> fr_value f \<le> st_receive_window st")
  case True
  have st: "stream_inv (y_config s) st" using yamux_inv_stream [OF inv get] by simp
  let ?i = "fr_stream_id f" and ?st' = "delivered (y_config s) f st"
  define s3 where "s3 =
    (let s2 = (if fr_payload f \<noteq> [] then emit (StreamData ?i (fr_payload f)) (put_stream ?i ?st' s)
               else put_stream ?i ?st' s)
     in if fr_flags f AND FLAG_FIN \<noteq> 0 \<and> \<not> st_remote_write_closed st
        then emit (RemoteWriteClosed ?i) s2 else s2)"
  have eq: "on_data_tracked f s = (if st_remote_write_closed ?st' \<and> st_local_write_closed ?st'
      then remove_stream ?i True s3 else (s3, Inr ()))"
    using True get receive_data_ok [OF st, of f] by (simp add: on_data_tracked_def s3_def Let_def)
  have core: "same_core (put_stream ?i ?st' s) s3" by (simp add: s3_def Let_def)
  have "fr_value f \<le> st_receive_window st" using True by blast
  from delivered_inv [OF st this] show ?thesis
    unfolding eq by (intro safe_finish [OF inv get _ _ _ core]) simp_all
next
  case False
  then obtain e where "receive_data (y_config s) f st = (ack_seen f st, Inl e)"
    using receive_data_refused by blast
  with get show ?thesis
    using yamux_inv_put [OF inv get, of "ack_seen f st"] yamux_inv_stream [OF inv get]
    by (simp add: on_data_tracked_def)
qed

lemma safe_on_data:
  assumes inv: "yamux_inv s" and active: "ensure_active s = Inr ()" and i: "fr_stream_id f \<noteq> 0"
  shows "safe (on_data f s)"
proof (cases "fr_flags f AND FLAG_RST = 0")
  case False
  with safe_remove [OF inv] show ?thesis by (simp add: on_data_def Let_def)
next
  case True
  let ?body = "\<lambda>go_on s1. if \<not> go_on then (s1, Inr ()) else on_data_tracked f s1"
  have "safe (sbind (if fr_flags f AND FLAG_SYN \<noteq> 0
        then accept_syn (fr_stream_id f) (Inr DEFAULT_RECEIVE_WINDOW) s
      else if bt_get (y_streams s) (fr_stream_id f) = None
      then sbind (queue_reset_for_unknown (fr_stream_id f) s) (\<lambda>_ s1. (s1, Inr False))
      else (s, Inr True)) ?body)"
    using inv safe_on_data_tracked
    by (intro safe_open_phase [OF inv active i, where P = "\<lambda>r. safe (sbind r ?body)"]) auto
  with True show ?thesis by (simp add: on_data_def Let_def)
qed

lemma remove_stream_gone:
  "bt_wf (y_streams s) \<Longrightarrow> bt_get (y_streams (fst (remove_stream i notify s))) i = None"
  by (simp add: remove_stream_def Let_def split: option.split)

lemma stream_inv_remote_closed:
  "stream_inv c st \<Longrightarrow> \<not> st_local_write_closed st \<Longrightarrow> stream_inv c (st\<lparr>st_remote_write_closed := True\<rparr>)"
  by (simp add: stream_inv_def stream_acct_def)

text \<open>
  The state of the session after a flush, before a finished stream is removed: the
  stream is written back, the frames are queued, the total is lowered.
\<close>

lemma flush_session:
  assumes inv: "yamux_inv s" and get: "bt_get (y_streams s) i = Some st0"
    and pre: "flush_pre (y_config s) st" and st: "st_buffered_send st = st_buffered_send st0"
  obtains st' n fs s' where
    "flushed i (unat (cfg_max_frame_len (y_config s))) st n fs st'"
    "s' = queue_frames (fs @ fin_frames i st') ((put_stream i (after_flush st') s)
            \<lparr>y_total_buffered_send := y_total_buffered_send s - n\<rparr>)"
    "y_total_buffered_send s - n + st_buffered_send st0 = y_total_buffered_send s + st_buffered_send st'"
    "flush_buffered i (put_stream i st s) =
       (if st_send_buffer st' = [] \<and> st_close_pending st' \<and> st_remote_write_closed st'
        then remove_stream i True s' else (s', Inr ()))"
proof -
  have i: "i \<noteq> 0" using yamux_inv_stream [OF inv get] by simp
  have le: "st_buffered_send st \<le> y_total_buffered_send s"
    using streams_inv_remove(1) [OF yamux_inv_streams [OF inv] get] st by simp
  obtain st' n fs where fl: "flushed i (unat (cfg_max_frame_len (y_config s))) st n fs st'"
    and eq: "flush_buffered i (put_stream i st s) =
       (let s' = queue_frames (fs @ fin_frames i st') ((put_stream i (after_flush st') s)
          \<lparr>y_total_buffered_send := y_total_buffered_send s - n\<rparr>)
        in if st_send_buffer st' = [] \<and> st_close_pending st' \<and> st_remote_write_closed st'
           then remove_stream i True s' else (s', Inr ()))"
    using flush_buffered_eq [of "put_stream i st s" i st] yamux_inv_config [OF inv] i pre le by auto
  have acct: "stream_acct (y_config s) st" using pre by (simp add: flush_pre_def)
  have "n + st_buffered_send st' = st_buffered_send st0" "n \<le> y_total_buffered_send s"
    using flushed_acct(2) [OF acct fl] st le by simp_all
  then show ?thesis
    using eq by (intro that [OF fl refl]) (simp_all add: Let_def)
qed

lemma safe_window_tracked:
  assumes inv: "yamux_inv s" and get: "bt_get (y_streams s) (fr_stream_id f) = Some st0"
    and pre: "flush_pre (y_config s) st" and st: "st_buffered_send st = st_buffered_send st0"
      "st_locally_opened st = st_locally_opened st0"
  shows "safe (on_window_update_tracked f (put_stream (fr_stream_id f) st s))"
proof -
  define i where "i = fr_stream_id f"
  let ?st = "ack_seen f st"
  note get = get [folded i_def]
  have pre': "flush_pre (y_config s) ?st" and st': "st_buffered_send ?st = st_buffered_send st0"
    using pre st by simp_all
  obtain st' n fs s' where
    fl: "flushed i (unat (cfg_max_frame_len (y_config s))) ?st n fs st'"
    and s': "s' = queue_frames (fs @ fin_frames i st') ((put_stream i (after_flush st') s)
            \<lparr>y_total_buffered_send := y_total_buffered_send s - n\<rparr>)"
    and tot: "y_total_buffered_send s - n + st_buffered_send st0 = y_total_buffered_send s + st_buffered_send st'"
    and flush: "flush_buffered i (put_stream i ?st s) =
       (if st_send_buffer st' = [] \<and> st_close_pending st' \<and> st_remote_write_closed st'
        then remove_stream i True s' else (s', Inr ()))"
    by (rule flush_session [OF inv get pre' st'])
  have opened: "st_locally_opened st' = st_locally_opened st0"
    using fl st(2) by (simp add: flushed_def same_control_def)
  show ?thesis
  proof (cases "st_send_buffer st' = [] \<and> st_close_pending st' \<and> st_remote_write_closed st'")
    case True
    have "safe (remove_stream i True s')"
      using tot by (intro safe_remove_finished [OF inv get, of s' "after_flush st'"]) (simp_all add: s')
    moreover have "bt_get (y_streams (fst (remove_stream i True s'))) i = None"
      using yamux_inv_wf [OF inv] by (intro remove_stream_gone) (simp add: s')
    ultimately show ?thesis
      using True flush
      by (cases "remove_stream i True s'"; cases "snd (remove_stream i True s')")
         (auto simp: on_window_update_tracked_def Let_def i_def [symmetric])
  next
    case False
    let ?A = "after_flush st'"
    have A: "stream_inv (y_config s) ?A" using after_flush_inv(2) [OF pre' fl] False by blast
    have "y_total_buffered_send s \<le> cfg_max_total_buffered_send (y_config s)"
      using yamux_inv_streams [OF inv] unfolding streams_inv_def by blast
    then have "y_total_buffered_send s - n \<le> cfg_max_total_buffered_send (y_config s)" by simp
    then have inv': "yamux_inv s'"
      using yamux_inv_update [OF inv get A _ _, of "y_total_buffered_send s - n"] opened tot
      by (simp add: s')
    have get': "bt_get (y_streams s') i = Some ?A" by (simp add: s')
    define closed where "closed = (fr_flags f AND FLAG_FIN \<noteq> 0 \<and> \<not> st_remote_write_closed ?A)"
    define B where "B = (if closed then ?A\<lparr>st_remote_write_closed := True\<rparr> else ?A)"
    define s2 where "s2 = (if closed then emit (RemoteWriteClosed i) (put_stream i B s') else put_stream i B s')"
    have eq: "on_window_update_tracked f (put_stream i st s) =
        (if st_remote_write_closed B \<and> st_local_write_closed B then remove_stream i True s2 else (s2, Inr ()))"
      using flush False get'
      by (simp add: on_window_update_tracked_def Let_def i_def [symmetric] closed_def B_def s2_def)
    have "stream_inv (y_config s') B" if "\<not> (st_remote_write_closed B \<and> st_local_write_closed B)"
      using that A stream_inv_remote_closed [OF A] by (auto simp: B_def s' split: if_splits)
    then show ?thesis
      unfolding eq i_def [symmetric]
      by (intro safe_finish [OF inv' get']) (auto simp: B_def s2_def)
  qed
qed

lemma stream_inv_flush_pre:
  "stream_inv c st \<Longrightarrow> flush_pre c st" "stream_inv c st \<Longrightarrow> flush_pre c (st\<lparr>st_send_window := w\<rparr>)"
  by (simp_all add: stream_inv_def flush_pre_def stream_acct_def)

lemma safe_on_window_update:
  assumes inv: "yamux_inv s" and active: "ensure_active s = Inr ()" and i: "fr_stream_id f \<noteq> 0"
  shows "safe (on_window_update f s)"
proof -
  let ?i = "fr_stream_id f"
  consider (rst) "fr_flags f AND FLAG_RST \<noteq> 0"
    | (syn) "fr_flags f AND FLAG_RST = 0" "fr_flags f AND FLAG_SYN \<noteq> 0"
    | (plain) "fr_flags f AND FLAG_RST = 0" "fr_flags f AND FLAG_SYN = 0" by blast
  then show ?thesis
  proof cases
    case rst
    with safe_remove [OF inv] show ?thesis by (simp add: on_window_update_def Let_def)
  next
    case syn
    define w where "w = ok_or (u32_checked_add DEFAULT_RECEIVE_WINDOW (fr_value f)) (WindowOverflow ?i)"
    have "safe (sbind (accept_syn ?i w s)
        (\<lambda>go_on s1. if \<not> go_on then (s1, Inr ()) else on_window_update_tracked f s1))"
    proof (rule safe_sbind [OF safe_accept_syn(1) [OF inv active i]])
      fix go_on s1
      assume r: "accept_syn ?i w s = (s1, Inr go_on)"
      then have inv1: "yamux_inv s1" using safe_accept_syn(1) [OF inv active i, of w] by simp
      show "safe (if \<not> go_on then (s1, Inr ()) else on_window_update_tracked f s1)"
      proof (cases go_on)
        case True
        with r obtain st where st: "bt_get (y_streams s1) ?i = Some st"
          using safe_accept_syn(2) [OF inv active i, of w s1] by auto
        have "stream_inv (y_config s1) st" using yamux_inv_stream [OF inv1 st] by simp
        from safe_window_tracked [OF inv1 st stream_inv_flush_pre(1) [OF this] refl refl] True
        show ?thesis by (simp add: put_same [OF inv1 st])
      qed (simp add: inv1)
    qed
    with syn show ?thesis by (simp add: on_window_update_def Let_def w_def)
  next
    case plain
    show ?thesis
    proof (cases "bt_get (y_streams s) ?i")
      case None
      with plain inv i show ?thesis
        by (simp add: on_window_update_def Let_def queue_reset_for_unknown_def)
    next
      case (Some st)
      have "stream_inv (y_config s) st" using yamux_inv_stream [OF inv Some] by simp
      with safe_window_tracked [OF inv Some stream_inv_flush_pre(2)] plain Some inv show ?thesis
        by (auto simp: on_window_update_def Let_def split: option.split)
    qed
  qed
qed

lemma frame_wf_stream:
  "frame_wf f \<Longrightarrow> fr_type f = DataFrame \<or> fr_type f = WindowUpdateFrame \<Longrightarrow> fr_stream_id f \<noteq> 0"
  by (auto simp: frame_wf_def validate_def Let_def split: if_splits)

lemma safe_process_frame:
  assumes inv: "yamux_inv s" and active: "ensure_active s = Inr ()" and f: "frame_wf f"
  shows "safe (process_frame f s)"
proof (cases "fr_type f")
  case DataFrame
  with safe_on_data [OF inv active] frame_wf_stream [OF f] show ?thesis by (simp add: process_frame_def)
next
  case WindowUpdateFrame
  with safe_on_window_update [OF inv active] frame_wf_stream [OF f] show ?thesis by (simp add: process_frame_def)
next
  case PingFrame
  with inv show ?thesis
    by (auto simp: process_frame_def on_ping_def split: sum.split)
next
  case GoAwayFrame
  have "yamux_inv (close_all_streams (emit (GoAwayReceived (fr_value f)) (s\<lparr>y_remote_go_away := True\<rparr>)))"
    by (rule yamux_inv_cleared [OF inv]) (simp_all add: close_all_streams_def)
  with GoAwayFrame show ?thesis by (simp add: process_frame_def)
qed

section \<open>The receive loop\<close>

definition decoder_small :: "yamux_session \<Rightarrow> bool" where
  "decoder_small s \<longleftrightarrow> length (unread (y_decoder s)) < HEADER_LEN + unat (cfg_max_frame_len (y_config s))"

lemma yamux_inv_decoder:
  "yamux_inv s \<Longrightarrow> decoder_inv (y_decoder s) \<and> fd_max_frame_len (y_decoder s) = cfg_max_frame_len (y_config s)"
  by (simp add: yamux_inv_def)

lemma yamux_inv_set_decoder:
  "yamux_inv s \<Longrightarrow> decoder_inv d \<Longrightarrow> fd_max_frame_len d = cfg_max_frame_len (y_config s) \<Longrightarrow>
   yamux_inv (s\<lparr>y_decoder := d\<rparr>)"
  by (simp add: yamux_inv_def)

lemma decoder_small_cleared: "y_decoder s = decoder_clear d \<Longrightarrow> decoder_small s"
  by (simp add: decoder_small_def HEADER_LEN_def)

lemma fail_protocol_small: "decoder_small (fst (fail_protocol e s))"
  by (rule decoder_small_cleared [of _ "y_decoder s"]) (simp add: fail_protocol_def Let_def)

text \<open>A frame handler leaves the session active unless the peer said goodbye.\<close>

lemma process_frame_active:
  assumes "ensure_active s = Inr ()" and "process_frame f s = (s1, r)"
  shows "\<not> y_failed s1" "\<not> y_local_go_away s1" "y_config s1 = y_config s" "y_decoder s1 = y_decoder s"
  using fixed_process_frame [of f s] assms by (auto simp: fixed_fields_def ensure_active_iff)

text \<open>
  \<open>handled s fs t\<close>: the receive loop has taken the frames \<open>fs\<close> out of the decoder of \<open>s\<close> and
  processed each of them without an error, which leads to \<open>t\<close>. \<open>violates t x u\<close>: what comes next is
  a violation \<open>x\<close>, noticed by the decoder or by the handler of the frame, and \<open>u\<close> is the session
  at that moment.
\<close>

inductive handled :: "yamux_session \<Rightarrow> frame list \<Rightarrow> yamux_session \<Rightarrow> bool" where
  handled_none: "handled s [] s"
| handled_frame: "next_frame (y_decoder s) = (d, Inr (Some f)) \<Longrightarrow>
    process_frame f (s\<lparr>y_decoder := d\<rparr>) = (s1, Inr ()) \<Longrightarrow> \<not> y_remote_go_away s1 \<Longrightarrow>
    handled (s1\<lparr>y_dirty := True\<rparr>) fs t \<Longrightarrow> handled s (f # fs) t"

inductive_cases handled_consE: "handled s (f # fs) t"

inductive violates :: "yamux_session \<Rightarrow> yamux_error \<Rightarrow> yamux_session \<Rightarrow> bool" where
  bad_bytes: "next_frame (y_decoder t) = (d, Inl (Err x)) \<Longrightarrow> violates t x (t\<lparr>y_decoder := d\<rparr>)"
| bad_frame: "next_frame (y_decoder t) = (d, Inr (Some f)) \<Longrightarrow>
    process_frame f (t\<lparr>y_decoder := d\<rparr>) = (u, Inl (Err x)) \<Longrightarrow> violates t x u"

inductive_cases violatesE: "violates t x u"

lemma handle_loop_safe:
  assumes "yamux_inv s" and "ensure_active s = Inr ()"
  shows "safe (handle_loop s) \<and> decoder_small (fst (handle_loop s)) \<and>
         (\<forall>e. snd (handle_loop s) = Inl e \<longrightarrow>
            (\<exists>fs t x u. handled s fs t \<and> violates t x u \<and> yamux_inv u \<and> handle_loop s = fail_protocol x u))"
  using assms
proof (induction "length (unread (y_decoder s))" arbitrary: s rule: less_induct)
  case less
  note inv = less.prems(1) and active = less.prems(2)
  have dinv: "decoder_inv (y_decoder s)" and dmax: "fd_max_frame_len (y_decoder s) = cfg_max_frame_len (y_config s)"
    using yamux_inv_decoder [OF inv] by simp_all
  show ?case
  proof (cases "yamux_step (fd_max_frame_len (y_decoder s)) (unread (y_decoder s))")
    case More
    then have "handle_loop s = (s, Inr ())"
      using next_frame_None_iff(1) [OF dinv] by (subst handle_loop.simps) simp
    with inv dmax yamux_step_More [OF More] show ?thesis by (simp add: decoder_small_def)
  next
    case (Bad e)
    then have "handle_loop s = fail_protocol e s"
      using next_frame_None_iff(2) [OF dinv] by (subst handle_loop.simps) simp
    moreover have "violates s e s"
      using bad_bytes [of s "y_decoder s" e] next_frame_None_iff(2) [OF dinv Bad] by simp
    ultimately show ?thesis using inv handled_none [of s] safe_fail_protocol fail_protocol_small by metis
  next
    case (Done f n)
    obtain d where d: "next_frame (y_decoder s) = (d, Inr (Some f))" "decoder_inv d"
      "fd_max_frame_len d = fd_max_frame_len (y_decoder s)"
      by (rule next_frame_Some [OF dinv Done])
    have f: "frame_wf f" using yamux_step_Done(1) [OF Done] by (simp add: frame_accepted_def)
    let ?s = "s\<lparr>y_decoder := d\<rparr>"
    have inv': "yamux_inv ?s" using inv d dmax by (intro yamux_inv_set_decoder) simp_all
    have active': "ensure_active ?s = Inr ()" using active by (simp add: ensure_active_iff)
    obtain s1 r where r: "process_frame f ?s = (s1, r)" by fastforce
    have sf: "safe (s1, r)" using safe_process_frame [OF inv' active' f] r by simp
    note act = process_frame_active [OF active' r]
    show ?thesis
    proof (cases r)
      case (Inl flt)
      with sf obtain e where "flt = Err e" "yamux_inv s1" by (cases flt) auto
      with Inl r d(1) have "handle_loop s = fail_protocol e s1"
        by (subst handle_loop.simps) simp
      moreover have "violates s e s1" using d(1) r Inl \<open>flt = Err e\<close> by (intro bad_frame) simp_all
      ultimately show ?thesis
        using \<open>yamux_inv s1\<close> handled_none [of s] safe_fail_protocol fail_protocol_small by metis
    next
      case (Inr u)
      with sf have inv1: "yamux_inv s1" by simp
      show ?thesis
      proof (cases "y_remote_go_away s1")
        case True
        let ?s2 = "s1\<lparr>y_dirty := True, y_decoder := decoder_clear (y_decoder s1)\<rparr>"
        have "handle_loop s = (?s2, Inr ())"
          using True Inr r d(1) by (subst handle_loop.simps) (simp add: Let_def)
        moreover have "yamux_inv ?s2"
          using inv1 yamux_inv_decoder [OF inv1] by (intro yamux_inv_set_decoder) simp_all
        moreover have "decoder_small ?s2" by (rule decoder_small_cleared) simp
        ultimately show ?thesis by simp
      next
        case False
        let ?s2 = "s1\<lparr>y_dirty := True\<rparr>"
        have "handle_loop s = handle_loop ?s2"
          using False Inr r d(1) by (subst handle_loop.simps) (simp add: Let_def)
        moreover have "length (unread (y_decoder ?s2)) < length (unread (y_decoder s))"
          using process_frame_decreases [OF d(1) r] by simp
        moreover have "yamux_inv ?s2" "ensure_active ?s2 = Inr ()"
          using inv1 act False by (simp_all add: ensure_active_iff)
        moreover have "handled s (f # fs) t" if "handled ?s2 fs t" for fs t
          using handled_frame [OF d(1) _ False that] r Inr by simp
        ultimately show ?thesis using less.hyps [of ?s2] by metis
      qed
    qed
  qed
qed

text \<open>
  Input slices are bounded by the address space; with a bounded decoder the buffer then
  stays far from the largest length.
\<close>

definition slice_fits :: "bytes \<Rightarrow> bool" where
  "slice_fits bs \<longleftrightarrow> length bs < 4611686018427387904"

lemma buffer_fits:
  "a \<le> 2 * (HEADER_LEN + x) \<Longrightarrow> x < 4294967296 \<Longrightarrow> slice_fits bs \<Longrightarrow> a + length bs \<le> usize_max"
  by (simp add: HEADER_LEN_def slice_fits_def usize_max_def)

lemma pushed_decoder:
  assumes inv: "yamux_inv s" and small: "decoder_small s" and fits: "slice_fits bs"
  shows "decoder_inv (decoder_push bs (y_decoder s))"
    and "fd_max_frame_len (decoder_push bs (y_decoder s)) = cfg_max_frame_len (y_config s)"
    and "unread (decoder_push bs (y_decoder s)) = unread (y_decoder s) @ bs"
proof -
  have "length (fd_buffer (y_decoder s)) \<le> 2 * (HEADER_LEN + unat (cfg_max_frame_len (y_config s)))"
    using buffer_le_unread [of "y_decoder s"] yamux_inv_decoder [OF inv] small
    by (simp add: decoder_small_def)
  moreover have "unat (cfg_max_frame_len (y_config s)) < 4294967296" by simp
  ultimately have "length (fd_buffer (y_decoder s)) + length bs \<le> usize_max"
    using fits by (rule buffer_fits)
  then show "decoder_inv (decoder_push bs (y_decoder s))"
    "fd_max_frame_len (decoder_push bs (y_decoder s)) = cfg_max_frame_len (y_config s)"
    "unread (decoder_push bs (y_decoder s)) = unread (y_decoder s) @ bs"
    using decoder_inv_push [of "y_decoder s" bs] yamux_inv_decoder [OF inv] by simp_all
qed

lemma handle_data_safe:
  assumes inv: "yamux_inv s" and small: "decoder_small s" and fits: "slice_fits bs"
  shows "safe (handle_data bs s) \<and> decoder_small (fst (handle_data bs s))"
proof (cases "ensure_active s = Inr ()")
  case False
  with inv small show ?thesis by (auto simp: handle_data_def ensure_active_iff)
next
  case True
  let ?d = "decoder_push bs (y_decoder s)"
  have "decoder_inv ?d" "fd_max_frame_len ?d = cfg_max_frame_len (y_config s)"
    using pushed_decoder [OF inv small fits] by simp_all
  then have "yamux_inv (s\<lparr>y_decoder := ?d\<rparr>)" by (rule yamux_inv_set_decoder [OF inv])
  moreover have "ensure_active (s\<lparr>y_decoder := ?d\<rparr>) = Inr ()" using True by (simp add: ensure_active_iff)
  ultimately show ?thesis
    using handle_loop_safe True by (simp add: handle_data_def ensure_active_iff)
qed

lemma handle_data_fails:
  assumes inv: "yamux_inv s" and small: "decoder_small s" and fits: "slice_fits bs"
    and active: "ensure_active s = Inr ()" and err: "snd (handle_data bs s) = Inl e"
  shows "\<exists>fs t x u. handled (s\<lparr>y_decoder := decoder_push bs (y_decoder s)\<rparr>) fs t \<and> violates t x u \<and>
    yamux_inv u \<and> handle_data bs s = fail_protocol x u"
proof -
  have d: "decoder_inv (decoder_push bs (y_decoder s)) \<and>
      fd_max_frame_len (decoder_push bs (y_decoder s)) = cfg_max_frame_len (y_config s)"
    using pushed_decoder [OF inv small fits] by simp
  then have "yamux_inv (s\<lparr>y_decoder := decoder_push bs (y_decoder s)\<rparr>)"
    by (intro yamux_inv_set_decoder [OF inv]) simp_all
  moreover have "ensure_active (s\<lparr>y_decoder := decoder_push bs (y_decoder s)\<rparr>) = Inr ()"
    using active by (simp add: ensure_active_iff)
  ultimately show ?thesis
    using handle_loop_safe [of "s\<lparr>y_decoder := decoder_push bs (y_decoder s)\<rparr>"] active err
    by (simp add: handle_data_def ensure_active_iff)
qed

section \<open>Output\<close>

lemma min_u32_max: "unat p < 4294967296 \<Longrightarrow> min p (ucast (- 1 :: u32)) = p" for p :: u64
proof -
  assume "unat p < 4294967296"
  moreover have "unat (ucast (- 1 :: u32) :: u64) = 4294967295"
    by (simp add: unat_ucast_mod unsigned_minus_1_eq_mask mask_eq_exp_minus_1)
  ultimately have "p \<le> ucast (- 1 :: u32)" by (simp add: word_le_nat_alt)
  then show ?thesis by (simp add: min_def)
qed

text \<open>The stream after its deferred control frame was materialised.\<close>

definition granted :: "stream_state \<Rightarrow> stream_state" where
  "granted st = (opened st)\<lparr>st_pending_credit := 0,
     st_receive_window := st_receive_window st + ucast (st_pending_credit st)\<rparr>"

lemma pending_credit_fits:
  assumes "stream_inv c st"
  shows "unat (st_pending_credit st) < 4294967296"
    and "unat (ucast (st_pending_credit st) :: u32) = unat (st_pending_credit st)"
    and "ucast (ucast (st_pending_credit st) :: u32) = st_pending_credit st"
    and "u32_checked_add (st_receive_window st) (ucast (st_pending_credit st)) =
           Some (st_receive_window st + ucast (st_pending_credit st))"
    and "unat (st_receive_window st + ucast (st_pending_credit st)) =
           unat (st_receive_window st) + unat (st_pending_credit st)"
proof -
  have "credit_sum st = unat (cfg_receive_window c)"
    using assms by (simp add: stream_inv_def stream_acct_credit)
  moreover have "unat (cfg_receive_window c) < 4294967296" by simp
  ultimately have sum: "unat (st_receive_window st) + unat (st_pending_credit st) < 4294967296"
    unfolding credit_sum_def by linarith
  then show small: "unat (st_pending_credit st) < 4294967296" by linarith
  then show u: "unat (ucast (st_pending_credit st) :: u32) = unat (st_pending_credit st)"
    by (simp add: unat_ucast_mod)
  show "ucast (ucast (st_pending_credit st) :: u32) = st_pending_credit st"
    by (rule unsigned_word_eqI [where 'a = nat]) (use small in \<open>simp add: unat_ucast_mod\<close>)
  show "u32_checked_add (st_receive_window st) (ucast (st_pending_credit st)) =
           Some (st_receive_window st + ucast (st_pending_credit st))"
    and "unat (st_receive_window st + ucast (st_pending_credit st)) =
           unat (st_receive_window st) + unat (st_pending_credit st)"
    using u32_checked_add_fits [of "st_receive_window st" "ucast (st_pending_credit st)"] sum
    by (simp_all add: u)
qed

lemma materialize_eq:
  assumes inv: "yamux_inv s"
  shows "materialize_deferred_control s =
     (case find (\<lambda>(i, st). has_deferred_control st) (y_streams s) of
        None \<Rightarrow> (s, Inr ())
      | Some (i, st) \<Rightarrow>
          (queue_frame \<lparr>fr_type = WindowUpdateFrame, fr_flags = open_bits st, fr_stream_id = i,
              fr_value = ucast (st_pending_credit st), fr_payload = []\<rparr> (put_stream i (granted st) s), Inr ()))"
    and "find (\<lambda>(i, st). has_deferred_control st) (y_streams s) = Some (i, st) \<Longrightarrow>
      yamux_inv (put_stream i (granted st) s) \<and> bt_get (y_streams s) i = Some st"
proof -
  have find: "bt_get (y_streams s) i = Some st"
    if "find (\<lambda>(i, st). has_deferred_control st) (y_streams s) = Some (i, st)" for i st
  proof -
    have "(i, st) \<in> set (y_streams s)" using that by (metis (no_types, lifting) find_Some_iff nth_mem)
    then show ?thesis using yamux_inv_wf [OF inv] by (simp add: bt_mem_iff)
  qed
  show "materialize_deferred_control s =
     (case find (\<lambda>(i, st). has_deferred_control st) (y_streams s) of
        None \<Rightarrow> (s, Inr ())
      | Some (i, st) \<Rightarrow>
          (queue_frame \<lparr>fr_type = WindowUpdateFrame, fr_flags = open_bits st, fr_stream_id = i,
              fr_value = ucast (st_pending_credit st), fr_payload = []\<rparr> (put_stream i (granted st) s), Inr ()))"
  proof (cases "find (\<lambda>(i, st). has_deferred_control st) (y_streams s)")
    case (Some p)
    obtain i st where p: "p = (i, st)" by (cases p)
    have st: "stream_inv (y_config s) st" "i \<noteq> 0"
      using yamux_inv_stream [OF inv find] Some p by simp_all
    have "window_update_frame i (open_bits st) (ucast (st_pending_credit st)) =
        Inr \<lparr>fr_type = WindowUpdateFrame, fr_flags = open_bits st, fr_stream_id = i,
              fr_value = ucast (st_pending_credit st), fr_payload = []\<rparr>"
      using st by (simp add: window_update_frame_Inr_iff)
    then show ?thesis
      using Some p pending_credit_fits [OF st(1)]
      by (simp add: materialize_deferred_control_def Let_def granted_def min_u32_max)
  qed (simp add: materialize_deferred_control_def)
  show "yamux_inv (put_stream i (granted st) s) \<and> bt_get (y_streams s) i = Some st"
    if "find (\<lambda>(i, st). has_deferred_control st) (y_streams s) = Some (i, st)"
  proof
    show get: "bt_get (y_streams s) i = Some st" by (rule find [OF that])
    have st: "stream_inv (y_config s) st" using yamux_inv_stream [OF inv get] by simp
    have "credit_sum (granted st) = credit_sum st"
      using pending_credit_fits(5) [OF st] by (simp add: credit_sum_def granted_def)
    then have "stream_inv (y_config s) (granted st)"
      using st unfolding stream_inv_def stream_acct_credit by (auto simp: granted_def)
    then show "yamux_inv (put_stream i (granted st) s)"
      by (rule yamux_inv_put [OF inv get]) (simp_all add: granted_def)
  qed
qed

lemma safe_poll_output:
  assumes inv: "yamux_inv s"
  shows "safe (poll_output s)"
proof -
  have pop: "safe (pop_pending s')" if "yamux_inv s'" for s'
    using that by (auto simp: pop_pending_def split: list.split)
  have "safe (materialize_deferred_control s)"
    using inv materialize_eq(2) [OF inv]
    by (auto simp: materialize_eq(1) [OF inv] split: option.split)
  then have "safe (sbind (materialize_deferred_control s) (\<lambda>_ s1. pop_pending s1))"
    by (rule safe_sbind) (use pop \<open>safe (materialize_deferred_control s)\<close> in auto)
  with inv pop [OF inv] show ?thesis
    by (auto simp: poll_output_def split: list.split)
qed

end
