(* ===== verification/Yamux_Reachable.thy ===== *)
theory Yamux_Reachable
  imports Yamux_Safety
begin

text \<open>
  Sessions reachable through the public interface of \<open>YamuxSession\<close>: any validated
  configuration, then any sequence of calls with any arguments. Every reachable session
  satisfies the invariant, so the properties of the session hold without assumptions on
  the peer.
\<close>

section \<open>Runs\<close>

datatype yamux_op =
    Poll u64
  | OpenStream
  | Send u32 bytes
  | CloseWrite u32
  | Reset u32
  | GoAway u32
  | HandleData bytes
  | PollOutput

definition discard :: "'a yamux_result \<Rightarrow> unit yamux_result" where
  "discard r = sbind r (\<lambda>_ s. (s, Inr ()))"

fun apply_op :: "yamux_op \<Rightarrow> yamux_session \<Rightarrow> unit yamux_result" where
  "apply_op (Poll now) s = poll now s"
| "apply_op OpenStream s = discard (open_stream s)"
| "apply_op (Send i data) s = send i data s"
| "apply_op (CloseWrite i) s = close_write i s"
| "apply_op (Reset i) s = reset i s"
| "apply_op (GoAway code) s = (go_away code s, Inr ())"
| "apply_op (HandleData bs) s = handle_data bs s"
| "apply_op PollOutput s = discard (poll_output s)"

text \<open>Rust bounds every slice by the address space.\<close>

fun op_fits :: "yamux_op \<Rightarrow> bool" where
  "op_fits (HandleData bs) = slice_fits bs"
| "op_fits _ = True"

inductive reachable :: "yamux_session \<Rightarrow> bool" where
  start: "with_config role config = Inr s \<Longrightarrow> reachable s"
| step: "reachable s \<Longrightarrow> op_fits op \<Longrightarrow> reachable (fst (apply_op op s))"

section \<open>Every reachable session satisfies the invariant\<close>

lemma yamux_inv_start:
  assumes "with_config role config = Inr s"
  shows "yamux_inv s" and "decoder_small s"
proof -
  have s: "s = from_validated_config role config" and "config_ok config"
    using assms by (auto simp: with_config_def config_ok_def split: if_splits)
  then show "yamux_inv s"
    by (auto simp: yamux_inv_def from_validated_config_def frame_decoder_new_def decoder_inv_def
        local_id_def intro!: streams_inv_nil split: yamux_role.split)
  show "decoder_small s"
    by (simp add: s decoder_small_def from_validated_config_def frame_decoder_new_def unread_def HEADER_LEN_def)
qed

lemma discard_simps [simp]: "fst (discard r) = fst r" "safe (discard r) = safe r"
  by (cases r; cases "snd r"; simp add: discard_def safe_def)+

text \<open>The local operations leave the decoder alone or clear it.\<close>

definition keeps_decoder :: "yamux_session \<Rightarrow> yamux_session \<Rightarrow> bool" where
  "keeps_decoder s s' \<longleftrightarrow>
     y_config s' = y_config s \<and> (y_decoder s' = y_decoder s \<or> y_decoder s' = decoder_clear (y_decoder s))"

lemma keeps_decoder_small: "keeps_decoder s s' \<Longrightarrow> decoder_small s \<Longrightarrow> decoder_small s'"
  by (auto simp: keeps_decoder_def decoder_small_def HEADER_LEN_def)

lemma fixed_keeps_decoder: "fixed_fields s' = fixed_fields s \<Longrightarrow> keeps_decoder s s'"
  by (simp add: fixed_fields_def keeps_decoder_def)

lemma fixed_send [simp]: "fixed_fields (fst (send i data s)) = fixed_fields s"
  by (auto simp: send_def Let_def split: sum.split option.split prod.split)

lemma fixed_close_write [simp]: "fixed_fields (fst (close_write i s)) = fixed_fields s"
  by (auto simp: close_write_def Let_def split: sum.split option.split)

lemma fixed_reset [simp]: "fixed_fields (fst (reset i s)) = fixed_fields s"
  by (auto simp: reset_def Let_def split: sum.split option.split)

lemma fixed_poll [simp]: "fixed_fields (fst (poll now s)) = fixed_fields s"
  by (auto simp: poll_def Let_def fixed_fields_def split: sum.split option.split)

lemma fixed_poll_output [simp]: "fixed_fields (fst (poll_output s)) = fixed_fields s"
proof -
  have pop: "fixed_fields (fst (pop_pending s')) = fixed_fields s'" for s'
    by (auto simp: pop_pending_def fixed_fields_def split: list.split)
  have "fixed_fields (fst (materialize_deferred_control s)) = fixed_fields s"
    by (auto simp: materialize_deferred_control_def Let_def split: option.split sum.split)
  then have "fixed_fields (fst (sbind (materialize_deferred_control s) (\<lambda>_ s1. pop_pending s1))) = fixed_fields s"
    by (rule fixed_sbind) (simp add: pop)
  then show ?thesis
    by (cases "y_pending s") (simp_all add: poll_output_def pop, simp add: fixed_fields_def)
qed

lemma keeps_decoder_local:
  "keeps_decoder s (fst (open_stream s))" "keeps_decoder s (go_away code s)"
  by (auto simp: open_stream_def go_away_def close_all_streams_def keeps_decoder_def Let_def
      split: sum.split option.split)

lemma apply_op_safe:
  assumes "yamux_inv s" and "decoder_small s" and "op_fits op"
  shows "safe (apply_op op s)" and "decoder_small (fst (apply_op op s))"
  using assms handle_data_safe [OF assms(1,2)]
  by (cases op; auto simp: safe_poll safe_open_stream safe_send safe_close_write safe_reset
      yamux_inv_go_away safe_poll_output
      intro: keeps_decoder_small [OF fixed_keeps_decoder] keeps_decoder_small [OF keeps_decoder_local(1)]
        keeps_decoder_small [OF keeps_decoder_local(2)])+

lemma reachable_inv: "reachable s \<Longrightarrow> yamux_inv s \<and> decoder_small s"
proof (induction rule: reachable.induct)
  case (start role config s)
  then show ?case using yamux_inv_start by blast
next
  case (step s op)
  then show ?case using apply_op_safe [of s op] by (auto simp: safe_def)
qed

lemma reachable_run: "reachable s \<Longrightarrow> list_all op_fits ops \<Longrightarrow> reachable (fold (\<lambda>op s. fst (apply_op op s)) ops s)"
  by (induction ops arbitrary: s) (auto intro: reachable.step)

end
