(* ===== verification/Yamux_Properties.thy ===== *)
theory Yamux_Properties
  imports Yamux_Reachable
begin

text \<open>
  The correctness properties of Yamux sessions: safety, accounting, flow control,
  stream identifiers, the order of the bytes of a stream, failing closed, keepalive.
\<close>

section \<open>A session for the witnesses\<close>

definition wit_session :: yamux_session where
  "wit_session = fst (apply_op OpenStream (yamux_new Client))"

definition wit_stream :: stream_state where
  "wit_stream =
     \<lparr>st_locally_opened = True, st_pending_open = Some OpenSyn, st_acknowledged = False,
      st_send_window = 262144, st_receive_window = 262144, st_delivered_since_update = 0,
      st_pending_credit = 0, st_send_buffer = [], st_buffered_send = 0, st_close_pending = False,
      st_local_write_closed = False, st_remote_write_closed = False\<rparr>"

lemma yamux_new_reachable: "reachable (yamux_new role)"
  by (rule reachable.start [of role yamux_config_default])
     (simp add: with_config_def yamux_config_default_def yamux_new_def DEFAULT_RECEIVE_WINDOW_def)

lemma open_stream_new:
  "open_stream (yamux_new Client) = ((yamux_new Client)\<lparr>y_next_stream_id := Some 3, y_streams := [(1, wit_stream)]\<rparr>, Inr 1)"
  by (simp add: open_stream_def yamux_new_def from_validated_config_def ensure_active_def
      yamux_config_default_def u32_checked_add_def stream_outbound_def initial_credit_def
      DEFAULT_RECEIVE_WINDOW_def put_stream_def wit_stream_def)

lemma wit_session_eq:
  "wit_session = (yamux_new Client)\<lparr>y_next_stream_id := Some 3, y_streams := [(1, wit_stream)]\<rparr>"
  by (simp add: wit_session_def discard_def open_stream_new)

lemma wit_reachable: "reachable wit_session"
  unfolding wit_session_def by (rule reachable.step [OF yamux_new_reachable]) simp

lemma wit_fields:
  "y_streams wit_session = [(1, wit_stream)]" "y_pending wit_session = []"
  "y_config wit_session = yamux_config_default" "y_role wit_session = Client"
  "ensure_active wit_session = Inr ()" "y_total_buffered_send wit_session = 0"
  "y_last_activity_ms wit_session = None" "y_failed wit_session = False"
  by (simp_all add: wit_session_eq yamux_new_def from_validated_config_def ensure_active_def)

section \<open>Safety\<close>

text \<open>
  C1. Whatever the peer sends and in whatever order the host calls, no method of a
  session panics (no failed \<open>expect\<close>, no arithmetic underflow) and none loops
  forever: every call returns a value or one of the documented errors.
\<close>

theorem yamux_no_panic:
  assumes "reachable s" and "op_fits op"
  shows "snd (apply_op op s) \<noteq> Inl Panic \<and> snd (apply_op op s) \<noteq> Inl Diverge"
  using apply_op_safe(1) [of s op] reachable_inv [OF assms(1)] assms(2) by (simp add: safe_def)

theorem yamux_no_panic_witness:
  "snd (apply_op (HandleData [1, 2, 3]) wit_session) \<noteq> Inl Panic \<and>
   snd (apply_op (HandleData [1, 2, 3]) wit_session) \<noteq> Inl Diverge"
  using yamux_no_panic [OF wit_reachable, of "HandleData [1, 2, 3]"] by (simp add: slice_fits_def)

text \<open>
  C5. The send queues are accounted for exactly and bounded: the session's total is the
  number of bytes queued over all streams, within the configured aggregate limit; the
  number of streams is within its limit; each stream's counter is the number of its
  queued bytes, within the per-stream limit; and a stream has queued bytes only while
  the peer has left it no window.
\<close>

theorem yamux_send_queues_accounted:
  assumes "reachable s"
  shows "y_total_buffered_send s = sum_list (map (\<lambda>(i, st). length (concat (st_send_buffer st))) (y_streams s))
         \<and> y_total_buffered_send s \<le> cfg_max_total_buffered_send (y_config s)
         \<and> length (y_streams s) \<le> cfg_max_streams (y_config s)
         \<and> (\<forall>(i, st) \<in> set (y_streams s).
              st_buffered_send st = length (concat (st_send_buffer st)) \<and>
              st_buffered_send st \<le> cfg_max_buffered_send (y_config s) \<and>
              (st_send_buffer st \<noteq> [] \<longrightarrow> st_send_window st = 0))"
proof -
  have inv: "yamux_inv s" using reachable_inv [OF assms] by simp
  have each: "stream_inv (y_config s) st" if "(i, st) \<in> set (y_streams s)" for i st
    using that yamux_inv_stream(1) [OF inv] yamux_inv_wf [OF inv] by (simp add: bt_mem_iff)
  have "bt_sum st_buffered_send (y_streams s) =
      sum_list (map (\<lambda>(i, st). length (concat (st_send_buffer st))) (y_streams s))"
    unfolding bt_sum_def using each
    by (intro arg_cong [where f = sum_list] map_cong) (auto simp: stream_inv_def stream_acct_def)
  with yamux_inv_streams [OF inv] each show ?thesis
    by (fastforce simp: streams_inv_def stream_inv_def stream_acct_def)
qed

theorem yamux_send_queues_accounted_witness:
  "y_total_buffered_send wit_session = 0 \<and> length (y_streams wit_session) \<le> 256"
  using yamux_send_queues_accounted [OF wit_reachable]
  by (simp add: wit_fields yamux_config_default_def)

text \<open>
  C4. Flow-control credit is conserved: for every stream, the credit the peer still has,
  the bytes delivered since the last grant and the credit about to be granted add up to
  the configured receive window. So once the host has drained the outputs, the peer may
  send at least half a window on every stream: a stream never stalls for lack of credit.
\<close>

theorem yamux_receive_credit_conserved:
  assumes "reachable s" and "(i, st) \<in> set (y_streams s)"
  shows "unat (st_receive_window st) + unat (st_delivered_since_update st) + unat (st_pending_credit st)
           = unat (cfg_receive_window (y_config s))
         \<and> (is_idle s \<longrightarrow> unat (cfg_receive_window (y_config s)) \<le> 2 * unat (st_receive_window st))"
proof -
  have inv: "yamux_inv s" using reachable_inv [OF assms(1)] by simp
  have "stream_inv (y_config s) st"
    using assms(2) yamux_inv_stream(1) [OF inv] yamux_inv_wf [OF inv] by (simp add: bt_mem_iff)
  then have acct: "unat (st_receive_window st) + unat (st_delivered_since_update st) + unat (st_pending_credit st)
      = unat (cfg_receive_window (y_config s))"
    and half: "unat (st_delivered_since_update st) \<le> unat (cfg_receive_window (y_config s)) div 2"
    by (simp_all add: stream_inv_def stream_acct_def)
  have "unat (st_pending_credit st) = 0" if "is_idle s"
    using that assms(2) by (auto simp: is_idle_def list_all_iff has_deferred_control_def)
  with acct half show ?thesis by auto
qed

theorem yamux_receive_credit_conserved_witness:
  "unat (st_receive_window wit_stream) + unat (st_delivered_since_update wit_stream)
     + unat (st_pending_credit wit_stream) = 262144"
  using yamux_receive_credit_conserved [OF wit_reachable, of 1 wit_stream]
  by (simp add: wit_fields yamux_config_default_def DEFAULT_RECEIVE_WINDOW_def)

text \<open>
  C8. A peer cannot make a session hold more undecoded bytes than twice one frame of the
  largest accepted size, however it cuts its frames.
\<close>

theorem yamux_receive_buffer_bounded:
  assumes "reachable s"
  shows "length (fd_buffer (y_decoder s)) < 2 * (HEADER_LEN + unat (cfg_max_frame_len (y_config s)))"
proof -
  have "decoder_inv (y_decoder s)" "decoder_small s"
    using reachable_inv [OF assms] yamux_inv_decoder by auto
  with buffer_le_unread [of "y_decoder s"] show ?thesis by (simp add: decoder_small_def)
qed

theorem yamux_receive_buffer_bounded_witness:
  "length (fd_buffer (y_decoder wit_session)) < 2 * (12 + 1048576)"
  using yamux_receive_buffer_bounded [OF wit_reachable]
  by (simp add: wit_fields yamux_config_default_def HEADER_LEN_def)

section \<open>Stream identifiers\<close>

lemma apply_op_below_next:
  assumes "below_next (y_next_stream_id s) i"
  shows "below_next (y_next_stream_id (fst (apply_op op s))) i"
proof -
  have fixed: "below_next (y_next_stream_id s') i" if "fixed_fields s' = fixed_fields s" for s'
    using that assms by (simp add: fixed_fields_def)
  have loop: "y_next_stream_id (fst (handle_loop s')) = y_next_stream_id s'" for s'
  proof (induction s' rule: handle_loop.induct)
    case (1 s)
    have keep: "y_next_stream_id s1 = y_next_stream_id s" if "process_frame f (s\<lparr>y_decoder := d\<rparr>) = (s1, r)" for f d s1 r
      using fixed_process_frame [of f "s\<lparr>y_decoder := d\<rparr>"] that by (simp add: fixed_fields_def)
    have fail: "y_next_stream_id (fst (fail_protocol e s')) = y_next_stream_id s'" for e s'
      by (simp add: fail_protocol_def Let_def)
    show ?case
      by (subst handle_loop.simps)
         (use "1" in \<open>auto simp: Let_def fail keep split: prod.split sum.split fault.split option.split\<close>)
  qed
  have "below_next (u32_checked_add n 2) i" if "below_next (Some n) i" for n
    using that by (auto simp: below_next_def dest: u32_checked_add_2(1) split: option.split)
  with assms have "below_next (y_next_stream_id (fst (open_stream s))) i"
    by (auto simp: open_stream_def Let_def split: sum.split option.split)
  moreover have "y_next_stream_id (fst (handle_data bs s)) = y_next_stream_id s" for bs
    by (simp add: handle_data_def loop)
  moreover have "y_next_stream_id (go_away code s) = y_next_stream_id s" for code
    by (simp add: go_away_def Let_def close_all_streams_def)
  ultimately show ?thesis using assms fixed by (cases op) simp_all
qed

text \<open>
  C7. Locally opened streams get fresh identifiers of this side's parity: the identifier
  is not zero, is odd for a client and even for a server, is not tracked yet, is tracked
  afterwards, and no later call in any run of the session returns it again; identifiers
  only grow.
\<close>

theorem yamux_local_ids_fresh:
  assumes "reachable s" and "open_stream s = (s1, Inr i)"
    and "s2 = fold (\<lambda>op s. fst (apply_op op s)) ops s1" and "open_stream s2 = (s3, Inr j)"
  shows "i \<noteq> 0 \<and> (odd i \<longleftrightarrow> y_role s = Client) \<and> bt_get (y_streams s) i = None
         \<and> bt_get (y_streams s1) i \<noteq> None \<and> i < j"
proof -
  have inv: "yamux_inv s" using reachable_inv [OF assms(1)] by simp
  obtain "next": "y_next_stream_id s = Some i" and s1: "y_next_stream_id s1 = u32_checked_add i 2"
    and tracked: "bt_get (y_streams s1) i \<noteq> None"
    using assms(2)
    by (auto simp: open_stream_def Let_def split: sum.splits option.splits if_splits)
  have id: "i \<noteq> 0" "local_id (y_role s) i" using yamux_inv_next_id [OF inv] "next" by auto
  have fresh: "bt_get (y_streams s) i = None"
  proof (rule ccontr)
    assume "bt_get (y_streams s) i \<noteq> None"
    then obtain st where "bt_get (y_streams s) i = Some st" by auto
    from yamux_inv_entry [OF inv this] "next" id show False by (auto simp: entry_inv_def below_next_def)
  qed
  have "below_next (y_next_stream_id s1) i"
    by (auto simp: s1 below_next_def dest: u32_checked_add_2(1) split: option.split)
  then have "below_next (y_next_stream_id s2) i"
    unfolding assms(3) by (induction ops arbitrary: s1) (auto simp: apply_op_below_next)
  moreover have "y_next_stream_id s2 = Some j"
    using assms(4) by (auto simp: open_stream_def Let_def split: sum.splits option.splits if_splits)
  ultimately have "i < j" by (simp add: below_next_def)
  with id fresh tracked show ?thesis by (auto simp: local_id_def split: yamux_role.splits)
qed

theorem yamux_local_ids_fresh_witness:
  "\<exists>s1 s3. open_stream (yamux_new Client) = (s1, Inr 1) \<and> open_stream s1 = (s3, Inr 3) \<and>
     (1 :: u32) < 3 \<and> bt_get (y_streams s1) 1 \<noteq> None"
proof -
  let ?s1 = "(yamux_new Client)\<lparr>y_next_stream_id := Some 3, y_streams := [(1, wit_stream)]\<rparr>"
  have "open_stream ?s1 = (fst (open_stream ?s1), Inr 3)"
    by (simp add: open_stream_def yamux_new_def from_validated_config_def ensure_active_def
      yamux_config_default_def u32_checked_add_def stream_outbound_def initial_credit_def
      DEFAULT_RECEIVE_WINDOW_def)
  with yamux_local_ids_fresh [OF yamux_new_reachable open_stream_new, of ?s1 "[]"] open_stream_new
  show ?thesis by fastforce
qed

section \<open>The bytes of a stream\<close>

text \<open>
  The payload an output puts on the wire for a stream, read back from the encoded frame,
  and the bytes a session still holds for it.
\<close>

definition sent_on :: "u32 \<Rightarrow> yamux_output \<Rightarrow> bytes" where
  "sent_on i out =
     (case out of
        Outbound bs \<Rightarrow>
          (case yamux_step (- 1) bs of
             Done f n \<Rightarrow> if fr_type f = DataFrame \<and> fr_stream_id f = i then fr_payload f else []
           | _ \<Rightarrow> [])
      | _ \<Rightarrow> [])"

definition wire_bytes :: "u32 \<Rightarrow> yamux_output list \<Rightarrow> bytes" where
  "wire_bytes i outs = concat (map (sent_on i) outs)"

definition queued_bytes :: "u32 \<Rightarrow> yamux_session \<Rightarrow> bytes" where
  "queued_bytes i s = (case bt_get (y_streams s) i of None \<Rightarrow> [] | Some st \<Rightarrow> concat (st_send_buffer st))"

lemma sent_on_encode:
  "frame_wf f \<Longrightarrow> sent_on i (Outbound (encode f)) =
     (if fr_type f = DataFrame \<and> fr_stream_id f = i then fr_payload f else [])"
  using yamux_step_encode [of "- 1" f "[]"] by (simp add: sent_on_def frame_accepted_def)

lemma wire_bytes_simps [simp]:
  "wire_bytes i [] = []" "wire_bytes i (xs @ ys) = wire_bytes i xs @ wire_bytes i ys"
  "wire_bytes i [out] = sent_on i out"
  by (simp_all add: wire_bytes_def)

lemma sent_on_events [simp]:
  "sent_on i (StreamClosed j) = []" "sent_on i (RemoteWriteClosed j) = []" "sent_on i (StreamData j d) = []"
  "sent_on i (IncomingStream j) = []" "sent_on i (GoAwayReceived c) = []"
  by (simp_all add: sent_on_def)

lemma wire_bytes_carries:
  "list_all (carries i n) fs \<Longrightarrow>
   wire_bytes j (map (Outbound \<circ> encode) fs) = (if j = i then concat (map fr_payload fs) else [])"
  by (induction fs) (auto simp: wire_bytes_def carries_def sent_on_encode)

lemma raw_data_wf: "i \<noteq> 0 \<Longrightarrow> flags AND NOT STREAM_FLAGS = 0 \<Longrightarrow> length p < 4294967296 \<Longrightarrow> frame_wf (raw_data i flags p)"
  using constructor_wf(1) [of i flags p] by simp

lemma queue_frames_pending [simp]: "y_pending (s\<lparr>y_total_buffered_send := n\<rparr>) = y_pending s"
  by simp

text \<open>
  C2. Sending is atomic and keeps the order of bytes. A call that is refused, for a full
  queue or any other reason, changes nothing. A call that is accepted appends its bytes
  to the stream and to no other: what is on the wire followed by what is queued grows by
  exactly the data, in order, with no byte lost, duplicated or moved.
\<close>

theorem yamux_send_in_order:
  assumes "reachable s" and "send i data s = (s', r)"
  shows "(r \<noteq> Inr () \<longrightarrow> s' = s) \<and>
         (r = Inr () \<longrightarrow>
            wire_bytes i (y_pending s') @ queued_bytes i s' =
              wire_bytes i (y_pending s) @ queued_bytes i s @ data \<and>
            (\<forall>j. j \<noteq> i \<longrightarrow> wire_bytes j (y_pending s') = wire_bytes j (y_pending s) \<and>
                          queued_bytes j s' = queued_bytes j s))"
proof (cases "ensure_active s = Inr () \<and> (\<exists>st. bt_get (y_streams s) i = Some st \<and>
      \<not> st_local_write_closed st \<and> \<not> st_close_pending st \<and>
      (let n = min (length data) (unat (st_send_window st)) in
       \<not> over_limit (st_buffered_send st) (length data - n) (cfg_max_buffered_send (y_config s)) \<and>
       \<not> over_limit (y_total_buffered_send s) (length data - n) (cfg_max_total_buffered_send (y_config s))))")
  case False
  from send_refused [OF this] assms(2) show ?thesis by auto
next
  case True
  have inv: "yamux_inv s" using reachable_inv [OF assms(1)] by simp
  obtain st n where active: "ensure_active s = Inr ()" and get: "bt_get (y_streams s) i = Some st"
    and opn: "\<not> st_local_write_closed st" "\<not> st_close_pending st"
    and n: "n = min (length data) (unat (st_send_window st))"
    and room: "\<not> over_limit (st_buffered_send st) (length data - n) (cfg_max_buffered_send (y_config s))"
      "\<not> over_limit (y_total_buffered_send s) (length data - n) (cfg_max_total_buffered_send (y_config s))"
    using True by (auto simp: Let_def)
  have st: "stream_inv (y_config s) st" and i: "i \<noteq> 0" using yamux_inv_stream [OF inv get] by simp_all
  obtain fs st' where
    eq: "send i data s = (queue_frames fs ((put_stream i st' s)
       \<lparr>y_total_buffered_send := y_total_buffered_send s + (length data - n)\<rparr>), Inr ())"
    and fs: "concat (map fr_payload fs) = take n data"
      "if data = [] then fs = (if st_pending_open st = None then [] else [raw_data i (open_bits st) []])
       else list_all (carries i (unat (cfg_max_frame_len (y_config s)))) fs"
    and buf: "concat (st_send_buffer st') = concat (st_send_buffer st) @ drop n data"
    by (rule send_ok [OF inv active get opn n room])
  have wire: "wire_bytes j (map (Outbound \<circ> encode) fs) = (if j = i then take n data else [])" for j
  proof (cases "data = []")
    case True
    with fs i show ?thesis by (simp add: wire_bytes_def sent_on_encode raw_data_wf)
  next
    case False
    with fs wire_bytes_carries show ?thesis by auto
  qed
  have empty: "concat (st_send_buffer st) = [] \<or> n = 0"
    using st n by (auto simp: stream_inv_def)
  then have shift: "take n data @ concat (st_send_buffer st) @ drop n data = concat (st_send_buffer st) @ data"
    by (metis append.assoc append_Nil append_Nil2 append_take_drop_id drop0 take0)
  have "wire_bytes i (y_pending s') @ queued_bytes i s' =
      wire_bytes i (y_pending s) @ queued_bytes i s @ data"
    using assms(2) eq get buf wire shift by (auto simp: queued_bytes_def)
  moreover have "wire_bytes j (y_pending s') = wire_bytes j (y_pending s) \<and> queued_bytes j s' = queued_bytes j s"
    if "j \<noteq> i" for j
    using assms(2) eq wire that by (auto simp: queued_bytes_def)
  ultimately show ?thesis using assms(2) eq by auto
qed

theorem yamux_send_in_order_witness:
  "\<exists>s'. send 1 [7, 8] wit_session = (s', Inr ()) \<and> wire_bytes 1 (y_pending s') @ queued_bytes 1 s' = [7, 8]"
proof -
  have "\<exists>s'. send 1 [7, 8] wit_session = (s', Inr ())"
    using send_refused [of wit_session 1 "[7, 8]"]
    by (simp add: wit_fields send_def wit_stream_def over_limit_def usize_checked_add_def usize_max_def
        yamux_config_default_def frame_immediate_def send_loop.simps Let_def)
  then obtain s' where s': "send 1 [7, 8] wit_session = (s', Inr ())" by blast
  with yamux_send_in_order [OF wit_reachable s'] show ?thesis
    by (simp add: wit_fields queued_bytes_def wit_stream_def)
qed

lemma wire_bytes_fin: "i \<noteq> 0 \<Longrightarrow> wire_bytes j (map (Outbound \<circ> encode) (fin_frames i st)) = []"
  by (simp add: fin_frames_def wire_bytes_def sent_on_encode raw_data_wf)

lemma pending_remove_stream:
  "wire_bytes j (y_pending (fst (remove_stream i notify s))) = wire_bytes j (y_pending s)"
  by (simp add: remove_stream_def Let_def split: option.split)

lemma take_min: "take (min (length xs) k) xs = take k xs"
  and drop_min: "drop (min (length xs) k) xs = drop k xs"
  by (simp_all add: min_def)

lemma flushed_bytes:
  assumes "flushed i m st n fs st'" and "stream_acct c st"
  shows "concat (map fr_payload fs) = take (unat (st_send_window st)) (concat (st_send_buffer st))"
    and "concat (st_send_buffer st') = drop (unat (st_send_window st)) (concat (st_send_buffer st))"
proof -
  have split: "concat (map fr_payload fs) @ concat (st_send_buffer st') = concat (st_send_buffer st)"
    and len: "length (concat (map fr_payload fs)) = min (length (concat (st_send_buffer st))) (unat (st_send_window st))"
    using assms by (simp_all add: flushed_def stream_acct_def)
  have "concat (map fr_payload fs) = take (length (concat (map fr_payload fs))) (concat (st_send_buffer st))"
    "concat (st_send_buffer st') = drop (length (concat (map fr_payload fs))) (concat (st_send_buffer st))"
    using split by (metis append_eq_conv_conj)+
  then show "concat (map fr_payload fs) = take (unat (st_send_window st)) (concat (st_send_buffer st))"
    "concat (st_send_buffer st') = drop (unat (st_send_window st)) (concat (st_send_buffer st))"
    unfolding len take_min drop_min .
qed

text \<open>
  C3. Credit from the peer releases exactly the bytes it pays for: a window update on a
  tracked stream puts the next bytes of that stream's queue on the wire, in order, as
  many as the new window allows, and keeps the rest queued.
\<close>

theorem yamux_window_update_releases:
  assumes "reachable s" and "ensure_active s = Inr ()" and "bt_get (y_streams s) i = Some st"
    and "unat (st_send_window st) + unat credit < 4294967296"
    and "window_update_frame i 0 credit = Inr f" and "process_frame f s = (s', r)"
  shows "r = Inr () \<and>
         wire_bytes i (y_pending s') =
           wire_bytes i (y_pending s) @ take (unat (st_send_window st) + unat credit) (queued_bytes i s) \<and>
         queued_bytes i s' = drop (unat (st_send_window st) + unat credit) (queued_bytes i s)"
proof -
  have inv: "yamux_inv s" using reachable_inv [OF assms(1)] by simp
  note get = assms(3)
  have st: "stream_inv (y_config s) st" and i: "i \<noteq> 0" using yamux_inv_stream [OF inv get] by simp_all
  define w where "w = st_send_window st + credit"
  have w: "u32_checked_add (st_send_window st) credit = Some w" "unat w = unat (st_send_window st) + unat credit"
    unfolding w_def using u32_checked_add_fits [OF assms(4)] by simp_all
  have f: "fr_type f = WindowUpdateFrame" "fr_stream_id f = i" "fr_flags f = 0" "fr_value f = credit"
    using assms(5) by (simp_all add: window_update_frame_Inr_iff)
  have eq: "process_frame f s = on_window_update_tracked f (put_stream i (st\<lparr>st_send_window := w\<rparr>) s)"
    using f w get by (simp add: process_frame_def on_window_update_def Let_def)
  have ack: "ack_seen f (st\<lparr>st_send_window := w\<rparr>) = st\<lparr>st_send_window := w\<rparr>"
    using f by (simp add: ack_seen_def)
  let ?st = "st\<lparr>st_send_window := w\<rparr>"
  have pre: "flush_pre (y_config s) ?st" using stream_inv_flush_pre(2) [OF st] .
  obtain st' n fs t where
    fl: "flushed i (unat (cfg_max_frame_len (y_config s))) ?st n fs st'"
    and t: "t = queue_frames (fs @ fin_frames i st') ((put_stream i (after_flush st') s)
            \<lparr>y_total_buffered_send := y_total_buffered_send s - n\<rparr>)"
    and flush: "flush_buffered i (put_stream i ?st s) =
       (if st_send_buffer st' = [] \<and> st_close_pending st' \<and> st_remote_write_closed st'
        then remove_stream i True t else (t, Inr ()))"
    by (rule flush_session [OF inv get pre]) simp
  have "stream_acct (y_config s) ?st" using pre by (simp add: flush_pre_def)
  note bytes = flushed_bytes [OF fl this]
  have carries: "list_all (carries i (unat (cfg_max_frame_len (y_config s)))) fs"
    using fl by (simp add: flushed_def)
  have wire: "wire_bytes i (y_pending t) = wire_bytes i (y_pending s) @ take (unat w) (queued_bytes i s)"
    using wire_bytes_carries [OF carries, of i] wire_bytes_fin [OF i, of i st'] bytes(1) get
    by (simp add: t queued_bytes_def)
  show ?thesis
  proof (cases "st_send_buffer st' = [] \<and> st_close_pending st' \<and> st_remote_write_closed st'")
    case True
    obtain t' where t': "remove_stream i True t = (t', Inr ())" "bt_get (y_streams t') i = None"
    proof -
      have "safe (on_window_update_tracked f (put_stream i ?st s))"
        using safe_window_tracked [OF inv, of f st ?st] get pre f by simp
      then have "snd (remove_stream i True t) \<noteq> Inl Panic" 
        using True flush f ack
        by (cases "remove_stream i True t"; cases "snd (remove_stream i True t)")
           (auto simp: on_window_update_tracked_def Let_def)
      moreover have "snd (remove_stream i True t) = Inr () \<or> snd (remove_stream i True t) = Inl Panic"
        by (simp add: remove_stream_def Let_def split: option.split)
      moreover have "bt_get (y_streams (fst (remove_stream i True t))) i = None"
        using yamux_inv_wf [OF inv] by (intro remove_stream_gone) (simp add: t)
      ultimately show ?thesis using that by (cases "remove_stream i True t") auto
    qed
    have "process_frame f s = (t', Inr ())"
      unfolding eq using True flush f ack t' by (simp add: on_window_update_tracked_def Let_def)
    moreover have "wire_bytes i (y_pending t') = wire_bytes i (y_pending t)"
      using pending_remove_stream [of i i True t] t'(1) by simp
    moreover have "drop (unat w) (queued_bytes i s) = []"
      using bytes(2) True get by (simp add: queued_bytes_def)
    ultimately show ?thesis
      using assms(6) wire w(2) t'(2) by (auto simp: queued_bytes_def)
  next
    case False
    have "process_frame f s = (put_stream i (after_flush st') t, Inr ())"
    proof -
      have "stream_inv (y_config s) (after_flush st')" using after_flush_inv(2) [OF pre fl] False by blast
      then have "\<not> (st_local_write_closed (after_flush st') \<and> st_remote_write_closed (after_flush st'))"
        by (simp add: stream_inv_def)
      moreover have "flush_buffered i (put_stream i ?st s) = (t, Inr ())"
        unfolding flush by (rule if_not_P [OF False])
      moreover have "bt_get (y_streams t) i = Some (after_flush st')" by (simp add: t)
      ultimately show ?thesis
        unfolding eq using f ack by (auto simp: on_window_update_tracked_def Let_def)
    qed
    then show ?thesis
      using assms(6) wire w(2) bytes(2) get by (auto simp: queued_bytes_def)
  qed
qed

definition wit_update :: frame where
  "wit_update = \<lparr>fr_type = WindowUpdateFrame, fr_flags = 0, fr_stream_id = 1, fr_value = 5, fr_payload = []\<rparr>"

theorem yamux_window_update_releases_witness:
  "snd (process_frame wit_update wit_session) = Inr () \<and>
   queued_bytes 1 (fst (process_frame wit_update wit_session)) = []"
proof -
  have "window_update_frame 1 0 5 = Inr wit_update"
    by (simp add: window_update_frame_Inr_iff wit_update_def)
  moreover have "unat (st_send_window wit_stream) + unat (5 :: u32) < 4294967296"
    by (simp add: wit_stream_def)
  ultimately show ?thesis
    using yamux_window_update_releases [OF wit_reachable, of 1 wit_stream 5 wit_update
        "fst (process_frame wit_update wit_session)" "snd (process_frame wit_update wit_session)"]
    by (simp add: wit_fields queued_bytes_def wit_stream_def)
qed

section \<open>Failing closed\<close>

text \<open>
  C6. A protocol violation fails the session closed. Whenever \<open>handle_data\<close> of an active
  session returns an error, a run of frames was processed without one and then came the
  violation whose error is returned. The session has dropped every stream, its only outputs
  are a protocol GoAway and the closing of exactly the streams that were tracked when the
  violation was noticed, in ascending order, and every further call, except for draining
  those outputs, is refused and changes nothing.
\<close>

theorem yamux_fails_closed:
  assumes "reachable s" and "slice_fits bs" and "ensure_active s = Inr ()"
    and "handle_data bs s = (s', Inl e)"
  shows "y_failed s' \<and> y_streams s' = [] \<and> y_total_buffered_send s' = 0
         \<and> (\<exists>fs t x u. handled (s\<lparr>y_decoder := decoder_push bs (y_decoder s)\<rparr>) fs t \<and>
              violates t x u \<and> e = Err x \<and> sorted_wrt (<) (bt_keys (y_streams u)) \<and>
              y_pending s' = Outbound (encode (go_away_frame 1)) # map StreamClosed (bt_keys (y_streams u)))
         \<and> apply_op (Poll now) s' = (s', Inl (Err Failed))
         \<and> apply_op OpenStream s' = (s', Inl (Err Failed))
         \<and> apply_op (Send i data) s' = (s', Inl (Err Failed))
         \<and> apply_op (CloseWrite i) s' = (s', Inl (Err Failed))
         \<and> apply_op (Reset i) s' = (s', Inl (Err Failed))
         \<and> apply_op (HandleData data) s' = (s', Inl (Err Failed))
         \<and> apply_op (GoAway code) s' = (s', Inr ())"
proof -
  have "yamux_inv s" "decoder_small s" using reachable_inv [OF assms(1)] by simp_all
  from handle_data_fails [OF this assms(2,3), of e] assms(4) obtain fs t x u where
    run: "handled (s\<lparr>y_decoder := decoder_push bs (y_decoder s)\<rparr>) fs t" "violates t x u" "yamux_inv u"
    and eq: "fail_protocol x u = (s', Inl e :: yamux_error fault + unit)" by auto
  have ids: "sorted_wrt (<) (bt_keys (y_streams u))"
    using yamux_inv_wf [OF run(3)] by (simp add: bt_wf_def)
  have failed: "y_failed s'" and "y_streams s' = []" "y_total_buffered_send s' = 0" and e: "e = Err x"
    and out: "y_pending s' = Outbound (encode (go_away_frame 1)) # map StreamClosed (bt_keys (y_streams u))"
    using eq by (auto simp: fail_protocol_def Let_def)
  moreover have "ensure_active s' = Inl Failed" using failed by (simp add: ensure_active_def)
  moreover have "\<exists>fs t x u. handled (s\<lparr>y_decoder := decoder_push bs (y_decoder s)\<rparr>) fs t \<and>
      violates t x u \<and> e = Err x \<and> sorted_wrt (<) (bt_keys (y_streams u)) \<and>
      y_pending s' = Outbound (encode (go_away_frame 1)) # map StreamClosed (bt_keys (y_streams u))"
    using run ids e out by blast
  ultimately show ?thesis
    by (simp add: poll_def open_stream_def send_def close_write_def reset_def handle_data_def
        go_away_def discard_def)
qed

definition wit_bad_version :: bytes where
  "wit_bad_version = [1, 0, 0, 0, 0, 0, 0, 0, 0, 0, 0, 0]"

theorem yamux_fails_closed_witness:
  "y_failed (fst (handle_data wit_bad_version wit_session)) \<and>
   y_streams (fst (handle_data wit_bad_version wit_session)) = [] \<and>
   y_pending (fst (handle_data wit_bad_version wit_session)) =
     [Outbound (encode (go_away_frame 1)), StreamClosed 1]"
proof -
  let ?d = "decoder_push wit_bad_version (y_decoder wit_session)"
  have d: "y_decoder wit_session = frame_decoder_new 1048576"
    by (simp add: wit_session_eq yamux_new_def from_validated_config_def yamux_config_default_def)
  have "yamux_step (fd_max_frame_len ?d) (unread ?d) = Bad (UnsupportedVersion 1)"
    by (simp add: d decoder_push_def frame_decoder_new_def unread_def wit_bad_version_def yamux_step_def
        HEADER_LEN_def parse_header_def)
  moreover have "decoder_inv ?d"
    by (simp add: d decoder_push_def frame_decoder_new_def decoder_inv_def wit_bad_version_def usize_max_def)
  ultimately have bad: "next_frame ?d = (?d, Inl (Err (UnsupportedVersion 1)))"
    by (intro next_frame_None_iff(2))
  then have "handle_loop (wit_session\<lparr>y_decoder := ?d\<rparr>) =
      fail_protocol (UnsupportedVersion 1) (wit_session\<lparr>y_decoder := ?d\<rparr>)"
    by (subst handle_loop.simps) simp
  then have "handle_data wit_bad_version wit_session =
      (fst (handle_data wit_bad_version wit_session), Inl (Err (UnsupportedVersion 1)))"
    using wit_fields(5) by (simp add: handle_data_def ensure_active_iff fail_protocol_def Let_def)
  moreover have "slice_fits wit_bad_version" by (simp add: slice_fits_def wit_bad_version_def)
  ultimately obtain fs t x u where
    run: "handled (wit_session\<lparr>y_decoder := ?d\<rparr>) fs t" "violates t x u" and
    out: "y_failed (fst (handle_data wit_bad_version wit_session))"
      "y_streams (fst (handle_data wit_bad_version wit_session)) = []"
      "y_pending (fst (handle_data wit_bad_version wit_session)) =
        Outbound (encode (go_away_frame 1)) # map StreamClosed (bt_keys (y_streams u))"
    using yamux_fails_closed [OF wit_reachable _ wit_fields(5)] by blast
  from run(1) have "t = wit_session\<lparr>y_decoder := ?d\<rparr>" by cases (simp_all add: bad)
  with run(2) have "y_streams u = y_streams wit_session" by (auto simp: bad elim: violatesE)
  with out show ?thesis by (simp add: wit_fields)
qed

section \<open>Keepalive\<close>

lemma u64_deadline:
  assumes "u64_saturating_add l k \<noteq> - 1" and "k \<noteq> 0"
  shows "u64_saturating_add l k \<le> now \<longleftrightarrow> k \<le> u64_saturating_sub now l"
proof -
  have fits: "unat l + unat k < 18446744073709551616" and eq: "u64_saturating_add l k = l + k"
    using assms(1) by (auto simp: u64_saturating_add_def split: if_splits)
  have lk: "unat (l + k) = unat l + unat k" using fits by (simp add: unat_word_ariths)
  have k: "0 < unat k" using assms(2) by (simp add: unat_gt_0)
  show ?thesis
  proof (cases "now < l")
    case True
    then have "unat now < unat l" by (simp add: word_less_nat_alt)
    then have "\<not> l + k \<le> now" unfolding word_le_nat_alt lk by linarith
    moreover have "\<not> k \<le> 0" using assms(2) by simp
    ultimately show ?thesis using True by (simp add: eq u64_saturating_sub_def)
  next
    case False
    then have le: "unat l \<le> unat now" by (simp add: word_le_nat_alt not_less)
    have "unat (now - l) = unat now - unat l" using False by (simp add: unat_sub not_less)
    then have "k \<le> now - l \<longleftrightarrow> unat l + unat k \<le> unat now"
      unfolding word_le_nat_alt using le by linarith
    then show ?thesis using False by (simp add: eq u64_saturating_sub_def word_le_nat_alt lk)
  qed
qed

text \<open>
  C9. Keepalive pings go out exactly at the announced deadline. If nothing was queued or
  received since the last sample, a poll queues one ping if the time has reached
  \<open>next_deadline\<close> and nothing otherwise, and after a ping the next deadline is one
  interval later; a session with traffic since the last sample queues no ping and moves
  its deadline one interval beyond the sample.
\<close>

theorem yamux_keepalive_at_deadline:
  assumes "ensure_active s = Inr ()"
  shows "(\<not> y_dirty s \<and> next_deadline s = Some t \<and> t \<noteq> - 1 \<longrightarrow>
            y_pending (fst (poll now s)) = y_pending s @
              (if t \<le> now then [Outbound (encode \<lparr>fr_type = PingFrame, fr_flags = FLAG_SYN, fr_stream_id = 0,
                                fr_value = y_next_ping_nonce s, fr_payload = []\<rparr>)] else []) \<and>
            (t \<le> now \<longrightarrow>
               next_deadline (fst (poll now s)) = Some (u64_saturating_add now KEEPALIVE_INTERVAL_MS))) \<and>
         (y_dirty s \<longrightarrow>
            y_pending (fst (poll now s)) = y_pending s \<and>
            next_deadline (fst (poll now s)) = Some (u64_saturating_add now KEEPALIVE_INTERVAL_MS))"
proof -
  have ping: "ping_frame FLAG_SYN n = Inr \<lparr>fr_type = PingFrame, fr_flags = FLAG_SYN, fr_stream_id = 0,
      fr_value = n, fr_payload = []\<rparr>" for n
    by (simp add: ping_frame_Inr_iff)
  have active: "\<not> y_failed s" "\<not> y_local_go_away s" "\<not> y_remote_go_away s"
    using assms by (simp_all add: ensure_active_iff)
  have interval: "KEEPALIVE_INTERVAL_MS \<noteq> 0" by (simp add: KEEPALIVE_INTERVAL_MS_def)
  have "u64_saturating_sub now now = 0" by (simp add: u64_saturating_sub_def)
  then have quiet: "\<not> KEEPALIVE_INTERVAL_MS \<le> u64_saturating_sub now now"
    using interval by simp
  have idle: "y_pending (fst (poll now s)) = y_pending s @ (if t \<le> now
        then [Outbound (encode \<lparr>fr_type = PingFrame, fr_flags = FLAG_SYN, fr_stream_id = 0,
                                fr_value = y_next_ping_nonce s, fr_payload = []\<rparr>)] else []) \<and>
      (t \<le> now \<longrightarrow> next_deadline (fst (poll now s)) = Some (u64_saturating_add now KEEPALIVE_INTERVAL_MS))"
    if clean: "\<not> y_dirty s" and deadline: "next_deadline s = Some t" and unsat: "t \<noteq> - 1"
  proof -
    obtain l where l: "y_last_activity_ms s = Some l" and t: "t = u64_saturating_add l KEEPALIVE_INTERVAL_MS"
      using deadline active by (auto simp: next_deadline_def split: option.splits)
    have "t \<le> now \<longleftrightarrow> KEEPALIVE_INTERVAL_MS \<le> u64_saturating_sub now l"
      using u64_deadline [of l KEEPALIVE_INTERVAL_MS now] unsat interval t by simp
    then show ?thesis
      using assms clean l active by (simp add: poll_def Let_def ping next_deadline_def)
  qed
  moreover have "y_pending (fst (poll now s)) = y_pending s \<and>
      next_deadline (fst (poll now s)) = Some (u64_saturating_add now KEEPALIVE_INTERVAL_MS)" if "y_dirty s"
    using assms active that quiet by (simp add: poll_def Let_def next_deadline_def)
  ultimately show ?thesis by blast
qed

theorem yamux_keepalive_at_deadline_witness:
  "length (y_pending (fst (poll 30000 (wit_session\<lparr>y_last_activity_ms := Some 0\<rparr>)))) = 1"
proof -
  let ?s = "wit_session\<lparr>y_last_activity_ms := Some 0\<rparr>"
  have "ensure_active ?s = Inr ()" using wit_fields(5) by (simp add: ensure_active_iff)
  moreover have "\<not> y_dirty ?s" by (simp add: wit_session_eq yamux_new_def from_validated_config_def)
  moreover have "next_deadline ?s = Some 30000"
    using wit_fields(5)
    by (simp add: next_deadline_def ensure_active_iff u64_saturating_add_def KEEPALIVE_INTERVAL_MS_def)
  ultimately show ?thesis
    using yamux_keepalive_at_deadline [of ?s 30000 30000] by (simp add: wit_fields)
qed

end
