(* ===== verification/Rust_Str.thy ===== *)
theory Rust_Str
  imports Prelude
begin

text \<open>
  Rust's \<open>str\<close> is a sequence of bytes that is valid UTF-8; strings are therefore
  modelled as byte lists and \<open>core::str::from_utf8\<close> as the validity check. String
  literals of the sources are ASCII. Decimal printing is what \<open>Display\<close> gives for an
  unsigned integer.
\<close>

type_synonym str = bytes

definition cont_byte :: "u8 \<Rightarrow> bool" where
  "cont_byte b \<longleftrightarrow> 0x80 \<le> b \<and> b \<le> 0xBF"

definition utf8_two :: "u8 \<Rightarrow> u8 \<Rightarrow> bool" where
  "utf8_two b c1 \<longleftrightarrow> 0xC2 \<le> b \<and> b \<le> 0xDF \<and> cont_byte c1"

definition utf8_three :: "u8 \<Rightarrow> u8 \<Rightarrow> u8 \<Rightarrow> bool" where
  "utf8_three b c1 c2 \<longleftrightarrow>
     0xE0 \<le> b \<and> b \<le> 0xEF \<and> cont_byte c1 \<and> (b = 0xE0 \<longrightarrow> 0xA0 \<le> c1) \<and>
     (b = 0xED \<longrightarrow> c1 \<le> 0x9F) \<and> cont_byte c2"

definition utf8_four :: "u8 \<Rightarrow> u8 \<Rightarrow> u8 \<Rightarrow> u8 \<Rightarrow> bool" where
  "utf8_four b c1 c2 c3 \<longleftrightarrow>
     0xF0 \<le> b \<and> b \<le> 0xF4 \<and> cont_byte c1 \<and> (b = 0xF0 \<longrightarrow> 0x90 \<le> c1) \<and>
     (b = 0xF4 \<longrightarrow> c1 \<le> 0x8F) \<and> cont_byte c2 \<and> cont_byte c3"

text \<open>The number of bytes of the first scalar value, \<open>0\<close> when it is ill-formed.\<close>

definition utf8_char_len :: "bytes \<Rightarrow> nat" where
  "utf8_char_len bs =
     (if 1 \<le> length bs \<and> bs ! 0 < 0x80 then 1
      else if 2 \<le> length bs \<and> utf8_two (bs ! 0) (bs ! 1) then 2
      else if 3 \<le> length bs \<and> utf8_three (bs ! 0) (bs ! 1) (bs ! 2) then 3
      else if 4 \<le> length bs \<and> utf8_four (bs ! 0) (bs ! 1) (bs ! 2) (bs ! 3) then 4
      else 0)"

lemma utf8_char_len_cases:
  assumes "utf8_char_len bs \<noteq> 0"
  obtains "utf8_char_len bs = 1" "1 \<le> length bs" "bs ! 0 < 0x80"
    | "utf8_char_len bs = 2" "2 \<le> length bs" "\<not> bs ! 0 < 0x80" "utf8_two (bs ! 0) (bs ! 1)"
    | "utf8_char_len bs = 3" "3 \<le> length bs" "\<not> bs ! 0 < 0x80" "\<not> utf8_two (bs ! 0) (bs ! 1)"
        "utf8_three (bs ! 0) (bs ! 1) (bs ! 2)"
    | "utf8_char_len bs = 4" "4 \<le> length bs" "\<not> bs ! 0 < 0x80" "\<not> utf8_two (bs ! 0) (bs ! 1)"
        "\<not> utf8_three (bs ! 0) (bs ! 1) (bs ! 2)" "utf8_four (bs ! 0) (bs ! 1) (bs ! 2) (bs ! 3)"
  using assms by (auto simp: utf8_char_len_def split: if_splits)

text \<open>The length depends on the bytes it counts only.\<close>

lemma utf8_char_len_agree:
  assumes "utf8_char_len bs \<noteq> 0" and "utf8_char_len bs \<le> length cs"
    and "\<And>i. i < utf8_char_len bs \<Longrightarrow> cs ! i = bs ! i"
  shows "utf8_char_len cs = utf8_char_len bs"
  using assms(1)
proof (cases rule: utf8_char_len_cases)
  case 1
  with assms show ?thesis by (simp add: utf8_char_len_def [of cs])
next
  case 2
  with assms show ?thesis by (simp add: utf8_char_len_def [of cs])
next
  case 3
  with assms show ?thesis by (simp add: utf8_char_len_def [of cs])
next
  case 4
  with assms show ?thesis by (simp add: utf8_char_len_def [of cs])
qed

lemma utf8_char_len_le: "utf8_char_len bs \<le> length bs"
  unfolding utf8_char_len_def by simp

lemma utf8_char_len_append: "utf8_char_len bs \<noteq> 0 \<Longrightarrow> utf8_char_len (bs @ ys) = utf8_char_len bs"
  using utf8_char_len_le [of bs] by (intro utf8_char_len_agree) (simp_all add: nth_append)

function utf8_valid :: "bytes \<Rightarrow> bool" where
  "utf8_valid bs =
     (if bs = [] then True
      else if utf8_char_len bs = 0 then False
      else utf8_valid (drop (utf8_char_len bs) bs))"
  by pat_completeness auto
termination
  by (relation "measure length") auto

declare utf8_valid.simps [simp del]

lemma utf8_valid_step:
  "bs \<noteq> [] \<Longrightarrow> utf8_valid bs \<longleftrightarrow> utf8_char_len bs \<noteq> 0 \<and> utf8_valid (drop (utf8_char_len bs) bs)"
  by (subst utf8_valid.simps) simp

lemma utf8_valid_nil [simp]: "utf8_valid []"
  by (simp add: utf8_valid.simps)

text \<open>
  \<open>String::from_utf8_lossy\<close>: each ill-formed part, the lead byte with the continuation bytes
  that could follow it, becomes one replacement character \<open>U+FFFD\<close>.
\<close>

definition utf8_bad_len :: "bytes \<Rightarrow> nat" where
  "utf8_bad_len bs =
     (if 2 \<le> length bs \<and> utf8_three (bs ! 0) (bs ! 1) 0x80 then 2
      else if 2 \<le> length bs \<and> utf8_four (bs ! 0) (bs ! 1) 0x80 0x80
      then (if 3 \<le> length bs \<and> cont_byte (bs ! 2) then 3 else 2)
      else 1)"

lemma utf8_bad_len_pos [simp]: "0 < utf8_bad_len bs"
  by (simp add: utf8_bad_len_def)

function from_utf8_lossy :: "bytes \<Rightarrow> str" where
  "from_utf8_lossy bs =
     (if bs = [] then []
      else if utf8_char_len bs = 0 then [0xEF, 0xBF, 0xBD] @ from_utf8_lossy (drop (utf8_bad_len bs) bs)
      else take (utf8_char_len bs) bs @ from_utf8_lossy (drop (utf8_char_len bs) bs))"
  by pat_completeness auto
termination
  by (relation "measure length") auto

declare from_utf8_lossy.simps [simp del]

lemma from_utf8_lossy_valid [simp]: "utf8_valid bs \<Longrightarrow> from_utf8_lossy bs = bs"
proof (induction bs rule: utf8_valid.induct)
  case (1 bs)
  then show ?case
  proof (cases "bs = []")
    case False
    with "1.prems" have "utf8_char_len bs \<noteq> 0" "utf8_valid (drop (utf8_char_len bs) bs)"
      using utf8_valid_step [of bs] by blast+
    with 1 False show ?thesis by (subst from_utf8_lossy.simps) simp
  qed (simp add: from_utf8_lossy.simps)
qed

lemma utf8_char_len_take:
  "utf8_char_len bs \<noteq> 0 \<Longrightarrow> utf8_char_len (take (utf8_char_len bs) bs) = utf8_char_len bs"
  using utf8_char_len_le [of bs] by (intro utf8_char_len_agree) simp_all

lemma utf8_valid_char: "utf8_char_len bs \<noteq> 0 \<Longrightarrow> utf8_valid (take (utf8_char_len bs) bs @ cs) = utf8_valid cs"
proof -
  assume a: "utf8_char_len bs \<noteq> 0"
  let ?c = "take (utf8_char_len bs) bs"
  have "length ?c = utf8_char_len bs" using utf8_char_len_le [of bs] by simp
  moreover have "?c \<noteq> []" using a calculation by auto
  moreover have "utf8_char_len (?c @ cs) = utf8_char_len bs"
    using a utf8_char_len_take [OF a] utf8_char_len_append [of ?c cs] by simp
  ultimately show ?thesis using a utf8_valid_step [of "?c @ cs"] by simp
qed

lemma from_utf8_lossy_utf8: "utf8_valid (from_utf8_lossy bs)"
proof (induction bs rule: from_utf8_lossy.induct)
  case (1 bs)
  have repl: "utf8_valid ([0xEF, 0xBF, 0xBD] @ cs) = utf8_valid cs" for cs
  proof -
    have "utf8_char_len ([0xEF, 0xBF, 0xBD] @ cs) = 3"
      by (simp add: utf8_char_len_def utf8_two_def utf8_three_def cont_byte_def)
    then show ?thesis using utf8_valid_step [of "[0xEF, 0xBF, 0xBD] @ cs"] by simp
  qed
  show ?case
    using 1 by (subst from_utf8_lossy.simps) (auto simp: repl utf8_valid_char simp del: append_Cons)
qed

definition str_lit :: "string \<Rightarrow> str" where
  "str_lit cs = map of_char cs"

lemma length_str_lit [simp]: "length (str_lit cs) = length cs"
  by (simp add: str_lit_def)

lemma str_lit_nil_iff [simp]: "str_lit cs = [] \<longleftrightarrow> cs = []"
  by (simp add: str_lit_def)

lemma utf8_valid_ascii_cons [simp]: "b < 0x80 \<Longrightarrow> utf8_valid (b # bs) = utf8_valid bs"
  by (subst utf8_valid.simps) (simp add: utf8_char_len_def)

lemma utf8_valid_ascii: "\<forall>b \<in> set bs. b < 0x80 \<Longrightarrow> utf8_valid bs"
  by (induction bs) simp_all

lemma utf8_valid_append: "utf8_valid xs \<Longrightarrow> utf8_valid (xs @ ys) = utf8_valid ys"
proof (induction xs rule: utf8_valid.induct)
  case (1 xs)
  show ?case
  proof (cases "xs = []")
    case False
    with "1.prems" have ok: "utf8_char_len xs \<noteq> 0" "utf8_valid (drop (utf8_char_len xs) xs)"
      by (simp_all only: utf8_valid_step simp_thms)
    have "utf8_valid (xs @ ys) = utf8_valid (drop (utf8_char_len xs) xs @ ys)"
      using False ok(1) utf8_char_len_le [of xs]
      by (subst utf8_valid_step) (simp_all add: utf8_char_len_append)
    with "1.IH" [OF False ok(1)] ok show ?thesis by simp
  qed simp
qed

text \<open>Decimal digits, most significant first.\<close>

definition digit :: "nat \<Rightarrow> u8" where
  "digit k = word_of_nat (48 + k)"

fun show_nat :: "nat \<Rightarrow> str" where
  "show_nat n = (if n < 10 then [digit n] else show_nat (n div 10) @ [digit (n mod 10)])"

declare show_nat.simps [simp del]

lemma unat_digit: "k < 10 \<Longrightarrow> unat (digit k) = 48 + k"
  unfolding digit_def by (rule unat_word_of_nat) simp

lemma digit_ascii: "k < 10 \<Longrightarrow> digit k < 0x80"
  by (simp add: word_less_nat_alt unat_digit)

lemma show_nat_small: "n < 10 \<Longrightarrow> show_nat n = [digit n]"
  by (simp only: show_nat.simps [of n] if_True)

lemma show_nat_large: "\<not> n < 10 \<Longrightarrow> show_nat n = show_nat (n div 10) @ [digit (n mod 10)]"
  by (simp only: show_nat.simps [of n] if_False)

lemma show_nat_ascii: "\<forall>b \<in> set (show_nat n). b < 0x80"
proof (induction n rule: show_nat.induct)
  case (1 n)
  then show ?case
    using digit_ascii [of n] digit_ascii [of "n mod 10"]
    by (cases "n < 10") (auto simp: show_nat_small show_nat_large)
qed

end
