(* ===== verification/Varint_Text.thy ===== *)
theory Varint_Text
  imports Varint Rust_Str
begin

text \<open>The \<open>Display\<close> form of varint errors, which the protocol errors embed.\<close>

fun varint_error_to_string :: "varint_error \<Rightarrow> str" where
  "varint_error_to_string BufferTooShort = str_lit ''buffer ended before varint terminated''"
| "varint_error_to_string Overflow = str_lit ''varint overflows u64''"
| "varint_error_to_string NonCanonical = str_lit ''varint is not minimally encoded''"

end
