(* ===== verification/Sans_Io.thy ===== *)
theory Sans_Io
  imports Prelude
begin

text \<open>
  The output side of \<open>SansIoProtocol\<close>, \<open>crates/core/src/sans_io.rs\<close>: a state machine
  exposes its pending outputs one by one through \<open>poll_output\<close> and reports through
  \<open>is_idle\<close> that none is left. The locale is the contract a driver relies on;
  \<open>pending\<close> is the abstract queue and \<open>core\<close> the part of the state that polling must
  not touch. Multistream-select, ping, identify and the AutoNAT server interpret it.
\<close>

text \<open>A driver that polls a given number of times and collects the outputs.\<close>

fun poll_many :: "('s \<Rightarrow> 's \<times> 'o option) \<Rightarrow> nat \<Rightarrow> 's \<Rightarrow> 's \<times> 'o list" where
  "poll_many poll 0 s = (s, [])"
| "poll_many poll (Suc n) s =
     (case poll s of
        (s', None) \<Rightarrow> (s', [])
      | (s', Some out) \<Rightarrow> (case poll_many poll n s' of (s'', outs) \<Rightarrow> (s'', out # outs)))"

locale sans_io_outputs =
  fixes poll_output :: "'s \<Rightarrow> 's \<times> 'o option"
    and is_idle :: "'s \<Rightarrow> bool"
    and pending :: "'s \<Rightarrow> 'o list"
    and core :: "'s \<Rightarrow> 'c"
  assumes poll_none: "pending s = [] \<Longrightarrow> poll_output s = (s, None)"
    and poll_some: "pending s = out # outs \<Longrightarrow>
      \<exists>s'. poll_output s = (s', Some out) \<and> pending s' = outs \<and> core s' = core s"
    and idle_iff: "is_idle s \<longleftrightarrow> pending s = []"
begin

lemma poll_idle: "snd (poll_output s) = None \<longleftrightarrow> is_idle s"
  using poll_none [of s] poll_some [of s] by (cases "pending s") (auto simp: idle_iff)

lemma poll_core: "core (fst (poll_output s)) = core s"
  using poll_none [of s] poll_some [of s] by (cases "pending s") auto

text \<open>
  A driver that polls until \<open>None\<close> receives exactly the queued outputs in order, leaves
  the machine idle and touches nothing else.
\<close>

lemma drain_all:
  assumes "length (pending s) \<le> n"
  shows "\<exists>s'. poll_many poll_output n s = (s', pending s) \<and> is_idle s' \<and> core s' = core s"
  using assms
proof (induction n arbitrary: s)
  case 0
  then show ?case by (simp add: idle_iff)
next
  case (Suc n)
  show ?case
  proof (cases "pending s")
    case Nil
    then show ?thesis by (simp add: poll_none idle_iff)
  next
    case (Cons out outs)
    then obtain s1 where s1: "poll_output s = (s1, Some out)" "pending s1 = outs" "core s1 = core s"
      using poll_some by blast
    moreover from Suc.prems Cons s1(2) have "length (pending s1) \<le> n" by simp
    from Suc.IH [OF this] obtain s2 where
      "poll_many poll_output n s1 = (s2, pending s1)" "is_idle s2" "core s2 = core s1" by blast
    ultimately show ?thesis using Cons by auto
  qed
qed

end

end
