(* ===== verification/Multistream.thy ===== *)
theory Multistream
  imports Varint_Text Stream_Codec Sans_Io
begin

text \<open>
  Protocol negotiation, \<open>crates/multistream-select/src/lib.rs\<close>: the line codec and the
  dialer and listener state machines. The queue of pending outputs is part of the
  record; a set of supported protocols is a set of strings.
\<close>

section \<open>Model\<close>

definition MULTISTREAM_PROTOCOL_ID :: str where
  "MULTISTREAM_PROTOCOL_ID = str_lit ''/multistream/1.0.0''"

definition NOT_AVAILABLE :: str where
  "NOT_AVAILABLE = str_lit ''na''"

definition MAX_MESSAGE_LEN :: nat where
  "MAX_MESSAGE_LEN = 1024"

datatype multistream_output =
    OutboundData bytes
  | Negotiated str
  | NotAvailable
  | ProtocolError str

datatype multistream_input = Start | Data bytes

datatype multistream_error =
    MessageTooLong nat
  | InvalidVarint varint_error
  | NonUtf8
  | MissingNewline
  | EmptyProtocol
  | UnexpectedHeader str
  | UnexpectedProtocolResponse str

fun multistream_error_to_string :: "multistream_error \<Rightarrow> str" where
  "multistream_error_to_string (MessageTooLong len) =
     str_lit ''message exceeds maximum length ('' @ show_nat len @ str_lit '' > '' @
     show_nat MAX_MESSAGE_LEN @ str_lit '')''"
| "multistream_error_to_string (InvalidVarint e) =
     str_lit ''invalid varint in message frame: '' @ varint_error_to_string e"
| "multistream_error_to_string NonUtf8 = str_lit ''non-utf8 message payload''"
| "multistream_error_to_string MissingNewline = str_lit ''message missing trailing newline''"
| "multistream_error_to_string EmptyProtocol = str_lit ''empty protocol line''"
| "multistream_error_to_string (UnexpectedHeader actual) =
     str_lit ''unexpected multistream header: '' @ actual"
| "multistream_error_to_string (UnexpectedProtocolResponse actual) =
     str_lit ''unexpected protocol response: '' @ actual"

datatype ms_role = Dialer | Listener

datatype ms_state =
    WaitingForRemoteHeader
  | WaitingForProtocolRequest
  | WaitingForProtocolResponse
  | MsDone

record multistream_select =
  role :: ms_role
  state :: ms_state
  desired_protocol :: "str option"
  supported_protocols :: "str set"
  recv_buf :: bytes
  started :: bool
  pending_outputs :: "multistream_output list"

definition dialer :: "str \<Rightarrow> multistream_select" where
  "dialer desired =
     \<lparr> role = Dialer, state = WaitingForRemoteHeader, desired_protocol = Some desired,
       supported_protocols = {}, recv_buf = [], started = False, pending_outputs = [] \<rparr>"

definition listener :: "str list \<Rightarrow> multistream_select" where
  "listener protocols =
     \<lparr> role = Listener, state = WaitingForRemoteHeader, desired_protocol = None,
       supported_protocols = set protocols, recv_buf = [], started = False, pending_outputs = [] \<rparr>"

definition encode_message :: "str \<Rightarrow> bytes" where
  "encode_message protocol =
     write_uvarint (word_of_nat (length protocol + 1)) [] @ protocol @ [10]"

datatype ms_decode =
    DecodeComplete (ms_payload: str) (ms_consumed: nat)
  | DecodeIncomplete
  | DecodeError multistream_error

definition decode_message :: "bytes \<Rightarrow> ms_decode" where
  "decode_message buf =
     (if buf = [] then DecodeIncomplete
      else case read_uvarint buf of
        Inl BufferTooShort \<Rightarrow> DecodeIncomplete
      | Inl e \<Rightarrow> DecodeError (InvalidVarint e)
      | Inr (msg_len, varint_bytes) \<Rightarrow>
          let msg_len = unat msg_len in
          if MAX_MESSAGE_LEN < msg_len then DecodeError (MessageTooLong msg_len)
          else let total_len = varint_bytes + msg_len in
            if length buf < total_len then DecodeIncomplete
            else (case slice_get buf varint_bytes total_len of
                None \<Rightarrow> DecodeIncomplete
              | Some msg_bytes \<Rightarrow>
                  if msg_bytes = [] \<or> last msg_bytes \<noteq> 10 then DecodeError MissingNewline
                  else if \<not> utf8_valid (butlast msg_bytes) then DecodeError NonUtf8
                  else if butlast msg_bytes = [] then DecodeError EmptyProtocol
                  else DecodeComplete (butlast msg_bytes) total_len))"

definition protocol_error :: "multistream_error \<Rightarrow> ms_state \<times> multistream_output list" where
  "protocol_error e = (MsDone, [ProtocolError (multistream_error_to_string e)])"

text \<open>\<open>None\<close> is the panic of \<open>expect\<close> on a dialer without a protocol.\<close>

definition handle_message ::
  "ms_role \<Rightarrow> ms_state \<Rightarrow> str option \<Rightarrow> str set \<Rightarrow> str \<Rightarrow> (ms_state \<times> multistream_output list) option"
where
  "handle_message r st desired supported line =
     (case st of
        WaitingForRemoteHeader \<Rightarrow>
          if line \<noteq> MULTISTREAM_PROTOCOL_ID then Some (protocol_error (UnexpectedHeader line))
          else (case r of
              Dialer \<Rightarrow>
                (case desired of
                   None \<Rightarrow> None
                 | Some d \<Rightarrow> Some (WaitingForProtocolResponse, [OutboundData (encode_message d)]))
            | Listener \<Rightarrow> Some (WaitingForProtocolRequest, []))
      | WaitingForProtocolRequest \<Rightarrow>
          if line \<in> supported
          then Some (MsDone, [OutboundData (encode_message line), Negotiated line])
          else Some (WaitingForProtocolRequest,
                 [OutboundData (encode_message NOT_AVAILABLE), NotAvailable])
      | WaitingForProtocolResponse \<Rightarrow>
          (case desired of
             None \<Rightarrow> None
           | Some d \<Rightarrow>
               if line = d then Some (MsDone, [Negotiated d])
               else if line = NOT_AVAILABLE then Some (MsDone, [NotAvailable])
               else Some (protocol_error (UnexpectedProtocolResponse line)))
      | MsDone \<Rightarrow> Some (MsDone, []))"

lemma decode_message_consumed:
  "decode_message buf = DecodeComplete p n \<Longrightarrow> 0 < n \<and> n \<le> length buf"
  by (auto simp: decode_message_def Let_def slice_get_def
        split: if_splits sum.splits varint_error.splits option.splits)

text \<open>The loop of \<open>receive\<close>; every turn drains at least one byte.\<close>

function receive_loop ::
  "multistream_select \<Rightarrow> multistream_output list \<Rightarrow> (multistream_select \<times> multistream_output list) option"
where
  "receive_loop s outputs =
     (if state s = MsDone then Some (s, outputs)
      else case decode_message (recv_buf s) of
        DecodeComplete payload consumed \<Rightarrow>
          (case handle_message (role s) (state s) (desired_protocol s) (supported_protocols s) payload of
             None \<Rightarrow> None
           | Some (next_state, produced) \<Rightarrow>
               receive_loop (s\<lparr> recv_buf := drop consumed (recv_buf s), state := next_state \<rparr>)
                 (outputs @ produced))
      | DecodeIncomplete \<Rightarrow> Some (s, outputs)
      | DecodeError e \<Rightarrow>
          Some (s\<lparr> state := MsDone \<rparr>, outputs @ [ProtocolError (multistream_error_to_string e)]))"
  by pat_completeness auto
termination
  by (relation "measure (\<lambda>(s, outputs). length (recv_buf s))") (auto dest: decode_message_consumed)

declare receive_loop.simps [simp del]

definition receive ::
  "bytes \<Rightarrow> multistream_select \<Rightarrow> (multistream_select \<times> multistream_output list) option"
where
  "receive bs s =
     (if state s = MsDone then Some (s, [])
      else receive_loop (s\<lparr> recv_buf := recv_buf s @ bs \<rparr>) [])"

definition ms_start :: "multistream_select \<Rightarrow> multistream_select \<times> multistream_output list" where
  "ms_start s =
     (if started s then (s, [])
      else (s\<lparr> started := True \<rparr>, [OutboundData (encode_message MULTISTREAM_PROTOCOL_ID)]))"

definition take_remaining_buffer :: "multistream_select \<Rightarrow> multistream_select \<times> bytes" where
  "take_remaining_buffer s = (s\<lparr> recv_buf := [] \<rparr>, recv_buf s)"

definition ms_handle_input :: "multistream_input \<Rightarrow> multistream_select \<Rightarrow> multistream_select option" where
  "ms_handle_input input s =
     (case (case input of Start \<Rightarrow> Some (ms_start s) | Data data \<Rightarrow> receive data s) of
        None \<Rightarrow> None
      | Some (s', outputs) \<Rightarrow> Some (s'\<lparr> pending_outputs := pending_outputs s' @ outputs \<rparr>))"

definition ms_poll_output :: "multistream_select \<Rightarrow> multistream_select \<times> multistream_output option" where
  "ms_poll_output s =
     (case pending_outputs s of
        [] \<Rightarrow> (s, None)
      | out # rest \<Rightarrow> (s\<lparr> pending_outputs := rest \<rparr>, Some out))"

definition ms_is_idle :: "multistream_select \<Rightarrow> bool" where
  "ms_is_idle s \<longleftrightarrow> pending_outputs s = []"

interpretation ms_out: sans_io_outputs ms_poll_output ms_is_idle pending_outputs state
  by unfold_locales (auto simp: ms_poll_output_def ms_is_idle_def)

section \<open>The line codec\<close>

definition line_valid :: "str \<Rightarrow> bool" where
  "line_valid p \<longleftrightarrow> utf8_valid p \<and> p \<noteq> [] \<and> length p + 1 \<le> MAX_MESSAGE_LEN"

lemma line_valid_length:
  "line_valid p \<Longrightarrow> unat (word_of_nat (length p + 1) :: u64) = length p + 1"
  by (rule unat_word_of_nat) (simp add: line_valid_def MAX_MESSAGE_LEN_def)

lemma length_encode_message:
  "length (encode_message p) = uvarint_len (word_of_nat (length p + 1)) + length p + 1"
  by (simp add: encode_message_def length_write_uvarint)

lemma encode_message_not_nil [simp]: "encode_message p \<noteq> []"
  by (simp add: encode_message_def)

lemma decode_message_nil [simp]: "decode_message [] = DecodeIncomplete"
  by (simp add: decode_message_def)

lemma decode_message_header:
  "decode_message (write_uvarint len [] @ rest) =
     (if MAX_MESSAGE_LEN < unat len then DecodeError (MessageTooLong (unat len))
      else if length rest < unat len then DecodeIncomplete
      else let m = take (unat len) rest in
        if m = [] \<or> last m \<noteq> 10 then DecodeError MissingNewline
        else if \<not> utf8_valid (butlast m) then DecodeError NonUtf8
        else if butlast m = [] then DecodeError EmptyProtocol
        else DecodeComplete (butlast m) (uvarint_len len + unat len))"
proof -
  have "read_uvarint (write_uvarint len [] @ rest) = Inr (len, uvarint_len len)"
    by (auto simp: read_uvarint_iff)
  then show ?thesis
    by (simp add: decode_message_def slice_get_def length_write_uvarint Let_def)
qed

lemma decode_encode_message:
  assumes "line_valid p"
  shows "decode_message (encode_message p @ rest) = DecodeComplete p (length (encode_message p))"
proof -
  define len :: u64 where "len = word_of_nat (length p + 1)"
  have len: "unat len = length p + 1" unfolding len_def by (rule line_valid_length [OF assms])
  have "encode_message p @ rest = write_uvarint len [] @ p @ [10] @ rest"
    by (simp add: encode_message_def len_def)
  moreover have "length (encode_message p) = uvarint_len len + unat len"
    unfolding len unfolding length_encode_message len_def by (simp only: add.assoc)
  moreover have "take (unat len) (p @ [10] @ rest) = p @ [10]" by (simp add: len)
  ultimately show ?thesis
    using assms len by (simp add: decode_message_header Let_def line_valid_def)
qed

lemma decode_message_complete:
  assumes "decode_message bs = DecodeComplete p n"
  shows "line_valid p \<and> n = length (encode_message p) \<and> (\<exists>rest. bs = encode_message p @ rest)"
proof -
  from assms obtain len used where "read_uvarint bs = Inr (len, used)"
    by (auto simp: decode_message_def split: if_splits sum.splits varint_error.splits)
  then obtain rest where bs: "bs = write_uvarint len [] @ rest" by (auto simp: read_uvarint_iff)
  define m where "m = take (unat len) rest"
  from assms have m: "unat len \<le> MAX_MESSAGE_LEN" "unat len \<le> length rest" "m \<noteq> []" "last m = 10"
      "utf8_valid (butlast m)" "butlast m \<noteq> []"
    and p: "p = butlast m" and n: "n = uvarint_len len + unat len"
    by (auto simp: bs decode_message_header Let_def m_def split: if_splits)
  have mp: "m = p @ [10]" using m(3,4) p by (metis append_butlast_last_id)
  have "length m = unat len" using m(2) by (simp add: m_def)
  then have len: "unat len = length p + 1" by (simp add: mp)
  have word: "word_of_nat (length p + 1) = len" unfolding len [symmetric] by simp
  have "bs = encode_message p @ drop (unat len) rest"
    unfolding bs encode_message_def word using mp m_def
    by (metis append.assoc append_take_drop_id)
  moreover have "line_valid p" using m len p by (simp add: line_valid_def)
  moreover have "n = length (encode_message p)"
    unfolding length_encode_message word n len by (simp only: add.assoc)
  ultimately show ?thesis by blast
qed

lemma decode_message_complete_iff:
  "decode_message bs = DecodeComplete p n \<longleftrightarrow>
     line_valid p \<and> n = length (encode_message p) \<and> (\<exists>rest. bs = encode_message p @ rest)"
  using decode_message_complete decode_encode_message by blast

lemma decode_message_prefix:
  assumes "line_valid p" and "encode_message p = xs @ ys" and "ys \<noteq> []"
  shows "decode_message xs = DecodeIncomplete"
proof -
  define len :: u64 where "len = word_of_nat (length p + 1)"
  have len: "unat len = length p + 1" unfolding len_def by (rule line_valid_length [OF assms(1)])
  from assms(2) have "write_uvarint len [] @ (p @ [10]) = xs @ ys"
    by (simp add: encode_message_def len_def)
  then show ?thesis
  proof (cases rule: append_cut)
    case (inside q')
    then have "read_uvarint_with_remainder xs = Inl BufferTooShort"
      by (intro read_uvarint_prefix [of len xs q'])
    then show ?thesis by (simp add: decode_message_def read_uvarint_def)
  next
    case (beyond p')
    from arg_cong [OF beyond(2), of length] assms(3) len have "length p' < unat len"
      by (cases ys) simp_all
    with beyond(1) assms(1) len show ?thesis
      by (simp add: decode_message_header line_valid_def)
  qed
qed

definition line_step :: "bytes \<Rightarrow> (str, multistream_error) step" where
  "line_step buf =
     (case decode_message buf of
        DecodeComplete p n \<Rightarrow> Done p n
      | DecodeIncomplete \<Rightarrow> More
      | DecodeError e \<Rightarrow> Bad e)"

interpretation ms_line: stream_codec line_valid encode_message line_step
  by unfold_locales (simp_all add: line_step_def decode_encode_message decode_message_prefix)

text \<open>A verdict of the decoder does not change when more bytes arrive.\<close>

lemma decode_message_append:
  assumes "decode_message bs \<noteq> DecodeIncomplete"
  shows "decode_message (bs @ extra) = decode_message bs"
proof (cases "read_uvarint_with_remainder bs")
  case (Inl e)
  with assms have e: "bs \<noteq> []" "e \<noteq> BufferTooShort"
    by (auto simp: decode_message_def read_uvarint_def split: if_splits)
  with Inl have "read_uvarint_with_remainder (bs @ extra) = Inl e"
    by (simp add: read_uvarint_append)
  with Inl e show ?thesis by (cases e) (simp_all add: decode_message_def read_uvarint_def)
next
  case (Inr r)
  then obtain len rest where bs: "bs = write_uvarint len [] @ rest"
    by (cases r) (auto simp: read_uvarint_with_remainder_iff)
  with assms have "MAX_MESSAGE_LEN < unat len \<or> unat len \<le> length rest"
    by (auto simp: decode_message_header split: if_splits)
  then show ?thesis
    by (auto simp: bs decode_message_header)
qed

end
