(* ===== verification/Multistream_Negotiation.thy ===== *)
theory Multistream_Negotiation
  imports Multistream
begin

text \<open>
  What the negotiation of \<open>crates/multistream-select\<close> promises: a session never panics
  and its outputs depend only on the bytes received, not on how they were cut into
  chunks; a dialer and a listener joined by two byte streams agree on the outcome in
  every interleaving of deliveries and after a bounded number of them.
\<close>

section \<open>Invariant\<close>

definition ms_inv :: "multistream_select \<Rightarrow> bool" where
  "ms_inv s \<longleftrightarrow>
     (role s = Dialer \<longrightarrow> desired_protocol s \<noteq> None \<and> state s \<noteq> WaitingForProtocolRequest) \<and>
     (role s = Listener \<longrightarrow> state s \<noteq> WaitingForProtocolResponse)"

lemma ms_inv_dialer: "ms_inv (dialer d)"
  by (simp add: ms_inv_def dialer_def)

lemma ms_inv_listener: "ms_inv (listener ps)"
  by (simp add: ms_inv_def listener_def)

lemma handle_message_total:
  assumes "ms_inv s"
  shows "\<exists>st out. handle_message (role s) (state s) (desired_protocol s) (supported_protocols s) line = Some (st, out)
           \<and> ms_inv (s\<lparr> recv_buf := b, state := st \<rparr>)"
  using assms unfolding ms_inv_def
  by (cases "role s"; cases "state s"; cases "desired_protocol s")
     (auto simp: handle_message_def protocol_error_def)

lemma receive_loop_total: "ms_inv s \<Longrightarrow> \<exists>s' out. receive_loop s outs = Some (s', out) \<and> ms_inv s'"
proof (induction s outs rule: receive_loop.induct)
  case (1 s outs)
  show ?case
  proof (cases "state s = MsDone")
    case False
    show ?thesis
    proof (cases "decode_message (recv_buf s)")
      case (DecodeComplete p n)
      obtain st out where h:
        "handle_message (role s) (state s) (desired_protocol s) (supported_protocols s) p = Some (st, out)"
        "ms_inv (s\<lparr> recv_buf := drop n (recv_buf s), state := st \<rparr>)"
        using handle_message_total [OF "1.prems"] by blast
      from "1.IH" [OF False DecodeComplete h(1) refl h(2)] False DecodeComplete h(1) show ?thesis
        by (subst receive_loop.simps) simp
    next
      case DecodeIncomplete
      with False "1.prems" show ?thesis by (subst receive_loop.simps) simp
    next
      case (DecodeError e)
      with False "1.prems" show ?thesis
        by (subst receive_loop.simps) (simp add: ms_inv_def)
    qed
  qed (subst receive_loop.simps, simp add: "1.prems")
qed

lemma receive_total: "ms_inv s \<Longrightarrow> \<exists>s' out. receive bs s = Some (s', out) \<and> ms_inv s'"
  unfolding receive_def using receive_loop_total [of "s\<lparr> recv_buf := recv_buf s @ bs \<rparr>" "[]"]
  by (auto simp: ms_inv_def)

section \<open>Outputs depend on the bytes only\<close>

text \<open>One turn of the loop, by the verdict of the decoder.\<close>

lemma receive_loop_done: "state s = MsDone \<Longrightarrow> receive_loop s outs = Some (s, outs)"
  by (subst receive_loop.simps) simp

lemma receive_loop_more:
  "state s \<noteq> MsDone \<Longrightarrow> decode_message (recv_buf s) = DecodeIncomplete \<Longrightarrow>
     receive_loop s outs = Some (s, outs)"
  by (subst receive_loop.simps) simp

lemma receive_loop_error:
  "state s \<noteq> MsDone \<Longrightarrow> decode_message (recv_buf s) = DecodeError e \<Longrightarrow>
     receive_loop s outs =
       Some (s\<lparr> state := MsDone \<rparr>, outs @ [ProtocolError (multistream_error_to_string e)])"
  by (subst receive_loop.simps) simp

lemma receive_loop_message:
  "state s \<noteq> MsDone \<Longrightarrow> decode_message (recv_buf s) = DecodeComplete p n \<Longrightarrow>
     handle_message (role s) (state s) (desired_protocol s) (supported_protocols s) p = Some (st, out) \<Longrightarrow>
     receive_loop s outs =
       receive_loop (s\<lparr> recv_buf := drop n (recv_buf s), state := st \<rparr>) (outs @ out)"
  by (subst receive_loop.simps) simp

lemmas receive_loop_rules =
  receive_loop_done receive_loop_more receive_loop_error receive_loop_message

lemma receive_loop_cases:
  assumes "ms_inv s"
  obtains (finished) "state s = MsDone"
    | (more) "state s \<noteq> MsDone" "decode_message (recv_buf s) = DecodeIncomplete"
    | (error) e where "state s \<noteq> MsDone" "decode_message (recv_buf s) = DecodeError e"
    | (message) p n st out where "state s \<noteq> MsDone" "decode_message (recv_buf s) = DecodeComplete p n"
        "handle_message (role s) (state s) (desired_protocol s) (supported_protocols s) p = Some (st, out)"
        "ms_inv (s\<lparr> recv_buf := drop n (recv_buf s), state := st \<rparr>)"
        "length (drop n (recv_buf s)) < length (recv_buf s)"
proof (cases "decode_message (recv_buf s)")
  case (DecodeComplete p n)
  with handle_message_total [OF assms, of p "drop n (recv_buf s)"] decode_message_consumed [OF DecodeComplete]
  show ?thesis by (cases "state s = MsDone") (auto intro: finished message)
qed (use that in blast)+

lemma receive_loop_acc:
  assumes "ms_inv s" and "receive_loop s [] = Some (s', out)"
  shows "receive_loop s outs = Some (s', outs @ out)"
  using assms
proof (induction "length (recv_buf s)" arbitrary: s s' outs out rule: less_induct)
  case less
  from \<open>ms_inv s\<close> show ?case
  proof (cases rule: receive_loop_cases)
    case (message p n st o1)
    let ?s = "s\<lparr> recv_buf := drop n (recv_buf s), state := st \<rparr>"
    obtain s2 o2 where rest: "receive_loop ?s [] = Some (s2, o2)"
      using receive_loop_total [OF message(4)] by blast
    have len: "length (recv_buf ?s) < length (recv_buf s)" using message(5) by simp
    note ih = less(1) [OF len message(4) rest]
    show ?thesis
      using less(3) ih [of o1] ih [of "outs @ o1"] by (simp add: receive_loop_message [OF message(1-3)])
  qed (use less(3) in \<open>auto simp: receive_loop_rules\<close>)
qed

lemma buf_state_swap:
  "s\<lparr> recv_buf := b, state := st \<rparr> = s\<lparr> state := st, recv_buf := b \<rparr>" for s :: multistream_select
  by simp

lemma receive_loop_append:
  assumes "ms_inv s" and "receive_loop s [] = Some (s1, o1)"
  shows "if state s1 = MsDone
         then receive_loop (s\<lparr> recv_buf := recv_buf s @ bs \<rparr>) [] =
                Some (s1\<lparr> recv_buf := recv_buf s1 @ bs \<rparr>, o1)
         else receive_loop (s\<lparr> recv_buf := recv_buf s @ bs \<rparr>) [] =
                receive_loop (s1\<lparr> recv_buf := recv_buf s1 @ bs \<rparr>) o1"
  using assms
proof (induction "length (recv_buf s)" arbitrary: s o1 rule: less_induct)
  case less
  let ?s' = "s\<lparr> recv_buf := recv_buf s @ bs \<rparr>"
  from \<open>ms_inv s\<close> show ?case
  proof (cases rule: receive_loop_cases)
    case finished
    with less(3) show ?thesis by (auto simp: receive_loop_done)
  next
    case more
    with less(3) show ?thesis by (auto simp: receive_loop_more)
  next
    case (error e)
    with decode_message_append [of "recv_buf s" bs] less(3) show ?thesis
      by (auto simp: receive_loop_error)
  next
    case (message p n st out)
    let ?s = "s\<lparr> recv_buf := drop n (recv_buf s), state := st \<rparr>"
    obtain o2 where rest: "receive_loop ?s [] = Some (s1, o2)" and o1: "o1 = out @ o2"
    proof -
      obtain s2 o2 where "receive_loop ?s [] = Some (s2, o2)"
        using receive_loop_total [OF message(4)] by blast
      with less(3) receive_loop_acc [OF message(4), of s2 o2 out] that show ?thesis
        by (simp add: receive_loop_message [OF message(1-3)])
    qed
    have len: "length (recv_buf ?s) < length (recv_buf s)" using message(5) by simp
    have n: "n \<le> length (recv_buf s)" using decode_message_consumed [OF message(2)] by simp
    have step: "receive_loop ?s' [] = receive_loop (?s\<lparr> recv_buf := recv_buf ?s @ bs \<rparr>) out"
      using message(1-3) n decode_message_append [of "recv_buf s" bs]
      by (subst receive_loop_message [of ?s' p n st out]) (simp_all add: buf_state_swap)
    let ?t = "s1\<lparr> recv_buf := recv_buf s1 @ bs \<rparr>"
    have "ms_inv s1" using receive_loop_total [OF message(4), of "[]"] rest by simp
    then obtain s3 o3 where s3: "receive_loop ?t [] = Some (s3, o3)" "ms_inv ?t"
      using receive_loop_total [of ?t "[]"] by (auto simp: ms_inv_def)
    note acc = receive_loop_acc [of "?s\<lparr> recv_buf := recv_buf ?s @ bs \<rparr>"]
      receive_loop_acc [OF s3(2,1)]
    from message(4) have "ms_inv (?s\<lparr> recv_buf := recv_buf ?s @ bs \<rparr>)" by (simp add: ms_inv_def)
    with less(1) [OF len message(4) rest] acc show ?thesis
      unfolding step o1 by (cases "state s1 = MsDone") simp_all
  qed
qed

text \<open>
  \<open>in_sync s0 r s outs\<close>: a session started in \<open>s0\<close> that has been given the bytes
  \<open>r\<close> in some chunks has produced \<open>outs\<close> and is in the state that \<open>r\<close> in one
  piece leads to. A finished session no longer buffers, so its buffer may be shorter.
\<close>

definition in_sync :: "multistream_select \<Rightarrow> bytes \<Rightarrow> multistream_select \<Rightarrow> multistream_output list \<Rightarrow> bool" where
  "in_sync s0 r s outs \<longleftrightarrow>
     (\<exists>s1. receive r s0 = Some (s1, outs) \<and> state s = state s1 \<and> ms_inv s \<and>
       (state s \<noteq> MsDone \<longrightarrow> s = s1))"

lemma receive_append:
  assumes "ms_inv s" and "receive a s = Some (s1, o1)"
  shows "state s1 = MsDone \<Longrightarrow> \<exists>b'. receive (a @ b) s = Some (s1\<lparr> recv_buf := b' \<rparr>, o1)"
    and "state s1 \<noteq> MsDone \<Longrightarrow>
           receive b s1 = Some (s2, o2) \<Longrightarrow> receive (a @ b) s = Some (s2, o1 @ o2)"
proof -
  let ?s = "s\<lparr> recv_buf := recv_buf s @ a \<rparr>"
  have inv: "ms_inv ?s" using assms(1) by (simp add: ms_inv_def)
  {
    assume fin: "state s1 = MsDone"
    show "\<exists>b'. receive (a @ b) s = Some (s1\<lparr> recv_buf := b' \<rparr>, o1)"
    proof (cases "state s = MsDone")
      case True
      with assms(2) have "receive (a @ b) s = Some (s1\<lparr> recv_buf := recv_buf s1 \<rparr>, o1)"
        by (simp add: receive_def)
      then show ?thesis by blast
    next
      case False
      with assms(2) have "receive_loop ?s [] = Some (s1, o1)" by (simp add: receive_def)
      from receive_loop_append [OF inv this, of b] fin False show ?thesis
        by (auto simp: receive_def)
    qed
  next
    assume s1: "state s1 \<noteq> MsDone" and s2: "receive b s1 = Some (s2, o2)"
    then have s: "state s \<noteq> MsDone" using assms(2) by (auto simp: receive_def)
    with assms(2) have loop: "receive_loop ?s [] = Some (s1, o1)" by (simp add: receive_def)
    let ?t = "s1\<lparr> recv_buf := recv_buf s1 @ b \<rparr>"
    have "ms_inv ?t" using receive_loop_total [OF inv, of "[]"] loop by (auto simp: ms_inv_def)
    from receive_loop_acc [OF this, of s2 o2 o1] s1 s2 have "receive_loop ?t o1 = Some (s2, o1 @ o2)"
      by (simp add: receive_def)
    with receive_loop_append [OF inv loop, of b] s s1
    show "receive (a @ b) s = Some (s2, o1 @ o2)" by (simp add: receive_def)
  }
qed

lemma in_sync_init:
  assumes "ms_inv s0" and "recv_buf s0 = []" and "state s0 \<noteq> MsDone"
  shows "in_sync s0 [] s0 []"
  using assms
  by (simp add: in_sync_def receive_def receive_loop_more)

lemma in_sync_receive:
  assumes "ms_inv s0" and "in_sync s0 r s outs" and "receive c s = Some (s', o')"
  shows "in_sync s0 (r @ c) s' (outs @ o')"
proof -
  from assms(2) obtain s1 where s1: "receive r s0 = Some (s1, outs)" "state s = state s1"
    "state s \<noteq> MsDone \<Longrightarrow> s = s1" "ms_inv s" by (auto simp: in_sync_def)
  have inv: "ms_inv s'" using receive_total [OF s1(4), of c] assms(3) by simp
  show ?thesis
  proof (cases "state s = MsDone")
    case True
    with assms(3) have "s' = s" "o' = []" by (simp_all add: receive_def)
    with receive_append(1) [OF assms(1) s1(1), of c] s1 True inv show ?thesis
      by (auto simp: in_sync_def)
  next
    case False
    with s1 assms(3) have "receive (r @ c) s0 = Some (s', outs @ o')"
      by (intro receive_append(2) [OF assms(1) s1(1)]) simp_all
    with inv show ?thesis by (simp add: in_sync_def)
  qed
qed

fun receive_all ::
  "bytes list \<Rightarrow> multistream_select \<Rightarrow> (multistream_select \<times> multistream_output list) option"
where
  "receive_all [] s = Some (s, [])"
| "receive_all (c # cs) s =
     (case receive c s of
        None \<Rightarrow> None
      | Some (s1, o1) \<Rightarrow>
          (case receive_all cs s1 of None \<Rightarrow> None | Some (s2, o2) \<Rightarrow> Some (s2, o1 @ o2)))"

lemma receive_all_in_sync:
  assumes "ms_inv s0" and "in_sync s0 r s outs"
  shows "\<exists>s' o'. receive_all cs s = Some (s', o') \<and> in_sync s0 (r @ concat cs) s' (outs @ o')"
  using assms(2)
proof (induction cs arbitrary: r s outs)
  case (Cons c cs)
  then have "ms_inv s" by (auto simp: in_sync_def)
  then obtain s1 o1 where s1: "receive c s = Some (s1, o1)" using receive_total by blast
  from Cons.IH [OF in_sync_receive [OF assms(1) Cons.prems s1]] s1 show ?case by auto
qed simp

section \<open>Two parties\<close>

text \<open>
  A dialer and a listener joined by a byte stream in each direction. A step delivers
  some of the bytes in flight to one party and puts what it sends in flight.
\<close>

fun outbound :: "multistream_output list \<Rightarrow> bytes" where
  "outbound [] = []"
| "outbound (OutboundData bs # outs) = bs @ outbound outs"
| "outbound (_ # outs) = outbound outs"

record ms_link =
  dial :: multistream_select
  dial_outs :: "multistream_output list"
  to_listen :: bytes
  listen :: multistream_select
  listen_outs :: "multistream_output list"
  to_dial :: bytes

definition link_init :: "str \<Rightarrow> str list \<Rightarrow> ms_link" where
  "link_init desired protocols =
     (let (d, d_out) = ms_start (dialer desired); (l, l_out) = ms_start (listener protocols)
      in \<lparr> dial = d, dial_outs = d_out, to_listen = outbound d_out,
           listen = l, listen_outs = l_out, to_dial = outbound l_out \<rparr>)"

inductive link_step :: "ms_link \<Rightarrow> ms_link \<Rightarrow> bool" where
  deliver_to_listener:
    "to_listen k = c @ rest \<Longrightarrow> c \<noteq> [] \<Longrightarrow> receive c (listen k) = Some (l, outs) \<Longrightarrow>
     link_step k (k\<lparr> listen := l, listen_outs := listen_outs k @ outs, to_listen := rest,
                     to_dial := to_dial k @ outbound outs \<rparr>)"
| deliver_to_dialer:
    "to_dial k = c @ rest \<Longrightarrow> c \<noteq> [] \<Longrightarrow> receive c (dial k) = Some (d, outs) \<Longrightarrow>
     link_step k (k\<lparr> dial := d, dial_outs := dial_outs k @ outs, to_dial := rest,
                     to_listen := to_listen k @ outbound outs \<rparr>)"

lemma outbound_append [simp]: "outbound (xs @ ys) = outbound xs @ outbound ys"
  by (induction xs rule: outbound.induct) simp_all

abbreviation header :: bytes where
  "header \<equiv> encode_message MULTISTREAM_PROTOCOL_ID"

definition response :: "str \<Rightarrow> str list \<Rightarrow> str" where
  "response desired protocols = (if desired \<in> set protocols then desired else NOT_AVAILABLE)"

lemma line_valid_header: "line_valid MULTISTREAM_PROTOCOL_ID"
  by (simp add: line_valid_def MULTISTREAM_PROTOCOL_ID_def MAX_MESSAGE_LEN_def str_lit_def
      utf8_valid_ascii)

lemma line_valid_na: "line_valid NOT_AVAILABLE"
  by (simp add: line_valid_def NOT_AVAILABLE_def MAX_MESSAGE_LEN_def str_lit_def utf8_valid_ascii)

lemma line_valid_response: "line_valid d \<Longrightarrow> line_valid (response d ps)"
  by (simp add: response_def line_valid_na)

lemmas decode_line = decode_encode_message [of _ "[]", simplified]

text \<open>What each party does with the bytes the other sends.\<close>

definition dialer_started :: "str \<Rightarrow> multistream_select" where
  "dialer_started d = fst (ms_start (dialer d))"

definition listener_started :: "str list \<Rightarrow> multistream_select" where
  "listener_started ps = fst (ms_start (listener ps))"

lemmas started_defs = dialer_started_def listener_started_def ms_start_def dialer_def listener_def

lemma started_sync:
  "in_sync (dialer_started d) [] (dialer_started d) []"
  "in_sync (listener_started ps) [] (listener_started ps) []"
  by (rule in_sync_init; simp add: started_defs ms_inv_def)+

lemma started_inv: "ms_inv (dialer_started d)" "ms_inv (listener_started ps)"
  by (simp_all add: started_defs ms_inv_def)

lemma dialer_awaiting_silent:
  assumes "state s = WaitingForProtocolResponse" and "desired_protocol s = Some d"
    and "receive_loop s [] = Some (s', out)"
  shows "outbound out = []"
proof (cases "decode_message (recv_buf s)")
  case (DecodeComplete p n)
  have "\<exists>o1. handle_message (role s) (state s) (desired_protocol s) (supported_protocols s) p =
           Some (MsDone, o1) \<and> outbound o1 = []"
    using assms(1,2) by (simp add: handle_message_def protocol_error_def)
  with DecodeComplete assms show ?thesis by (auto simp: receive_loop_message receive_loop_done)
qed (use assms in \<open>auto simp: receive_loop_rules\<close>)

lemma dialer_after_header:
  assumes "receive (header @ x) (dialer_started d) = Some (s, out)"
  shows "\<exists>out'. out = OutboundData (encode_message d) # out' \<and> outbound out' = []"
proof -
  let ?s = "(dialer_started d)\<lparr> recv_buf := x, state := WaitingForProtocolResponse \<rparr>"
  have inv: "ms_inv ?s" by (simp add: ms_inv_def started_defs)
  then obtain s2 o2 where s2: "receive_loop ?s [] = Some (s2, o2)"
    using receive_loop_total by blast
  have "receive (header @ x) (dialer_started d) = receive_loop ?s [OutboundData (encode_message d)]"
    by (simp add: receive_def started_defs receive_loop_message decode_encode_message line_valid_header
        handle_message_def)
  with assms receive_loop_acc [OF inv s2] have "out = OutboundData (encode_message d) # o2" by simp
  moreover have "outbound o2 = []"
    by (rule dialer_awaiting_silent [OF _ _ s2, of d]) (simp_all add: started_defs)
  ultimately show ?thesis by blast
qed

lemma dialer_outcome:
  assumes "line_valid d" and "d \<noteq> NOT_AVAILABLE"
  shows "\<exists>s. receive (header @ encode_message (response d ps)) (dialer_started d) =
           Some (s, [OutboundData (encode_message d), if d \<in> set ps then Negotiated d else NotAvailable])
         \<and> state s = MsDone"
  using assms line_valid_na
  by (cases "d \<in> set ps")
     (simp_all add: receive_def started_defs receive_loop_message receive_loop_done
      decode_encode_message decode_line line_valid_header handle_message_def response_def)

lemma listener_outcome:
  assumes "line_valid d"
  shows "\<exists>s. receive (header @ encode_message d) (listener_started ps) =
           Some (s, [OutboundData (encode_message (response d ps)),
                     if d \<in> set ps then Negotiated d else NotAvailable])
         \<and> (state s = MsDone \<longleftrightarrow> d \<in> set ps)"
  using assms
  by (cases "d \<in> set ps")
     (simp_all add: receive_def started_defs receive_loop_message receive_loop_done receive_loop_more
      decode_encode_message decode_line line_valid_header handle_message_def response_def)

lemma listener_sent_prefix:
  assumes "line_valid d" and "receive r (listener_started ps) = Some (s, out)"
    and "header @ encode_message d = r @ q"
  shows "length (outbound out) \<le> length (encode_message (response d ps))"
proof -
  have sync: "in_sync (listener_started ps) r s out"
    using assms(2) receive_total [OF started_inv(2), of r ps] by (auto simp: in_sync_def)
  then have "ms_inv s" by (auto simp: in_sync_def)
  then obtain s2 o2 where "receive q s = Some (s2, o2)" using receive_total by blast
  from in_sync_receive [OF started_inv(2) sync this] listener_outcome [OF assms(1), of ps]
  have "out @ o2 = [OutboundData (encode_message (response d ps)),
                    if d \<in> set ps then Negotiated d else NotAvailable]"
    by (auto simp: in_sync_def assms(3))
  from arg_cong [OF this, of "\<lambda>x. length (outbound x)"] show ?thesis by (simp split: if_splits)
qed

section \<open>The invariant of a link\<close>

definition link_inv :: "str \<Rightarrow> str list \<Rightarrow> nat \<Rightarrow> ms_link \<Rightarrow> bool" where
  "link_inv d ps n k \<longleftrightarrow>
     (\<exists>rd rl od ol.
        dial_outs k = OutboundData header # od \<and> listen_outs k = OutboundData header # ol \<and>
        in_sync (dialer_started d) rd (dial k) od \<and> in_sync (listener_started ps) rl (listen k) ol \<and>
        rl @ to_listen k = header @ outbound od \<and> rd @ to_dial k = header @ outbound ol \<and>
        n \<le> length rd + length rl)"

lemma link_invI:
  assumes "dial_outs k = OutboundData header # od" and "listen_outs k = OutboundData header # ol"
    and "in_sync (dialer_started d) rd (dial k) od"
    and "in_sync (listener_started ps) rl (listen k) ol"
    and "rl @ to_listen k = header @ outbound od" and "rd @ to_dial k = header @ outbound ol"
    and "n \<le> length rd + length rl"
  shows "link_inv d ps n k"
  unfolding link_inv_def using assms by blast

lemma link_init_inv: "link_inv d ps 0 (link_init d ps)"
proof -
  have "link_init d ps =
      \<lparr> dial = dialer_started d, dial_outs = [OutboundData header], to_listen = header,
        listen = listener_started ps, listen_outs = [OutboundData header], to_dial = header \<rparr>"
    by (simp add: link_init_def started_defs)
  then show ?thesis
    by (intro link_invI [where rd = "[]" and rl = "[]" and od = "[]" and ol = "[]"])
       (simp_all add: started_sync)
qed

lemma link_step_inv:
  assumes "link_step k k'" and "link_inv d ps n k"
  shows "link_inv d ps (Suc n) k'"
proof -
  from assms(2) obtain rd rl od ol where k:
    "dial_outs k = OutboundData header # od" "listen_outs k = OutboundData header # ol"
    "in_sync (dialer_started d) rd (dial k) od" "in_sync (listener_started ps) rl (listen k) ol"
    "rl @ to_listen k = header @ outbound od" "rd @ to_dial k = header @ outbound ol"
    "n \<le> length rd + length rl"
    unfolding link_inv_def by blast
  from assms(1) show ?thesis
  proof cases
    case (deliver_to_listener c rest l outs)
    note sync = in_sync_receive [OF started_inv(2) k(4) deliver_to_listener(4)]
    have "(rl @ c) @ rest = header @ outbound od" using k(5) deliver_to_listener(2) by simp
    moreover have "rd @ to_dial k @ outbound outs = header @ outbound (ol @ outs)" using k(6) by simp
    moreover have "Suc n \<le> length rd + (length rl + length c)"
      using deliver_to_listener(3) k(7) by (cases c) simp_all
    ultimately show ?thesis
      using k sync deliver_to_listener(1)
      by (intro link_invI [where rd = rd and rl = "rl @ c" and od = od and ol = "ol @ outs"]) simp_all
  next
    case (deliver_to_dialer c rest l outs)
    note sync = in_sync_receive [OF started_inv(1) k(3) deliver_to_dialer(4)]
    have "(rd @ c) @ rest = header @ outbound ol" using k(6) deliver_to_dialer(2) by simp
    moreover have "rl @ to_listen k @ outbound outs = header @ outbound (od @ outs)" using k(5) by simp
    moreover have "Suc n \<le> length rd + length c + length rl"
      using deliver_to_dialer(3) k(7) by (cases c) simp_all
    ultimately show ?thesis
      using k sync deliver_to_dialer(1)
      by (intro link_invI [where rd = "rd @ c" and rl = rl and od = "od @ outs" and ol = ol]) simp_all
  qed
qed

lemma link_run_inv: "(link_step ^^ n) (link_init d ps) k \<Longrightarrow> link_inv d ps n k"
  by (induction n arbitrary: k) (auto intro: link_init_inv link_step_inv)

lemma link_quiescent:
  assumes "link_inv d ps n k" and "to_listen k = []" and "to_dial k = []"
    and "line_valid d" and "d \<noteq> NOT_AVAILABLE"
  shows "dial_outs k = [OutboundData header, OutboundData (encode_message d),
           if d \<in> set ps then Negotiated d else NotAvailable]"
    and "listen_outs k = [OutboundData header, OutboundData (encode_message (response d ps)),
           if d \<in> set ps then Negotiated d else NotAvailable]"
    and "state (dial k) = MsDone" and "state (listen k) = MsDone \<longleftrightarrow> d \<in> set ps"
proof -
  from assms(1-3) obtain rd rl od ol where k:
    "dial_outs k = OutboundData header # od" "listen_outs k = OutboundData header # ol"
    "in_sync (dialer_started d) rd (dial k) od" "in_sync (listener_started ps) rl (listen k) ol"
    "rl = header @ outbound od" "rd = header @ outbound ol"
    unfolding link_inv_def by auto
  from k(3,6) obtain s1 where "receive (header @ outbound ol) (dialer_started d) = Some (s1, od)"
    unfolding in_sync_def by auto
  from dialer_after_header [OF this] have "outbound od = encode_message d" by auto
  with k(4,5) listener_outcome [OF assms(4), of ps]
  have ol: "ol = [OutboundData (encode_message (response d ps)),
           if d \<in> set ps then Negotiated d else NotAvailable]"
    and l: "state (listen k) = MsDone \<longleftrightarrow> d \<in> set ps"
    unfolding in_sync_def by auto
  from ol have "outbound ol = encode_message (response d ps)" by (simp split: if_splits)
  with k(3,6) dialer_outcome [OF assms(4,5), of ps]
  have od: "od = [OutboundData (encode_message d), if d \<in> set ps then Negotiated d else NotAvailable]"
    and d: "state (dial k) = MsDone"
    unfolding in_sync_def by auto
  show "dial_outs k = [OutboundData header, OutboundData (encode_message d),
           if d \<in> set ps then Negotiated d else NotAvailable]"
    and "listen_outs k = [OutboundData header, OutboundData (encode_message (response d ps)),
           if d \<in> set ps then Negotiated d else NotAvailable]"
    and "state (dial k) = MsDone" and "state (listen k) = MsDone \<longleftrightarrow> d \<in> set ps"
    by (simp_all only: k(1,2) ol od l d)
qed

lemma link_progress:
  assumes "link_inv d ps n k"
  shows "(\<exists>k'. link_step k k') \<longleftrightarrow> to_listen k \<noteq> [] \<or> to_dial k \<noteq> []"
proof
  assume "\<exists>k'. link_step k k'"
  then show "to_listen k \<noteq> [] \<or> to_dial k \<noteq> []" by (auto elim: link_step.cases)
next
  from assms have inv: "ms_inv (dial k)" "ms_inv (listen k)"
    unfolding link_inv_def in_sync_def by auto
  assume "to_listen k \<noteq> [] \<or> to_dial k \<noteq> []"
  then show "\<exists>k'. link_step k k'"
  proof
    assume "to_listen k \<noteq> []"
    moreover obtain l outs where "receive (to_listen k) (listen k) = Some (l, outs)"
      using receive_total [OF inv(2)] by blast
    ultimately show ?thesis by (auto intro: deliver_to_listener [where rest = "[]"])
  next
    assume "to_dial k \<noteq> []"
    moreover obtain d' outs where "receive (to_dial k) (dial k) = Some (d', outs)"
      using receive_total [OF inv(1)] by blast
    ultimately show ?thesis by (auto intro: deliver_to_dialer [where rest = "[]"])
  qed
qed

lemma dialer_sent:
  assumes "receive r (dialer_started d) = Some (s, out)" and "r @ q = header @ x"
  shows "outbound out = [] \<or> outbound out = encode_message d"
proof -
  from assms(2) have "header @ x = r @ q" by simp
  then show ?thesis
  proof (cases rule: append_cut)
    case (inside q')
    then have "decode_message r = DecodeIncomplete"
      by (intro decode_message_prefix [OF line_valid_header])
    then have "receive r (dialer_started d) = Some ((dialer_started d)\<lparr> recv_buf := r \<rparr>, [])"
      by (simp add: receive_def receive_loop_more started_defs)
    with assms(1) show ?thesis by simp
  next
    case (beyond p')
    with assms(1) dialer_after_header [of p' d s out] show ?thesis by auto
  qed
qed

lemma link_bounded:
  assumes "link_inv d ps n k" and "line_valid d"
  shows "n \<le> 2 * length header + length (encode_message d) + length (encode_message (response d ps))"
proof -
  from assms(1) obtain rd rl od ol sd sl where k:
    "receive rd (dialer_started d) = Some (sd, od)" "receive rl (listener_started ps) = Some (sl, ol)"
    "rl @ to_listen k = header @ outbound od" "rd @ to_dial k = header @ outbound ol"
    "n \<le> length rd + length rl"
    unfolding link_inv_def in_sync_def by blast
  from dialer_sent [OF k(1,4)] have od: "outbound od = [] \<or> outbound od = encode_message d" .
  then obtain q where "header @ encode_message d = rl @ q"
    using k(3) by (metis append.assoc append_Nil2)
  from listener_sent_prefix [OF assms(2) k(2) this]
  have ol: "length (outbound ol) \<le> length (encode_message (response d ps))" .
  from arg_cong [OF k(3), of length] od
  have "length rl \<le> length header + length (encode_message d)" by auto
  moreover from arg_cong [OF k(4), of length] ol
  have "length rd \<le> length header + length (encode_message (response d ps))" by simp
  ultimately show ?thesis using k(5) by simp
qed

lemma link_reaches_quiescence:
  assumes "line_valid d"
  shows "\<exists>k. link_step\<^sup>*\<^sup>* (link_init d ps) k \<and> to_listen k = [] \<and> to_dial k = []"
proof (rule ccontr)
  assume "\<not> ?thesis"
  then have busy: "to_listen k \<noteq> [] \<or> to_dial k \<noteq> []"
    if "(link_step ^^ n) (link_init d ps) k" for n k
    using that relpowp_imp_rtranclp by metis
  have "\<exists>k. (link_step ^^ n) (link_init d ps) k" for n
  proof (induction n)
    case (Suc n)
    then obtain k where k: "(link_step ^^ n) (link_init d ps) k" by blast
    then obtain k' where "link_step k k'" using link_progress link_run_inv busy by blast
    with k show ?case by auto
  qed simp
  then show False using link_bounded [OF link_run_inv assms] by (metis not_less_eq_eq)
qed

section \<open>Properties\<close>

text \<open>
  C12. For any bytes, well-formed or not, and any way of cutting them into chunks, a
  negotiating session does not panic, produces the outputs it would produce on the bytes
  in one piece, and reaches the same state; until the negotiation is over the whole
  session, buffer included, is the same.
\<close>

theorem multistream_any_chunking:
  assumes "s = dialer d \<or> s = listener ps"
  shows "\<exists>s1 s2 outs.
           receive (concat chunks) s = Some (s1, outs) \<and> receive_all chunks s = Some (s2, outs) \<and>
           state s2 = state s1 \<and> (state s1 = MsDone \<or> s2 = s1)"
proof -
  have inv: "ms_inv s" using assms ms_inv_dialer ms_inv_listener by blast
  moreover have "in_sync s [] s []"
    using assms inv by (intro in_sync_init) (auto simp: dialer_def listener_def)
  ultimately obtain s2 outs where
    s2: "receive_all chunks s = Some (s2, outs)" "in_sync s (concat chunks) s2 outs"
    using receive_all_in_sync [of s "[]" s "[]" chunks] by auto
  then show ?thesis unfolding in_sync_def by metis
qed

theorem multistream_any_chunking_witness:
  "\<exists>s1 s2 outs.
     receive (concat [[3, 110], [97, 10]]) (dialer [47]) = Some (s1, outs) \<and>
     receive_all [[3, 110], [97, 10]] (dialer [47]) = Some (s2, outs) \<and>
     state s2 = state s1 \<and> (state s1 = MsDone \<or> s2 = s1)"
  using multistream_any_chunking [of "dialer [47]" "[47]" "[]" "[[3, 110], [97, 10]]"] by simp

text \<open>
  C10. A dialer and a listener joined by two byte streams that deliver their bytes in any
  chunks and any interleaving agree: once nothing is in flight, both have reported the
  dialer's protocol as negotiated when the listener supports it, and both have reported
  it as unavailable otherwise; the dialer is done, and the listener is done exactly when
  the protocol was accepted, otherwise waiting for another proposal.
\<close>

theorem multistream_agreement:
  assumes "utf8_valid d" and "d \<noteq> []" and "length d < 1024" and "d \<noteq> str_lit ''na''"
    and "link_step\<^sup>*\<^sup>* (link_init d ps) k" and "to_listen k = []" and "to_dial k = []"
  shows "last (dial_outs k) = (if d \<in> set ps then Negotiated d else NotAvailable)
       \<and> last (listen_outs k) = last (dial_outs k)
       \<and> length (dial_outs k) = 3 \<and> length (listen_outs k) = 3
       \<and> state (dial k) = MsDone \<and> (state (listen k) = MsDone \<longleftrightarrow> d \<in> set ps)"
proof -
  from assms(5) obtain n where "(link_step ^^ n) (link_init d ps) k"
    using rtranclp_imp_relpowp by metis
  then have "link_inv d ps n k" by (rule link_run_inv)
  from link_quiescent [OF this assms(6,7)] assms(1-4) show ?thesis
    by (simp add: line_valid_def MAX_MESSAGE_LEN_def NOT_AVAILABLE_def)
qed

theorem multistream_agreement_witness:
  "\<exists>k. link_step\<^sup>*\<^sup>* (link_init [47] [[47]]) k \<and> to_listen k = [] \<and> to_dial k = [] \<and>
     last (dial_outs k) = Negotiated [47] \<and> last (listen_outs k) = Negotiated [47]"
proof -
  have valid: "line_valid [47]" by (simp add: line_valid_def MAX_MESSAGE_LEN_def)
  then obtain k where "link_step\<^sup>*\<^sup>* (link_init [47] [[47]]) k" "to_listen k = []" "to_dial k = []"
    using link_reaches_quiescence by blast
  moreover from this have "last (dial_outs k) = Negotiated [47] \<and> last (listen_outs k) = Negotiated [47]"
    using multistream_agreement [of "[47]" "[[47]]" k] by (simp add: str_lit_def)
  ultimately show ?thesis by blast
qed



end
