(* ===== verification/Noise_Frames.thy ===== *)
theory Noise_Frames
  imports Stream_Codec
begin

text \<open>
  The two-byte length-prefixed frames of \<open>crates/noise/src/frames.rs\<close>. The decoder
  keeps a buffer and a read offset and compacts lazily; it refines a decoder on the
  unread bytes, which satisfies the stream-codec contract.
\<close>

section \<open>Model\<close>

definition MAX_FRAME_LEN :: nat where
  "MAX_FRAME_LEN = 65535"

datatype noise_error = NoiseFrameTooLarge nat

definition noise_encode_frame :: "bytes \<Rightarrow> noise_error + bytes" where
  "noise_encode_frame payload =
     (if MAX_FRAME_LEN < length payload then Inl (NoiseFrameTooLarge (length payload))
      else Inr (u16_to_be (word_of_nat (length payload)) @ payload))"

record noise_decoder =
  nd_buffer :: bytes
  nd_offset :: nat

definition noise_decoder_new :: noise_decoder where
  "noise_decoder_new = \<lparr> nd_buffer = [], nd_offset = 0 \<rparr>"

definition noise_push :: "bytes \<Rightarrow> noise_decoder \<Rightarrow> noise_decoder" where
  "noise_push bs d = d\<lparr> nd_buffer := nd_buffer d @ bs \<rparr>"

text \<open>
  \<open>copy_within\<close> moves the unread bytes to the front and \<open>truncate\<close> keeps as many.
  The subtraction is \<open>usize\<close> arithmetic; the offset never passes the end.
\<close>

definition noise_compact_if_needed :: "noise_decoder \<Rightarrow> noise_decoder" where
  "noise_compact_if_needed d =
     (if nd_offset d = length (nd_buffer d) then \<lparr> nd_buffer = [], nd_offset = 0 \<rparr>
      else if length (nd_buffer d) div 2 \<le> nd_offset d then
        \<lparr> nd_buffer = take (length (nd_buffer d) - nd_offset d) (drop (nd_offset d) (nd_buffer d)),
          nd_offset = 0 \<rparr>
      else d)"

definition noise_next_frame :: "noise_decoder \<Rightarrow> noise_decoder \<times> bytes option" where
  "noise_next_frame d =
     (case slice_from (nd_buffer d) (nd_offset d) of
        None \<Rightarrow> (d, None)
      | Some remaining \<Rightarrow>
          (case remaining of
             b0 # b1 # body \<Rightarrow>
               (let len = unat (u16_of_be b0 b1) in
                case slice_get body 0 len of
                  None \<Rightarrow> (d, None)
                | Some payload \<Rightarrow>
                    (case usize_checked_add (nd_offset d) 2 of
                       None \<Rightarrow> (d, None)
                     | Some o1 \<Rightarrow>
                         (case usize_checked_add o1 len of
                            None \<Rightarrow> (d, None)
                          | Some o2 \<Rightarrow>
                              (noise_compact_if_needed (d\<lparr> nd_offset := o2 \<rparr>), Some payload))))
           | _ \<Rightarrow> (d, None)))"

section \<open>The decoder on the unread bytes\<close>

definition noise_step :: "bytes \<Rightarrow> (bytes, unit) step" where
  "noise_step buf =
     (case buf of
        b0 # b1 # body \<Rightarrow>
          if unat (u16_of_be b0 b1) \<le> length body
          then Done (take (unat (u16_of_be b0 b1)) body) (2 + unat (u16_of_be b0 b1))
          else More
      | _ \<Rightarrow> More)"

definition noise_bytes :: "bytes \<Rightarrow> bytes" where
  "noise_bytes p = u16_to_be (word_of_nat (length p)) @ p"

definition noise_valid :: "bytes \<Rightarrow> bool" where
  "noise_valid p \<longleftrightarrow> length p \<le> MAX_FRAME_LEN"

lemma noise_bytes_cons:
  assumes "noise_valid p"
  obtains b0 b1 where "noise_bytes p = b0 # b1 # p" and "unat (u16_of_be b0 b1) = length p"
proof -
  let ?n = "word_of_nat (length p) :: u16"
  have "unat ?n = length p"
    using assms by (intro unat_word_of_nat) (simp add: noise_valid_def MAX_FRAME_LEN_def)
  then show thesis
    by (intro that [of "ucast (drop_bit 8 ?n)" "ucast ?n"]) (simp_all add: noise_bytes_def u16_to_be_def)
qed

lemma noise_step_bytes:
  assumes "noise_valid p"
  shows "noise_step (noise_bytes p @ rest) = Done p (length (noise_bytes p))"
  using assms by (elim noise_bytes_cons) (simp add: noise_step_def)

lemma noise_step_prefix:
  assumes "noise_valid p" and "noise_bytes p = xs @ ys" and "ys \<noteq> []"
  shows "noise_step xs = More"
proof -
  obtain b0 b1 where b: "noise_bytes p = b0 # b1 # p" "unat (u16_of_be b0 b1) = length p"
    using noise_bytes_cons [OF assms(1)] by blast
  consider "xs = []" | a where "xs = [a]" | a c zs where "xs = a # c # zs" by (metis list.exhaust)
  then show ?thesis
  proof cases
    case 3
    with assms(2,3) b have "length zs < length p" "a = b0" "c = b1" by auto
    with 3 b show ?thesis by (simp add: noise_step_def)
  qed (simp_all add: noise_step_def)
qed

interpretation noise_codec: stream_codec noise_valid noise_bytes noise_step
proof
  show "noise_bytes p \<noteq> []" if "noise_valid p" for p using that by (elim noise_bytes_cons) simp
qed (simp_all add: noise_step_bytes noise_step_prefix)

section \<open>Refinement\<close>

definition nd_unread :: "noise_decoder \<Rightarrow> bytes" where
  "nd_unread d = drop (nd_offset d) (nd_buffer d)"

definition nd_inv :: "noise_decoder \<Rightarrow> bool" where
  "nd_inv d \<longleftrightarrow> nd_offset d \<le> length (nd_buffer d) \<and> length (nd_buffer d) \<le> 2 * length (nd_unread d)"

lemma nd_inv_new [simp]: "nd_inv noise_decoder_new" "nd_unread noise_decoder_new = []"
  by (simp_all add: nd_inv_def nd_unread_def noise_decoder_new_def)

lemma nd_push [simp]:
  assumes "nd_inv d"
  shows "nd_inv (noise_push bs d)" and "nd_unread (noise_push bs d) = nd_unread d @ bs"
proof -
  show "nd_unread (noise_push bs d) = nd_unread d @ bs"
    using assms by (simp add: nd_inv_def nd_unread_def noise_push_def)
  with assms show "nd_inv (noise_push bs d)" by (simp add: nd_inv_def noise_push_def)
qed

lemma noise_compact_refines:
  assumes "nd_offset d \<le> length (nd_buffer d)"
  shows "nd_inv (noise_compact_if_needed d)" and "nd_unread (noise_compact_if_needed d) = nd_unread d"
  using assms by (auto simp: noise_compact_if_needed_def nd_inv_def nd_unread_def)

lemma noise_compact_shrinks: "length (nd_buffer (noise_compact_if_needed d)) \<le> length (nd_buffer d)"
  by (simp add: noise_compact_if_needed_def)

lemma noise_next_frame_more:
  assumes "noise_step (nd_unread d) = More"
  shows "noise_next_frame d = (d, None)"
  using assms
  by (auto simp: noise_next_frame_def noise_step_def nd_unread_def slice_from_def slice_get_def Let_def
      split: list.splits if_splits)

lemma noise_next_frame_done:
  assumes "nd_inv d" and "length (nd_buffer d) \<le> usize_max" and "noise_step (nd_unread d) = Done p n"
  shows "\<exists>d'. noise_next_frame d = (d', Some p) \<and> nd_inv d' \<and> nd_unread d' = drop n (nd_unread d)
           \<and> length (nd_buffer d') \<le> length (nd_buffer d)"
proof -
  from assms(3) obtain b0 b1 body where body: "nd_unread d = b0 # b1 # body"
      "unat (u16_of_be b0 b1) \<le> length body" "p = take (unat (u16_of_be b0 b1)) body"
      "n = 2 + unat (u16_of_be b0 b1)"
    by (auto simp: noise_step_def split: list.splits if_splits)
  have off: "nd_offset d \<le> length (nd_buffer d)" using assms(1) by (simp add: nd_inv_def)
  have "length (nd_buffer d) = nd_offset d + length (nd_unread d)"
    using off by (simp add: nd_unread_def)
  then have fits: "nd_offset d + n \<le> length (nd_buffer d)" using body by simp
  let ?d = "d\<lparr> nd_offset := nd_offset d + n \<rparr>"
  have "slice_from (nd_buffer d) (nd_offset d) = Some (b0 # b1 # body)"
    using off body(1) by (simp add: slice_from_def nd_unread_def)
  then have "noise_next_frame d = (noise_compact_if_needed ?d, Some p)"
    using fits assms(2) body
    by (simp add: noise_next_frame_def slice_get_def usize_checked_add_def Let_def)
  moreover have "nd_unread ?d = drop n (nd_unread d)"
    by (simp add: nd_unread_def add.commute)
  ultimately show ?thesis
    using noise_compact_refines [of ?d] noise_compact_shrinks [of ?d] fits by auto
qed

text \<open>A receiver that pushes each chunk and takes frames until none is complete.\<close>

lemma drop_cons_less: "drop n xs = y # ys \<Longrightarrow> n < length xs"
  by (metis drop_all list.distinct(1) not_le)

lemma noise_next_frame_shrinks:
  "noise_next_frame d = (d', Some p) \<Longrightarrow> length (nd_unread d') < length (nd_unread d)"
  by (auto simp: noise_next_frame_def noise_compact_if_needed_def nd_unread_def slice_from_def
      slice_get_def usize_checked_add_def Let_def dest: drop_cons_less
      split: list.splits if_splits option.splits)

function noise_drain :: "noise_decoder \<Rightarrow> noise_decoder \<times> bytes list" where
  "noise_drain d =
     (case noise_next_frame d of
        (d', None) \<Rightarrow> (d', [])
      | (d', Some p) \<Rightarrow> (let (d'', ps) = noise_drain d' in (d'', p # ps)))"
  by pat_completeness auto
termination
  by (relation "measure (\<lambda>d. length (nd_unread d))") (auto dest: noise_next_frame_shrinks [OF sym])

declare noise_drain.simps [simp del]

fun noise_feed :: "noise_decoder \<Rightarrow> bytes list \<Rightarrow> noise_decoder \<times> bytes list" where
  "noise_feed d [] = (d, [])"
| "noise_feed d (c # cs) =
     (let (d1, ps) = noise_drain (noise_push c d); (d2, qs) = noise_feed d1 cs in (d2, ps @ qs))"

lemma noise_drain_refines:
  assumes "nd_inv d" and "length (nd_buffer d) \<le> usize_max"
  shows "\<exists>d' ps. noise_drain d = (d', ps) \<and> drain noise_step (nd_unread d) = (ps, nd_unread d')
           \<and> nd_inv d' \<and> length (nd_buffer d') \<le> length (nd_buffer d)"
  using assms
proof (induction "length (nd_unread d)" arbitrary: d rule: less_induct)
  case less
  show ?case
  proof (cases "noise_step (nd_unread d)")
    case (Done p n)
    from noise_next_frame_done [OF less(2,3) Done] obtain d1 where
      d1: "noise_next_frame d = (d1, Some p)" "nd_inv d1" "nd_unread d1 = drop n (nd_unread d)"
        "length (nd_buffer d1) \<le> length (nd_buffer d)" by blast
    from less(1) [OF noise_next_frame_shrinks [OF d1(1)] d1(2)] d1(4) less(3) obtain d2 ps where
      d2: "noise_drain d1 = (d2, ps)" "drain noise_step (nd_unread d1) = (ps, nd_unread d2)"
        "nd_inv d2" "length (nd_buffer d2) \<le> length (nd_buffer d1)" by force
    have "0 < n" "n \<le> length (nd_unread d)"
      using Done by (auto simp: noise_step_def split: list.splits if_splits)
    with Done d1 d2 show ?thesis
      by (subst noise_drain.simps, subst drain.simps) simp
  next
    case More
    with less(2) noise_next_frame_more [OF More] show ?thesis
      by (subst noise_drain.simps, subst drain.simps) simp
  next
    case (Bad e)
    then show ?thesis by (auto simp: noise_step_def split: list.splits if_splits)
  qed
qed

lemma noise_feed_refines:
  assumes "nd_inv d" and "length (nd_buffer d) + length (concat chunks) \<le> usize_max"
  shows "\<exists>d' ps. noise_feed d chunks = (d', ps) \<and> feed noise_step (nd_unread d) chunks = (ps, nd_unread d')
           \<and> nd_inv d'"
  using assms
proof (induction chunks arbitrary: d)
  case (Cons c cs)
  have "length (nd_buffer (noise_push c d)) \<le> usize_max"
    using Cons.prems(2) by (simp add: noise_push_def)
  from noise_drain_refines [OF nd_push(1) [OF Cons.prems(1)] this] obtain d1 ps where
    d1: "noise_drain (noise_push c d) = (d1, ps)" "drain noise_step (nd_unread d @ c) = (ps, nd_unread d1)"
      "nd_inv d1" "length (nd_buffer d1) \<le> length (nd_buffer d) + length c"
    using nd_push(2) [OF Cons.prems(1), of c] by (auto simp: noise_push_def)
  have "length (nd_buffer d1) + length (concat cs) \<le> usize_max"
    using d1(4) Cons.prems(2) by simp
  from Cons.IH [OF d1(3) this] d1 show ?case by auto
qed simp

section \<open>Properties\<close>

text \<open>
  C17. A receiver that pushes what it reads into the decoder and takes every complete
  frame recovers exactly the payloads the sender framed, in order, however the stream was
  cut into chunks, and ends with an empty buffer; the sender refuses exactly the payloads
  whose length does not fit in two bytes.
\<close>

theorem noise_frames_recovered:
  assumes "map noise_encode_frame ps = map Inr frames" and "concat chunks = concat frames"
    and "length (concat frames) \<le> usize_max"
  shows "(\<exists>d. noise_feed noise_decoder_new chunks = (d, ps) \<and> nd_buffer d = [])
       \<and> (\<forall>p. noise_encode_frame p = Inl (NoiseFrameTooLarge (length p)) \<longleftrightarrow> 65535 < length p)"
proof
  have valid: "\<forall>p \<in> set ps. noise_valid p" and frames: "frames = map noise_bytes ps"
    using assms(1)
  proof (induction ps arbitrary: frames)
    case (Cons p ps) {
      case 1
      with Cons.IH(1) [of "tl frames"] show ?case
        by (cases frames) (auto simp: noise_encode_frame_def noise_valid_def split: if_splits)
    next
      case 2
      with Cons.IH(2) [of "tl frames"] show ?case
        by (cases frames) (auto simp: noise_encode_frame_def noise_bytes_def split: if_splits)
    }
  qed simp_all
  have "length (nd_buffer noise_decoder_new) + length (concat chunks) \<le> usize_max"
    using assms(2,3) by (simp add: noise_decoder_new_def)
  from noise_feed_refines [OF nd_inv_new(1) this] obtain d' ps' where
    "noise_feed noise_decoder_new chunks = (d', ps')" "feed noise_step [] chunks = (ps', nd_unread d')"
    "nd_inv d'" by auto
  moreover have "feed noise_step [] chunks = (ps, [])"
    using valid assms(2) by (intro noise_codec.feed_any_chunking) (simp_all add: frames)
  ultimately show "\<exists>d. noise_feed noise_decoder_new chunks = (d, ps) \<and> nd_buffer d = []"
    by (auto simp: nd_inv_def)
  show "\<forall>p. noise_encode_frame p = Inl (NoiseFrameTooLarge (length p)) \<longleftrightarrow> 65535 < length p"
    by (simp add: noise_encode_frame_def MAX_FRAME_LEN_def)
qed

theorem noise_frames_recovered_witness:
  "\<exists>d. noise_feed noise_decoder_new [[0], [1, 7, 0], [0]] = (d, [[7], []]) \<and> nd_buffer d = []"
proof -
  have "map noise_encode_frame [[7], []] = map Inr [[0, 1, 7], [0, 0]]"
    by (simp add: noise_encode_frame_def MAX_FRAME_LEN_def u16_to_be_def)
  then show ?thesis
    using noise_frames_recovered [of "[[7], []]" "[[0, 1, 7], [0, 0]]" "[[0], [1, 7, 0], [0]]"]
    by (simp add: usize_max_def)
qed

end
