(* ===== verification/Seen_Cache.thy ===== *)
theory Seen_Cache
  imports Prelude
begin

text \<open>
  The duplicate filter of the pubsub engines, \<open>crates/pubsub/src/seen.rs\<close>: a set of
  message identifiers with a queue that orders them by expiry, bounded in size and in
  time. Times are milliseconds in \<open>u64\<close> with saturating addition.
\<close>

section \<open>Model\<close>

type_synonym message_id = bytes

definition message_id :: "bytes \<Rightarrow> bytes \<Rightarrow> message_id" where
  "message_id from seqno = from @ seqno"

definition seen_message_id_from_wire :: "bytes \<Rightarrow> bool \<Rightarrow> message_id" where
  "seen_message_id_from_wire i is_signed = (if is_signed then 1 else 0) # i"

definition seen_message_id :: "bytes \<Rightarrow> bytes \<Rightarrow> bool \<Rightarrow> message_id" where
  "seen_message_id from seqno is_signed = seen_message_id_from_wire (message_id from seqno) is_signed"

record seen_cache =
  seen_ids :: "message_id set"
  seen_order :: "(u64 \<times> message_id) list"

definition seen_empty :: seen_cache where
  "seen_empty = \<lparr> seen_ids = {}, seen_order = [] \<rparr>"

fun evict :: "nat \<Rightarrow> message_id set \<Rightarrow> (u64 \<times> message_id) list \<Rightarrow> seen_cache" where
  "evict max_entries ids [] = \<lparr> seen_ids = ids, seen_order = [] \<rparr>"
| "evict max_entries ids (e # es) =
     (if max_entries < length (e # es) then evict max_entries (ids - {snd e}) es
      else \<lparr> seen_ids = ids, seen_order = e # es \<rparr>)"

definition seen_insert ::
  "message_id \<Rightarrow> u64 \<Rightarrow> u64 \<Rightarrow> nat \<Rightarrow> seen_cache \<Rightarrow> seen_cache \<times> bool"
where
  "seen_insert i now_ms ttl_ms max_entries c =
     (if i \<in> seen_ids c then (c, False)
      else (evict max_entries (insert i (seen_ids c))
              (seen_order c @ [(u64_saturating_add now_ms ttl_ms, i)]), True))"

definition seen_contains :: "seen_cache \<Rightarrow> message_id \<Rightarrow> bool" where
  "seen_contains c i \<longleftrightarrow> i \<in> seen_ids c"

fun gc_loop :: "u64 \<Rightarrow> message_id set \<Rightarrow> (u64 \<times> message_id) list \<Rightarrow> seen_cache" where
  "gc_loop now_ms ids [] = \<lparr> seen_ids = ids, seen_order = [] \<rparr>"
| "gc_loop now_ms ids (e # es) =
     (if now_ms < fst e then \<lparr> seen_ids = ids, seen_order = e # es \<rparr>
      else gc_loop now_ms (ids - {snd e}) es)"

definition seen_gc :: "u64 \<Rightarrow> seen_cache \<Rightarrow> seen_cache" where
  "seen_gc now_ms c = gc_loop now_ms (seen_ids c) (seen_order c)"

definition next_expiry :: "seen_cache \<Rightarrow> u64 option" where
  "next_expiry c = (case seen_order c of [] \<Rightarrow> None | e # _ \<Rightarrow> Some (fst e))"

text \<open>Signed and unsigned claims live in separate namespaces.\<close>

lemma seen_message_id_inject:
  "seen_message_id from seqno s = seen_message_id from' seqno' s' \<longleftrightarrow>
     s = s' \<and> message_id from seqno = message_id from' seqno'"
  by (simp add: seen_message_id_def seen_message_id_from_wire_def)

section \<open>Invariant\<close>

definition seen_inv :: "seen_cache \<Rightarrow> bool" where
  "seen_inv c \<longleftrightarrow> seen_ids c = snd ` set (seen_order c) \<and> distinct (map snd (seen_order c))"

lemma seen_inv_empty [simp]: "seen_inv seen_empty"
  by (simp add: seen_inv_def seen_empty_def)

lemma evict_spec:
  assumes "distinct (map snd es)" and "ids = snd ` set es"
  shows "evict m ids es =
           \<lparr> seen_ids = snd ` set (drop (length es - m) es), seen_order = drop (length es - m) es \<rparr>"
  using assms
proof (induction m ids es rule: evict.induct)
  case (2 m ids e es)
  then have "ids - {snd e} = snd ` set es" by auto
  with 2 show ?case by (auto simp: Suc_diff_le not_less)
qed simp

lemma gc_loop_spec:
  assumes "distinct (map snd es)" and "ids = snd ` set es"
  shows "gc_loop now ids es =
           \<lparr> seen_ids = snd ` set (dropWhile (\<lambda>e. fst e \<le> now) es),
             seen_order = dropWhile (\<lambda>e. fst e \<le> now) es \<rparr>"
  using assms
proof (induction now ids es rule: gc_loop.induct)
  case (2 now ids e es)
  then have "ids - {snd e} = snd ` set es" by auto
  with 2 show ?case by (auto simp: not_less)
qed simp

lemma seen_insert_order:
  assumes "seen_inv c" and "i \<notin> seen_ids c"
  shows "seen_order (fst (seen_insert i now ttl m c)) =
           drop (Suc (length (seen_order c)) - m) (seen_order c @ [(u64_saturating_add now ttl, i)])"
  using assms by (simp add: seen_insert_def evict_spec seen_inv_def image_iff)

lemma seen_gc_order:
  "seen_inv c \<Longrightarrow> seen_order (seen_gc now c) = dropWhile (\<lambda>e. fst e \<le> now) (seen_order c)"
  by (simp add: seen_gc_def gc_loop_spec seen_inv_def)

lemma seen_inv_insert: "seen_inv c \<Longrightarrow> seen_inv (fst (seen_insert i now ttl m c))"
proof (cases "i \<in> seen_ids c")
  case False
  define es where "es = seen_order c @ [(u64_saturating_add now ttl, i)]"
  assume inv: "seen_inv c"
  with False have es: "distinct (map snd es)" "insert i (seen_ids c) = snd ` set es"
    by (auto simp: seen_inv_def es_def)
  from es(1) have "distinct (map snd (drop n es))" for n
    by (metis distinct_drop drop_map)
  moreover have "fst (seen_insert i now ttl m c) = evict m (insert i (seen_ids c)) es"
    using False by (simp add: seen_insert_def es_def)
  ultimately show ?thesis by (simp add: evict_spec [OF es] seen_inv_def)
qed (simp add: seen_insert_def)

lemma distinct_dropWhile_map: "distinct (map f xs) \<Longrightarrow> distinct (map f (dropWhile P xs))"
  by (induction xs) auto

lemma seen_inv_gc: "seen_inv c \<Longrightarrow> seen_inv (seen_gc now c)"
  by (simp add: seen_gc_def gc_loop_spec seen_inv_def distinct_dropWhile_map)

lemma seen_contains_iff: "seen_inv c \<Longrightarrow> seen_contains c i \<longleftrightarrow> i \<in> snd ` set (seen_order c)"
  by (simp add: seen_contains_def seen_inv_def)

section \<open>Runs\<close>

text \<open>
  A run of the cache with the identifiers it accepted, oldest first, and the time of the
  last collection.
\<close>

datatype seen_op = SInsert message_id u64 | SGc u64

fun op_time :: "seen_op \<Rightarrow> u64" where
  "op_time (SInsert i now) = now"
| "op_time (SGc now) = now"

type_synonym seen_history = "seen_cache \<times> (u64 \<times> message_id) list \<times> u64"

fun seen_step :: "u64 \<Rightarrow> nat \<Rightarrow> seen_op \<Rightarrow> seen_history \<Rightarrow> seen_history" where
  "seen_step ttl m (SInsert i now) (c, h, g) =
     (let (c', fresh) = seen_insert i now ttl m c
      in (c', if fresh then h @ [(u64_saturating_add now ttl, i)] else h, g))"
| "seen_step ttl m (SGc now) (c, h, g) = (seen_gc now c, h, now)"

definition seen_run :: "u64 \<Rightarrow> nat \<Rightarrow> seen_op list \<Rightarrow> seen_history" where
  "seen_run ttl m ops = foldl (\<lambda>s op. seen_step ttl m op s) (seen_empty, [], 0) ops"

definition op_ok :: "u64 \<Rightarrow> seen_op \<Rightarrow> bool" where
  "op_ok ttl op \<longleftrightarrow> unat (op_time op) + unat ttl < 2 ^ 64"

text \<open>The window the cache must show: the last \<open>m\<close> accepted entries, without the expired ones.\<close>

definition window :: "nat \<Rightarrow> (u64 \<times> message_id) list \<Rightarrow> u64 \<Rightarrow> (u64 \<times> message_id) list" where
  "window m h g = dropWhile (\<lambda>e. fst e \<le> g) (drop (length h - m) h)"

lemma dropWhile_sorted:
  "sorted (map fst xs) \<Longrightarrow> dropWhile (\<lambda>e. fst e \<le> g) xs = filter (\<lambda>e. g < fst e) xs"
  for g :: "'a::linorder"
proof (induction xs)
  case (Cons x xs)
  show ?case
  proof (cases "fst x \<le> g")
    case False
    then have "\<forall>e \<in> set (x # xs). g < fst e" using Cons.prems by fastforce
    then have "filter (\<lambda>e. g < fst e) (x # xs) = x # xs" by (intro filter_True) blast
    with False show ?thesis by simp
  qed (use Cons in simp)
qed simp

lemma dropWhile_snoc: "\<not> P y \<Longrightarrow> dropWhile P (xs @ [y]) = dropWhile P xs @ [y]"
  by (induction xs) auto

lemma dropWhile_weaker: "(\<And>x. P x \<Longrightarrow> Q x) \<Longrightarrow> dropWhile Q (dropWhile P xs) = dropWhile Q xs"
  by (induction xs) auto

lemma window_snoc:
  assumes "sorted (map fst h)" and "0 < m" and "g < fst e"
  shows "window m (h @ [e]) g = drop (Suc (length (window m h g)) - m) (window m h g @ [e])"
proof (cases "length h < m")
  case True
  have "length (window m h g) \<le> length h"
    unfolding window_def by (rule order_trans [OF length_dropWhile_le]) simp
  with True assms(3) show ?thesis by (simp add: window_def dropWhile_snoc)
next
  case False
  then have "length (drop (length h - m) h) = m" by simp
  then obtain w ws where w: "drop (length h - m) h = w # ws" "length ws = m - 1"
    using assms(2) by (cases "drop (length h - m) h") auto
  have "drop (length (h @ [e]) - m) (h @ [e]) = ws @ [e]"
  proof -
    have "drop (Suc (length h - m)) h = ws" using w(1) by (simp add: drop_Suc flip: tl_drop)
    then show ?thesis using False assms(2) by (simp add: Suc_diff_le)
  qed
  then have new: "window m (h @ [e]) g = dropWhile (\<lambda>e. fst e \<le> g) ws @ [e]"
    unfolding window_def using assms(3) by (simp add: dropWhile_snoc)
  show ?thesis
  proof (cases "fst w \<le> g")
    case True
    then have old: "window m h g = dropWhile (\<lambda>e. fst e \<le> g) ws" by (simp add: window_def w(1))
    have "length (window m h g) \<le> m - 1"
      unfolding old using length_dropWhile_le [of "\<lambda>e. fst e \<le> g" ws] w(2) by simp
    then show ?thesis using new old assms(2) by simp
  next
    case False
    have "sorted (map fst (w # ws))" 
      unfolding w(1) [symmetric] drop_map [symmetric] using assms(1) by (rule sorted_wrt_drop)
    with False have "\<forall>x \<in> set ws. \<not> fst x \<le> g" by auto
    then have "dropWhile (\<lambda>e. fst e \<le> g) ws = ws" by (cases ws) auto
    with False new w assms(2) show ?thesis by (simp add: window_def)
  qed
qed

text \<open>What a run keeps true: the cache shows the window of its history.\<close>

definition run_inv :: "u64 \<Rightarrow> nat \<Rightarrow> u64 \<Rightarrow> seen_history \<Rightarrow> bool" where
  "run_inv ttl m now s \<longleftrightarrow>
     (case s of (c, h, g) \<Rightarrow>
        seen_inv c \<and> seen_order c = window m h g \<and> g \<le> now \<and> sorted (map fst h) \<and>
        (\<forall>e \<in> set h. unat (fst e) \<le> unat now + unat ttl))"

lemma run_inv_insert:
  assumes inv: "run_inv ttl m now (c, h, g)" and now': "now \<le> now'"
    and ok: "unat now' + unat ttl < 2 ^ 64" and "0 < ttl" and "0 < m"
  shows "run_inv ttl m now' (seen_step ttl m (SInsert i now') (c, h, g))"
proof (cases "i \<in> seen_ids c")
  case True
  with inv now' show ?thesis
    by (auto simp: run_inv_def seen_insert_def word_le_nat_alt)
next
  case False
  have e: "u64_saturating_add now' ttl = now' + ttl" and une: "unat (now' + ttl) = unat now' + unat ttl"
    using ok by (simp_all add: u64_saturating_add_def unat_word_ariths)
  have now'_nat: "unat now \<le> unat now'" using now' by (simp add: word_le_nat_alt)
  from inv have c: "seen_inv c" "seen_order c = window m h g" "g \<le> now" "sorted (map fst h)"
    "\<forall>e \<in> set h. unat (fst e) \<le> unat now + unat ttl" by (simp_all add: run_inv_def)
  have "unat g < unat (now' + ttl)"
    using c(3) now'_nat \<open>0 < ttl\<close> une by (simp add: word_le_nat_alt word_less_nat_alt)
  then have g: "g < fst (now' + ttl, i)" by (simp add: word_less_nat_alt)
  have "sorted (map fst (h @ [(now' + ttl, i)]))"
    using c(4,5) now'_nat une by (force simp: sorted_append word_le_nat_alt)
  moreover have "seen_order (fst (seen_insert i now' ttl m c)) = window m (h @ [(now' + ttl, i)]) g"
    using seen_insert_order [OF c(1) False, of now' ttl m] window_snoc [OF c(4) \<open>0 < m\<close> g] c(2) e by simp
  moreover have "snd (seen_insert i now' ttl m c)" using False by (simp add: seen_insert_def)
  ultimately show ?thesis
    using seen_inv_insert [OF c(1), of i now' ttl m] c(3,5) now' now'_nat e une
    by (auto simp: run_inv_def split: prod.splits)
qed

lemma run_inv_gc:
  assumes inv: "run_inv ttl m now (c, h, g)" and now': "now \<le> now'"
  shows "run_inv ttl m now' (seen_step ttl m (SGc now') (c, h, g))"
proof -
  from inv now' have "g \<le> now'" by (auto simp: run_inv_def)
  then have "dropWhile (\<lambda>e. fst e \<le> now') (window m h g) = window m h now'"
    unfolding window_def by (intro dropWhile_weaker) auto
  with inv now' show ?thesis
    by (auto simp: run_inv_def seen_gc_order seen_inv_gc word_le_nat_alt)
qed

definition last_time :: "seen_op list \<Rightarrow> u64" where
  "last_time ops = (if ops = [] then 0 else op_time (last ops))"

lemma run_inv_step:
  assumes "run_inv ttl m now s" and "now \<le> op_time op" and "op_ok ttl op" and "0 < ttl" and "0 < m"
  shows "run_inv ttl m (op_time op) (seen_step ttl m op s)"
proof -
  obtain c h g where s: "s = (c, h, g)" by (metis prod_cases3)
  show ?thesis
  proof (cases op)
    case (SInsert i t)
    with assms run_inv_insert [of ttl m now c h g t i] show ?thesis by (simp add: s op_ok_def)
  next
    case (SGc t)
    with assms run_inv_gc [of ttl m now c h g t] show ?thesis by (simp add: s)
  qed
qed

lemma run_inv_run:
  assumes "sorted (map op_time ops)" and "\<forall>op \<in> set ops. op_ok ttl op" and "0 < ttl" and "0 < m"
  shows "run_inv ttl m (last_time ops) (seen_run ttl m ops)"
  using assms
proof (induction ops rule: rev_induct)
  case Nil
  then show ?case
    by (simp add: run_inv_def seen_run_def window_def seen_empty_def seen_inv_def last_time_def)
next
  case (snoc op ops)
  then have "run_inv ttl m (last_time ops) (seen_run ttl m ops)" by (simp add: sorted_append)
  moreover have "last_time ops \<le> op_time op"
    using snoc.prems(1) by (auto simp: last_time_def sorted_append)
  ultimately have "run_inv ttl m (op_time op) (seen_step ttl m op (seen_run ttl m ops))"
    using snoc.prems by (intro run_inv_step) auto
  then show ?case by (simp add: seen_run_def last_time_def)
qed

lemma length_window: "length (window m h g) \<le> m"
  unfolding window_def by (rule order_trans [OF length_dropWhile_le]) simp

lemma window_filter:
  "sorted (map fst h) \<Longrightarrow> window m h g = filter (\<lambda>e. g < fst e) (drop (length h - m) h)"
  unfolding window_def
  by (rule dropWhile_sorted) (simp add: sorted_wrt_drop flip: drop_map)

lemma sorted_window: "sorted (map fst h) \<Longrightarrow> sorted (map fst (window m h g))"
  unfolding window_filter by (intro sorted_filter) (simp add: sorted_wrt_drop flip: drop_map)

section \<open>Properties\<close>

text \<open>
  C16. After any sequence of inserts and collections at non-decreasing times, the cache
  holds exactly the last \<open>max_entries\<close> accepted identifiers whose expiry lies after the
  last collection: no identifier is forgotten before its time-to-live unless the capacity
  is exceeded, none survives a collection after it, the size bound holds, and the reported
  next expiry is the least expiry held.
\<close>

theorem seen_cache_is_window:
  assumes "sorted (map op_time ops)" and "\<forall>op \<in> set ops. unat (op_time op) + unat ttl < 2 ^ 64"
    and "0 < ttl" and "0 < max_entries" and "seen_run ttl max_entries ops = (c, accepted, collected)"
  shows "seen_order c = filter (\<lambda>e. collected < fst e) (drop (length accepted - max_entries) accepted)
       \<and> (\<forall>i. seen_contains c i \<longleftrightarrow> i \<in> snd ` set (seen_order c))
       \<and> length (seen_order c) \<le> max_entries
       \<and> next_expiry c = (if seen_order c = [] then None else Some (Min (fst ` set (seen_order c))))"
proof -
  have "\<forall>op \<in> set ops. op_ok ttl op" using assms(2) by (simp add: op_ok_def)
  from run_inv_run [OF assms(1) this assms(3,4)] assms(5)
  have inv: "seen_inv c" "seen_order c = window max_entries accepted collected" "sorted (map fst accepted)"
    by (simp_all add: run_inv_def)
  have "next_expiry c = (if seen_order c = [] then None else Some (Min (fst ` set (seen_order c))))"
  proof (cases "seen_order c")
    case (Cons e es)
    with sorted_window [OF inv(3)] inv(2) have "\<forall>x \<in> set es. fst e \<le> fst x"
      by (metis (no_types) list.simps(9) sorted_simps(2) imageI list.set_map)
    then have "Min (fst ` set (e # es)) = fst e" by (intro Min_eqI) auto
    with Cons show ?thesis by (simp add: next_expiry_def)
  qed (simp add: next_expiry_def)
  moreover have "length (seen_order c) \<le> max_entries" by (simp add: inv(2) length_window)
  moreover have "\<forall>i. seen_contains c i \<longleftrightarrow> i \<in> snd ` set (seen_order c)"
    using inv(1) by (simp add: seen_contains_iff)
  ultimately show ?thesis using inv(2) window_filter [OF inv(3)] by simp
qed

theorem seen_cache_is_window_witness:
  "case seen_run 10 2 [SInsert [1] 5, SInsert [2] 6, SInsert [1] 7, SInsert [3] 8, SGc 16] of
     (c, accepted, collected) \<Rightarrow>
       seen_order c = filter (\<lambda>e. collected < fst e) (drop (length accepted - 2) accepted)"
proof -
  let ?ops = "[SInsert [1] 5, SInsert [2] 6, SInsert [1] 7, SInsert [3] 8, SGc 16]"
  obtain c accepted collected where run: "seen_run 10 2 ?ops = (c, accepted, collected)"
    by (metis prod_cases3)
  show ?thesis
    using seen_cache_is_window [of ?ops 10 2 c accepted collected] run by simp
qed

end
