(* ===== verification/Token_Buckets.thy ===== *)
theory Token_Buckets
  imports Btree_Map
begin

text \<open>
  The rate limiter of the relay server, \<open>crates/relay-server/src/limiter.rs\<close>: a token
  bucket per key, refilled by whole intervals, and a calendar of the times at which the
  buckets are looked at again so that full ones are dropped. A division by a zero
  interval is a panic, and the sweep is a loop that a proof must show to end.
\<close>

section \<open>Model\<close>

definition u32_saturating_add :: "u32 \<Rightarrow> u32 \<Rightarrow> u32" where
  "u32_saturating_add a b = (if unat a + unat b < 2 ^ 32 then a + b else - 1)"

definition u64_saturating_mul :: "u64 \<Rightarrow> u64 \<Rightarrow> u64" where
  "u64_saturating_mul a b = (if unat a * unat b < 2 ^ 64 then a * b else - 1)"

record rate_limit =
  capacity :: u32
  refill_interval_ms :: u64

record bucket =
  tokens :: u32
  last_refill_ms :: u64
  generation :: u64

record 'k token_buckets =
  tb_config :: rate_limit
  tb_buckets :: "('k, bucket) btree"
  tb_due :: "(u64, ('k \<times> u64) list) btree"
  tb_next_generation :: u64

definition token_buckets_new :: "rate_limit \<Rightarrow> 'k token_buckets" where
  "token_buckets_new config =
     \<lparr> tb_config = config, tb_buckets = [], tb_due = [], tb_next_generation = 1 \<rparr>"

definition refill :: "bucket \<Rightarrow> rate_limit \<Rightarrow> u64 \<Rightarrow> unit fault + bucket" where
  "refill b config now_ms =
     (let elapsed = u64_saturating_sub now_ms (last_refill_ms b) in
      if refill_interval_ms config = 0 then Inl Panic
      else let intervals = elapsed div refill_interval_ms config in
        if intervals = 0 then Inr b
        else let added = (ucast (min intervals 0xFFFFFFFF) :: u32) in
          Inr (b\<lparr> tokens := min (u32_saturating_add (tokens b) added) (capacity config),
                  last_refill_ms :=
                    u64_saturating_add (last_refill_ms b)
                      (u64_saturating_mul intervals (refill_interval_ms config)) \<rparr>))"

definition schedule ::
  "'k \<Rightarrow> bucket \<Rightarrow> 'k::linorder token_buckets \<Rightarrow> 'k token_buckets \<times> bucket"
where
  "schedule k b tb =
     (if generation b \<noteq> 0 then (tb, b)
      else let deadline = u64_saturating_add (last_refill_ms b) (refill_interval_ms (tb_config tb)) in
        if deadline = - 1 then (tb, b)
        else let g = tb_next_generation tb in
          (tb\<lparr> tb_next_generation := max (g + 1) 1,
               tb_due := bt_insert deadline
                 ((case bt_get (tb_due tb) deadline of None \<Rightarrow> [] | Some es \<Rightarrow> es) @ [(k, g)]) (tb_due tb) \<rparr>,
           b\<lparr> generation := g \<rparr>))"

text \<open>\<open>schedule\<close> followed by the insertion of the bucket, as all three callers do.\<close>

definition reinsert :: "'k \<Rightarrow> bucket \<Rightarrow> 'k::linorder token_buckets \<Rightarrow> 'k token_buckets" where
  "reinsert k b tb =
     (let (tb', b') = schedule k b tb in tb'\<lparr> tb_buckets := bt_insert k b' (tb_buckets tb') \<rparr>)"

fun sweep_entries ::
  "u64 \<Rightarrow> ('k \<times> u64) list \<Rightarrow> 'k::linorder token_buckets \<Rightarrow> unit fault + 'k token_buckets"
where
  "sweep_entries now_ms [] tb = Inr tb"
| "sweep_entries now_ms ((k, g) # es) tb =
     (case bt_get (tb_buckets tb) k of
        None \<Rightarrow> sweep_entries now_ms es tb
      | Some b \<Rightarrow>
          let tb1 = tb\<lparr> tb_buckets := bt_remove k (tb_buckets tb) \<rparr> in
          if generation b \<noteq> g
          then sweep_entries now_ms es (tb1\<lparr> tb_buckets := bt_insert k b (tb_buckets tb1) \<rparr>)
          else (case refill (b\<lparr> generation := 0 \<rparr>) (tb_config tb) now_ms of
              Inl e \<Rightarrow> Inl e
            | Inr b1 \<Rightarrow>
                if tokens b1 < capacity (tb_config tb)
                then sweep_entries now_ms es (reinsert k b1 tb1)
                else sweep_entries now_ms es tb1))"

partial_function (option) sweep_loop ::
  "u64 \<Rightarrow> 'k::linorder token_buckets \<Rightarrow> (unit fault + 'k token_buckets) option"
where
  "sweep_loop now_ms tb =
     (case tb_due tb of
        [] \<Rightarrow> Some (Inr tb)
      | (deadline, entries) # rest \<Rightarrow>
          if now_ms < deadline then Some (Inr tb)
          else (case sweep_entries now_ms entries (tb\<lparr> tb_due := bt_remove deadline (tb_due tb) \<rparr>) of
              Inl e \<Rightarrow> Some (Inl e)
            | Inr tb' \<Rightarrow> sweep_loop now_ms tb'))"

definition sweep :: "u64 \<Rightarrow> 'k::linorder token_buckets \<Rightarrow> unit fault + 'k token_buckets" where
  "sweep now_ms tb = (case sweep_loop now_ms tb of None \<Rightarrow> Inl Diverge | Some r \<Rightarrow> r)"

definition bucket_or_full :: "'k \<Rightarrow> u64 \<Rightarrow> 'k token_buckets \<Rightarrow> bucket" where
  "bucket_or_full k now_ms tb =
     (case bt_get (tb_buckets tb) k of
        Some b \<Rightarrow> b
      | None \<Rightarrow> \<lparr> tokens = capacity (tb_config tb), last_refill_ms = now_ms, generation = 0 \<rparr>)"

definition consume :: "'k \<Rightarrow> u64 \<Rightarrow> 'k::linorder token_buckets \<Rightarrow> unit fault + ('k token_buckets \<times> bool)" where
  "consume k now_ms tb0 =
     (case sweep now_ms tb0 of
        Inl e \<Rightarrow> Inl e
      | Inr tb \<Rightarrow>
          let tb1 = tb\<lparr> tb_buckets := bt_remove k (tb_buckets tb) \<rparr> in
          (case refill (bucket_or_full k now_ms tb) (tb_config tb) now_ms of
             Inl e \<Rightarrow> Inl e
           | Inr b \<Rightarrow>
               if tokens b = 0 then Inr (reinsert k b tb1, False)
               else Inr (reinsert k (b\<lparr> tokens := tokens b - 1 \<rparr>) tb1, True)))"

definition next_due :: "'k token_buckets \<Rightarrow> u64 option" where
  "next_due tb = (case tb_due tb of [] \<Rightarrow> None | (due, _) # _ \<Rightarrow> Some due)"

section \<open>Refilling\<close>

definition bucket_ok :: "rate_limit \<Rightarrow> bucket \<Rightarrow> bool" where
  "bucket_ok config b \<longleftrightarrow> tokens b \<le> capacity config"

lemma unat_min_word: "unat (min a b) = min (unat a) (unat b)" for a b :: "'a::len word"
  by (simp add: min_def word_le_nat_alt)

lemma unat_u32_saturating_add: "unat (u32_saturating_add a b) = min (unat a + unat b) (2 ^ 32 - 1)"
  by (simp add: u32_saturating_add_def unat_word_ariths unsigned_minus_1_eq_mask mask_eq_exp_minus_1)

lemma unat_u64_saturating_add: "unat (u64_saturating_add a b) = min (unat a + unat b) (2 ^ 64 - 1)"
  by (simp add: u64_saturating_add_def unat_word_ariths unsigned_minus_1_eq_mask mask_eq_exp_minus_1)

lemma unat_u64_saturating_sub: "unat (u64_saturating_sub a b) = unat a - unat b"
  by (auto simp: u64_saturating_sub_def word_less_nat_alt unat_sub not_less word_le_nat_alt)

lemma unat_u64_saturating_mul: "unat (u64_saturating_mul a b) = min (unat a * unat b) (2 ^ 64 - 1)"
  by (simp add: u64_saturating_mul_def unat_word_ariths unsigned_minus_1_eq_mask mask_eq_exp_minus_1)

lemma min_saturated: "c \<le> M \<Longrightarrow> min (min (t + min n M) M) c = min (t + n) c" for c :: nat
  by (simp add: min_def)

lemma min_exact: "l + k \<le> M \<Longrightarrow> min (l + min k M) M = l + k" for l :: nat
  by simp

lemma refill_spec:
  assumes "0 < refill_interval_ms config" and "bucket_ok config b"
    and n: "n = (unat now - unat (last_refill_ms b)) div unat (refill_interval_ms config)"
  shows "\<exists>b'. refill b config now = Inr b' \<and> generation b' = generation b \<and> bucket_ok config b'
           \<and> unat (tokens b') = min (unat (tokens b) + n) (unat (capacity config))
           \<and> unat (last_refill_ms b') = unat (last_refill_ms b) + n * unat (refill_interval_ms config)"
proof -
  define iv where "iv = u64_saturating_sub now (last_refill_ms b) div refill_interval_ms config"
  have iv: "unat iv = n"
    by (simp add: iv_def n unat_div_distrib unat_u64_saturating_sub)
  have pos: "refill_interval_ms config \<noteq> 0" using assms(1) by auto
  show ?thesis
  proof (cases "n = 0")
    case True
    then have "iv = 0" using iv by (simp add: unat_eq_0)
    then have "refill b config now = Inr b" using pos by (simp add: refill_def iv_def Let_def)
    with True assms(2) show ?thesis by (simp add: bucket_ok_def word_le_nat_alt)
  next
    case False
    then have "iv \<noteq> 0" using iv by auto
    let ?added = "ucast (min iv 0xFFFFFFFF) :: u32"
    have "unat ?added = min n 4294967295"
      by (simp add: unat_ucast_mod unat_min_word iv)
    let ?b = "b\<lparr> tokens := min (u32_saturating_add (tokens b) ?added) (capacity config),
                last_refill_ms := u64_saturating_add (last_refill_ms b)
                  (u64_saturating_mul iv (refill_interval_ms config)) \<rparr>"
    have "refill b config now = Inr ?b"
      using pos \<open>iv \<noteq> 0\<close> by (simp add: refill_def iv_def Let_def)
    moreover have "unat (tokens ?b) = min (unat (tokens b) + n) (unat (capacity config))"
    proof -
      have "unat (capacity config) \<le> 4294967295" using unat_u32_less [of "capacity config"] by linarith
      then show ?thesis
        by (simp add: unat_min_word unat_u32_saturating_add \<open>unat ?added = _\<close> min_saturated)
    qed
    moreover have "unat (last_refill_ms ?b) = unat (last_refill_ms b) + n * unat (refill_interval_ms config)"
    proof -
      have "n * unat (refill_interval_ms config) \<le> unat now - unat (last_refill_ms b)"
        unfolding n by simp
      moreover have "unat (last_refill_ms b) \<le> unat now"
        using False n by (metis diff_is_0_eq' div_0 nat_le_linear)
      ultimately have "unat (last_refill_ms b) + n * unat (refill_interval_ms config) \<le> 18446744073709551615"
        using unat_u64_less [of now] by linarith
      then show ?thesis
        by (simp add: unat_u64_saturating_add unat_u64_saturating_mul iv min_exact)
    qed
    moreover have "bucket_ok config ?b" by (simp add: bucket_ok_def)
    ultimately show ?thesis by auto
  qed
qed

section \<open>Accounting for one key\<close>

text \<open>
  \<open>rate_ok config t0 now a\<close>: a key that has been granted \<open>a\<close> tokens since \<open>t0\<close>
  has no more left than its capacity and the refills since then allow. A key without a
  bucket is as good as full.
\<close>

fun rate_ok :: "rate_limit \<Rightarrow> nat \<Rightarrow> u64 \<Rightarrow> nat \<Rightarrow> bucket option \<Rightarrow> bool" where
  "rate_ok config t0 now a None \<longleftrightarrow> a \<le> (unat now - t0) div unat (refill_interval_ms config)"
| "rate_ok config t0 now a (Some b) \<longleftrightarrow>
     bucket_ok config b \<and> t0 \<le> unat (last_refill_ms b) \<and> last_refill_ms b \<le> now \<and>
     a + unat (tokens b) \<le>
       unat (capacity config) + (unat (last_refill_ms b) - t0) div unat (refill_interval_ms config)"

lemma rate_ok_generation [simp]:
  "rate_ok config t0 now a (Some (b\<lparr> generation := g \<rparr>)) = rate_ok config t0 now a (Some b)"
  by (simp add: bucket_ok_def)

lemma rate_ok_mono:
  assumes "rate_ok config t0 now a ob" and "now \<le> now'"
  shows "rate_ok config t0 now' a ob"
proof (cases ob)
  case None
  have "(unat now - t0) div unat (refill_interval_ms config) \<le> (unat now' - t0) div unat (refill_interval_ms config)"
    using assms(2) by (intro div_le_mono diff_le_mono) (simp add: word_le_nat_alt)
  with assms(1) None show ?thesis by simp
next
  case (Some b)
  with assms show ?thesis by (auto intro: order_trans)
qed

lemma rate_ok_fresh:
  assumes "rate_ok config t0 now a None" and "t0 \<le> unat now"
  shows "rate_ok config t0 now a (Some \<lparr> tokens = capacity config, last_refill_ms = now, generation = 0 \<rparr>)"
  using assms by (simp add: bucket_ok_def)

lemma rate_ok_refill:
  assumes "0 < refill_interval_ms config" and "rate_ok config t0 now a (Some b)"
  obtains b' where "refill b config now = Inr b'" and "rate_ok config t0 now a (Some b')"
    and "unat now < unat (last_refill_ms b') + unat (refill_interval_ms config)"
    and "generation b' = generation b"
    and "unat (tokens b') =
      min (unat (tokens b) + (unat now - unat (last_refill_ms b)) div unat (refill_interval_ms config))
          (unat (capacity config))"
proof -
  define i where "i = unat (refill_interval_ms config)"
  define n where "n = (unat now - unat (last_refill_ms b)) div i"
  have "0 < i" using assms(1) by (simp add: i_def word_less_nat_alt)
  have b: "bucket_ok config b" "t0 \<le> unat (last_refill_ms b)" "unat (last_refill_ms b) \<le> unat now"
    "a + unat (tokens b) \<le> unat (capacity config) + (unat (last_refill_ms b) - t0) div i"
    using assms(2) by (simp_all add: i_def word_le_nat_alt)
  from refill_spec [OF assms(1) b(1), of n now] obtain b' where b':
    "refill b config now = Inr b'" "generation b' = generation b" "bucket_ok config b'"
    "unat (tokens b') = min (unat (tokens b) + n) (unat (capacity config))"
    "unat (last_refill_ms b') = unat (last_refill_ms b) + n * i"
    by (auto simp: n_def i_def)
  have "unat now - unat (last_refill_ms b) = n * i + (unat now - unat (last_refill_ms b)) mod i"
    unfolding n_def by simp
  moreover have "(unat now - unat (last_refill_ms b)) mod i < i" using \<open>0 < i\<close> by simp
  ultimately have last: "unat (last_refill_ms b') \<le> unat now" "unat now < unat (last_refill_ms b') + i"
    using b(3) b'(5) by linarith+
  have "(unat (last_refill_ms b') - t0) div i = (unat (last_refill_ms b) - t0 + n * i) div i"
    using b(2) b'(5) by simp
  also have "\<dots> = (unat (last_refill_ms b) - t0) div i + n" using \<open>0 < i\<close> by simp
  finally have "a + unat (tokens b') \<le> unat (capacity config) + (unat (last_refill_ms b') - t0) div i"
    using b(4) b'(4) by simp
  then have "rate_ok config t0 now a (Some b')"
    using b'(3,5) b(2) last(1) by (simp add: i_def word_le_nat_alt)
  with b' last(2) show thesis by (intro that) (simp_all add: i_def n_def)
qed

lemma rate_ok_full:
  assumes "rate_ok config t0 now a (Some b)" and "\<not> tokens b < capacity config"
  shows "rate_ok config t0 now a None"
proof -
  have "unat (capacity config) \<le> unat (tokens b)" using assms(2) by (simp add: word_less_nat_alt)
  with assms(1) have "a \<le> (unat (last_refill_ms b) - t0) div unat (refill_interval_ms config)" by simp
  also have "\<dots> \<le> (unat now - t0) div unat (refill_interval_ms config)"
    using assms(1) by (intro div_le_mono diff_le_mono) (simp add: word_le_nat_alt)
  finally show ?thesis by simp
qed

lemma rate_ok_take:
  assumes "rate_ok config t0 now a (Some b)" and "tokens b \<noteq> 0"
  shows "rate_ok config t0 now (Suc a) (Some (b\<lparr> tokens := tokens b - 1 \<rparr>))"
proof -
  have "0 < unat (tokens b)" using assms(2) by (simp add: unat_gt_0)
  then have "unat (tokens b - 1) = unat (tokens b) - 1"
    by (metis One_nat_def Suc_leI unat_1 unat_sub word_le_nat_alt)
  with assms \<open>0 < unat (tokens b)\<close> show ?thesis
    by (auto simp: bucket_ok_def word_le_nat_alt)
qed

declare rate_ok.simps [simp del]

section \<open>What a sweep keeps of every key\<close>

definition tb_keeps :: "rate_limit \<Rightarrow> ('k \<Rightarrow> bucket option \<Rightarrow> bool) \<Rightarrow> 'k::linorder token_buckets \<Rightarrow> bool" where
  "tb_keeps config P tb \<longleftrightarrow>
     tb_config tb = config \<and> bt_wf (tb_buckets tb) \<and> bt_wf (tb_due tb) \<and>
     (\<forall>k. P k (bt_get (tb_buckets tb) k))"

text \<open>The deadlines that a sweep at \<open>now\<close> still has to handle.\<close>

definition overdue :: "u64 \<Rightarrow> 'k token_buckets \<Rightarrow> u64 set" where
  "overdue now tb = {d \<in> fst ` set (tb_due tb). d \<le> now}"

lemma schedule_fields [simp]:
  "tb_config (fst (schedule k b tb)) = tb_config tb"
  "tb_buckets (fst (schedule k b tb)) = tb_buckets tb"
  "bt_wf (tb_due tb) \<Longrightarrow> bt_wf (tb_due (fst (schedule k b tb)))"
  by (simp_all add: schedule_def Let_def)

lemma schedule_bucket: "\<exists>g. snd (schedule k b tb) = b\<lparr> generation := g \<rparr>"
  by (cases "generation b \<noteq> 0") (auto simp: schedule_def Let_def intro: exI [of _ "generation b"])

lemma overdue_schedule:
  assumes "unat now < unat (last_refill_ms b) + unat (refill_interval_ms (tb_config tb))"
  shows "overdue now (fst (schedule k b tb)) = overdue now tb"
proof -
  let ?d = "u64_saturating_add (last_refill_ms b) (refill_interval_ms (tb_config tb))"
  have "now < ?d" if "?d \<noteq> - 1"
  proof -
    from that have "?d = last_refill_ms b + refill_interval_ms (tb_config tb)"
      and "unat (last_refill_ms b) + unat (refill_interval_ms (tb_config tb)) < 2 ^ 64"
      by (auto simp: u64_saturating_add_def split: if_splits)
    with assms show ?thesis by (simp add: word_less_nat_alt unat_word_ariths)
  qed
  then show ?thesis
    by (auto simp: schedule_def overdue_def Let_def bt_keys_insert)
qed

lemma overdue_reinsert:
  assumes "unat now < unat (last_refill_ms b) + unat (refill_interval_ms (tb_config tb))"
  shows "overdue now (reinsert k b tb) = overdue now tb"
  using overdue_schedule [OF assms, of k] by (simp add: reinsert_def case_prod_beta overdue_def)

text \<open>
  A statement about the bucket of a key that a refill keeps, that does not look at the
  generation, and that a full bucket hands over to the missing one, is kept by a sweep.
\<close>

locale bucket_account =
  fixes config :: rate_limit and now :: u64 and P :: "'k::linorder \<Rightarrow> bucket option \<Rightarrow> bool"
  assumes keeps_generation: "P k (Some b) \<Longrightarrow> P k (Some (b\<lparr> generation := g \<rparr>))"
    and keeps_refill: "0 < refill_interval_ms config \<Longrightarrow> P k (Some b) \<Longrightarrow>
      \<exists>b'. refill b config now = Inr b' \<and> P k (Some b') \<and>
        unat now < unat (last_refill_ms b') + unat (refill_interval_ms config)"
    and keeps_full: "P k (Some b) \<Longrightarrow> \<not> tokens b < capacity config \<Longrightarrow> P k None"
begin

lemma keeps_schedule: "P k (Some b) \<Longrightarrow> P k (Some (snd (schedule k' b tb)))"
  using schedule_bucket [of k' b tb] keeps_generation by force

lemma keeps_reinsert:
  assumes "tb_keeps config Q tb" and "P k (Some b)" and "\<And>x ob. x \<noteq> k \<Longrightarrow> Q x ob \<Longrightarrow> P x ob"
  shows "tb_keeps config P (reinsert k b (tb\<lparr> tb_buckets := bt_remove k (tb_buckets tb) \<rparr>))"
  using assms by (auto simp: tb_keeps_def reinsert_def case_prod_beta keeps_schedule)

lemma sweep_entries_keeps:
  assumes "tb_keeps config P tb" and "0 < refill_interval_ms config"
  shows "\<exists>tb'. sweep_entries now es tb = Inr tb' \<and> tb_keeps config P tb' \<and> overdue now tb' = overdue now tb"
  using assms(1)
proof (induction es arbitrary: tb)
  case (Cons e es)
  obtain k g where e: "e = (k, g)" by (cases e)
  let ?tb1 = "tb\<lparr> tb_buckets := bt_remove k (tb_buckets tb) \<rparr>"
  from Cons.prems have tb: "tb_config tb = config" "bt_wf (tb_buckets tb)"
    "P k (bt_get (tb_buckets tb) k)" by (simp_all add: tb_keeps_def)
  show ?case
  proof (cases "bt_get (tb_buckets tb) k")
    case None
    with Cons e show ?thesis by simp
  next
    case (Some b)
    show ?thesis
    proof (cases "generation b = g")
      case False
      have "tb_keeps config P (tb\<lparr> tb_buckets := bt_insert k b (bt_remove k (tb_buckets tb)) \<rparr>)"
        using Cons.prems Some by (auto simp: tb_keeps_def) (metis Some)
      from Cons.IH [OF this] False Some show ?thesis by (simp add: e overdue_def)
    next
      case True
      from tb(3) Some have "P k (Some (b\<lparr> generation := 0 \<rparr>))" by (simp add: keeps_generation)
      from keeps_refill [OF assms(2) this] obtain b1 where
        b1: "refill (b\<lparr> generation := 0 \<rparr>) config now = Inr b1" "P k (Some b1)"
          "unat now < unat (last_refill_ms b1) + unat (refill_interval_ms config)" by blast
      show ?thesis
      proof (cases "tokens b1 < capacity config")
        case full: True
        let ?tb2 = "reinsert k b1 ?tb1"
        have "tb_keeps config P ?tb2" using Cons.prems b1(2) by (rule keeps_reinsert)
        from Cons.IH [OF this] obtain tb' where tb': "sweep_entries now es ?tb2 = Inr tb'"
          "tb_keeps config P tb'" "overdue now tb' = overdue now ?tb2" by blast
        have "overdue now ?tb2 = overdue now ?tb1"
          using b1(3) tb(1) by (intro overdue_reinsert) simp
        then have "overdue now tb' = overdue now tb" using tb'(3) by (simp add: overdue_def)
        with Some True full b1(1) tb tb' show ?thesis by (auto simp: e Let_def)
      next
        case False
        have "tb_keeps config P ?tb1"
          using Cons.prems keeps_full [OF b1(2) False] by (auto simp: tb_keeps_def)
        from Cons.IH [OF this] Some True False b1(1) tb(1) show ?thesis
          by (auto simp: e overdue_def)
      qed
    qed
  qed
qed simp

text \<open>The sweep ends: every turn handles one overdue deadline and adds none.\<close>

lemma sweep_loop_keeps:
  assumes "tb_keeps config P tb" and "0 < refill_interval_ms config"
  shows "\<exists>tb'. sweep_loop now tb = Some (Inr tb') \<and> tb_keeps config P tb' \<and> overdue now tb' = {}"
  using assms(1)
proof (induction "card (overdue now tb)" arbitrary: tb rule: less_induct)
  case less
  show ?case
  proof (cases "tb_due tb")
    case Nil
    with less(2) show ?thesis by (subst sweep_loop.simps) (simp add: overdue_def)
  next
    case (Cons e rest)
    obtain d es where e: "e = (d, es)" by (cases e)
    have wf: "bt_wf ((d, es) # rest)" using less(2) Cons e by (simp add: tb_keeps_def)
    show ?thesis
    proof (cases "now < d")
      case True
      have "overdue now tb = {}"
        using True wf unfolding overdue_def Cons e by fastforce
      with True less(2) show ?thesis by (subst sweep_loop.simps) (simp add: Cons e)
    next
      case False
      let ?tb = "tb\<lparr> tb_due := bt_remove d (tb_due tb) \<rparr>"
      have rest: "overdue now ?tb = overdue now tb - {d}"
        using less(2) by (auto simp: overdue_def tb_keeps_def bt_keys_remove)
      have "tb_keeps config P ?tb" using less(2) by (simp add: tb_keeps_def)
      from sweep_entries_keeps [OF this assms(2), of es] obtain tb1 where
        tb1: "sweep_entries now es ?tb = Inr tb1" "tb_keeps config P tb1"
          "overdue now tb1 = overdue now tb - {d}" using rest by auto
      have "d \<in> overdue now tb" using False by (simp add: overdue_def Cons e)
      moreover have "finite (overdue now tb)" by (simp add: overdue_def)
      ultimately have "card (overdue now tb1) < card (overdue now tb)"
        unfolding tb1(3) by (rule card_Diff1_less [rotated])
      from less(1) [OF this tb1(2)] tb1(1) False show ?thesis
        by (subst sweep_loop.simps) (simp add: Cons e)
    qed
  qed
qed

lemma sweep_keeps:
  assumes "tb_keeps config P tb" and "0 < refill_interval_ms config"
  shows "\<exists>tb'. sweep now tb = Inr tb' \<and> tb_keeps config P tb' \<and> overdue now tb' = {}"
  using sweep_loop_keeps [OF assms] by (auto simp: sweep_def)

end

interpretation rate: bucket_account config now "\<lambda>k. rate_ok config t0 now (a k)"
  for config now t0 and a :: "'k::linorder \<Rightarrow> nat"
proof
  show "\<exists>b'. refill b config now = Inr b' \<and> rate_ok config t0 now (a k) (Some b') \<and>
          unat now < unat (last_refill_ms b') + unat (refill_interval_ms config)"
    if "0 < refill_interval_ms config" and "rate_ok config t0 now (a k) (Some b)" for k b
    using rate_ok_refill [OF that] by blast
qed (simp_all add: rate_ok_full)

text \<open>A key that will be granted a token at \<open>now\<close>.\<close>

fun ready :: "rate_limit \<Rightarrow> u64 \<Rightarrow> bucket option \<Rightarrow> bool" where
  "ready config now None \<longleftrightarrow> True"
| "ready config now (Some b) \<longleftrightarrow>
     bucket_ok config b \<and> last_refill_ms b \<le> now \<and>
     (capacity config = 0 \<or> tokens b \<noteq> 0 \<or> unat (last_refill_ms b) + unat (refill_interval_ms config) \<le> unat now)"

lemma ready_refill:
  assumes "0 < refill_interval_ms config" and "ready config now (Some b)"
  obtains b' where "refill b config now = Inr b'" and "ready config now (Some b')"
    and "unat now < unat (last_refill_ms b') + unat (refill_interval_ms config)"
    and "capacity config = 0 \<or> tokens b' \<noteq> 0"
proof -
  have "rate_ok config 0 now 0 (Some b)"
    using assms(2) by (simp add: rate_ok.simps bucket_ok_def word_le_nat_alt)
  from rate_ok_refill [OF assms(1) this] obtain b' where
    b': "refill b config now = Inr b'" "rate_ok config 0 now 0 (Some b')"
      "unat now < unat (last_refill_ms b') + unat (refill_interval_ms config)"
      "unat (tokens b') =
        min (unat (tokens b) + (unat now - unat (last_refill_ms b)) div unat (refill_interval_ms config))
          (unat (capacity config))" by blast
  have "capacity config = 0 \<or> tokens b' \<noteq> 0"
  proof (cases "tokens b = 0 \<and> capacity config \<noteq> 0")
    case True
    with assms(2) have "unat (last_refill_ms b) + unat (refill_interval_ms config) \<le> unat now" by simp
    then have "unat (refill_interval_ms config) \<le> unat now - unat (last_refill_ms b)" by linarith
    then have "1 \<le> (unat now - unat (last_refill_ms b)) div unat (refill_interval_ms config)"
      using assms(1) by (metis Suc_leI One_nat_def div_greater_zero_iff unat_gt_0 word_gt_0)
    moreover have "1 \<le> unat (capacity config)" using True by (simp add: Suc_leI unat_gt_0)
    ultimately have "1 \<le> unat (tokens b')" unfolding b'(4) by simp
    then show ?thesis by auto
  next
    case False
    show ?thesis
    proof (cases "capacity config = 0")
      case cap: False
      with False have "1 \<le> unat (tokens b)" "1 \<le> unat (capacity config)"
        by (simp_all add: Suc_leI unat_gt_0)
      then have "1 \<le> unat (tokens b')" unfolding b'(4) by simp
      then show ?thesis by auto
    qed simp
  qed
  with b' show thesis by (intro that) (simp_all add: rate_ok.simps)
qed

interpretation ready: bucket_account config now "\<lambda>k :: 'k::linorder. ready config now" for config now
proof
  show "\<exists>b'. refill b config now = Inr b' \<and> ready config now (Some b') \<and>
          unat now < unat (last_refill_ms b') + unat (refill_interval_ms config)"
    if "0 < refill_interval_ms config" and "ready config now (Some b)" for b
    using ready_refill [OF that] by blast
qed (simp_all add: bucket_ok_def)

section \<open>Requests\<close>

abbreviation tb_ok :: "rate_limit \<Rightarrow> nat \<Rightarrow> u64 \<Rightarrow> ('k \<Rightarrow> nat) \<Rightarrow> 'k::linorder token_buckets \<Rightarrow> bool" where
  "tb_ok config t0 now a \<equiv> tb_keeps config (\<lambda>k. rate_ok config t0 now (a k))"

lemma tb_ok_mono: "tb_ok config t0 now a tb \<Longrightarrow> now \<le> now' \<Longrightarrow> tb_ok config t0 now' a tb"
  unfolding tb_keeps_def using rate_ok_mono by blast

lemma consume_ok:
  assumes "tb_ok config t0 now a tb" and "0 < refill_interval_ms config" and "t0 \<le> unat now"
  shows "\<exists>tb' granted. consume k now tb = Inr (tb', granted) \<and>
           tb_ok config t0 now (if granted then a(k := Suc (a k)) else a) tb'"
proof -
  obtain tb1 where tb1: "sweep now tb = Inr tb1" "tb_ok config t0 now a tb1"
    using rate.sweep_keeps [OF assms(1,2)] by blast
  then have config: "tb_config tb1 = config"
    and acc: "rate_ok config t0 now (a k) (bt_get (tb_buckets tb1) k)" by (simp_all add: tb_keeps_def)
  have "rate_ok config t0 now (a k) (Some (bucket_or_full k now tb1))"
    using acc rate_ok_fresh [OF _ assms(3)] by (auto simp: bucket_or_full_def config split: option.split)
  from rate_ok_refill [OF assms(2) this] obtain b where
    b: "refill (bucket_or_full k now tb1) config now = Inr b" "rate_ok config t0 now (a k) (Some b)" by blast
  show ?thesis
  proof (cases "tokens b = 0")
    case True
    let ?tb' = "reinsert k b (tb1\<lparr> tb_buckets := bt_remove k (tb_buckets tb1) \<rparr>)"
    have "consume k now tb = Inr (?tb', False)"
      using True b(1) tb1(1) config by (simp add: consume_def Let_def)
    moreover have "tb_ok config t0 now a ?tb'"
      using b(2) by (intro rate.keeps_reinsert [OF tb1(2)]) simp_all
    ultimately show ?thesis by (intro exI [of _ ?tb'] exI [of _ False]) simp
  next
    case False
    let ?b = "b\<lparr> tokens := tokens b - 1 \<rparr>" and ?a = "a(k := Suc (a k))"
    let ?tb' = "reinsert k ?b (tb1\<lparr> tb_buckets := bt_remove k (tb_buckets tb1) \<rparr>)"
    have "consume k now tb = Inr (?tb', True)"
      using False b(1) tb1(1) config by (simp add: consume_def Let_def)
    moreover have "tb_ok config t0 now ?a ?tb'"
      using rate_ok_take [OF b(2) False] by (intro rate.keeps_reinsert [OF tb1(2)]) simp_all
    ultimately show ?thesis by (intro exI [of _ ?tb'] exI [of _ True]) simp
  qed
qed

text \<open>After a quiet interval a request is granted.\<close>

lemma consume_granted:
  assumes "tb_ok config t0 now a tb" and "0 < refill_interval_ms config" and "0 < capacity config"
    and "unat now + unat (refill_interval_ms config) \<le> unat now'"
  shows "\<exists>tb'. consume k now' tb = Inr (tb', True)"
proof -
  have "ready config now' ob" if "rate_ok config t0 now a' ob" for a' ob
    using that assms(4) by (cases ob) (auto simp: rate_ok.simps word_le_nat_alt)
  then have "tb_keeps config (\<lambda>k. ready config now') tb"
    using assms(1) unfolding tb_keeps_def by blast
  then obtain tb1 where tb1: "sweep now' tb = Inr tb1" "tb_keeps config (\<lambda>k. ready config now') tb1"
    using ready.sweep_keeps [OF _ assms(2)] by blast
  then have config: "tb_config tb1 = config" and "ready config now' (bt_get (tb_buckets tb1) k)"
    by (simp_all add: tb_keeps_def)
  then have "ready config now' (Some (bucket_or_full k now' tb1))"
    using assms(3) by (auto simp: bucket_or_full_def bucket_ok_def split: option.split)
  from ready_refill [OF assms(2) this] obtain b where
    "refill (bucket_or_full k now' tb1) config now' = Inr b" "capacity config = 0 \<or> tokens b \<noteq> 0"
    by blast
  moreover have "capacity config \<noteq> 0" using assms(3) by simp
  ultimately show ?thesis using tb1(1) config by (simp add: consume_def Let_def)
qed

section \<open>Runs\<close>

datatype 'k limiter_op = Consume 'k u64 | Sweep u64

fun limiter_time :: "'k limiter_op \<Rightarrow> u64" where
  "limiter_time (Consume k t) = t"
| "limiter_time (Sweep t) = t"

text \<open>A run returns the state and, newest first, the keys that were granted a token.\<close>

fun limiter_step ::
  "'k::linorder limiter_op \<Rightarrow> 'k token_buckets \<times> 'k list \<Rightarrow> unit fault + ('k token_buckets \<times> 'k list)"
where
  "limiter_step (Consume k t) (tb, granted) =
     (case consume k t tb of
        Inl e \<Rightarrow> Inl e
      | Inr (tb', ok) \<Rightarrow> Inr (tb', if ok then k # granted else granted))"
| "limiter_step (Sweep t) (tb, granted) =
     (case sweep t tb of Inl e \<Rightarrow> Inl e | Inr tb' \<Rightarrow> Inr (tb', granted))"

definition limiter_run ::
  "rate_limit \<Rightarrow> 'k::linorder limiter_op list \<Rightarrow> unit fault + ('k token_buckets \<times> 'k list)"
where
  "limiter_run config ops =
     foldl (\<lambda>r op. rbind r (limiter_step op)) (Inr (token_buckets_new config, [])) ops"

lemma limiter_run_ok:
  assumes "0 < refill_interval_ms config" and "sorted (map limiter_time ops)"
    and "\<forall>op \<in> set ops. t0 \<le> limiter_time op"
  shows "\<exists>tb granted. limiter_run config ops = Inr (tb, granted) \<and>
           tb_ok config (unat t0) (if ops = [] then t0 else limiter_time (last ops)) (count_list granted) tb"
  using assms(2,3)
proof (induction ops rule: rev_induct)
  case Nil
  then show ?case
    by (simp add: limiter_run_def token_buckets_new_def tb_keeps_def rate_ok.simps)
next
  case (snoc op ops)
  let ?now = "if ops = [] then t0 else limiter_time (last ops)"
  from snoc obtain tb granted where run: "limiter_run config ops = Inr (tb, granted)"
    and ok: "tb_ok config (unat t0) ?now (count_list granted) tb"
    by (auto simp: sorted_append)
  have "?now \<le> limiter_time op" using snoc.prems by (auto simp: sorted_append)
  with ok have ok': "tb_ok config (unat t0) (limiter_time op) (count_list granted) tb" by (rule tb_ok_mono)
  have t0: "unat t0 \<le> unat (limiter_time op)" using snoc.prems(2) by (simp add: word_le_nat_alt)
  have step: "limiter_run config (ops @ [op]) = limiter_step op (tb, granted)"
    using run by (simp add: limiter_run_def)
  show ?case
  proof (cases op)
    case (Consume k t)
    from consume_ok [OF ok' assms(1) t0, of k] obtain tb' ok where
      c: "consume k t tb = Inr (tb', ok)"
        "tb_ok config (unat t0) t (if ok then (count_list granted)(k := Suc (count_list granted k)) else count_list granted) tb'"
      by (auto simp: Consume)
    have "(if ok then (count_list granted)(k := Suc (count_list granted k)) else count_list granted) =
            count_list (if ok then k # granted else granted)" by auto
    with c show ?thesis unfolding step by (simp add: Consume)
  next
    case (Sweep t)
    with rate.sweep_keeps [OF ok' assms(1)] show ?thesis unfolding step by auto
  qed
qed

lemma limiter_run_rate:
  assumes "0 < refill_interval_ms config" and "sorted (map limiter_time ops)"
  shows "\<exists>tb granted. limiter_run config ops = Inr (tb, granted) \<and>
           (\<forall>k. count_list granted k \<le> unat (capacity config) +
              (unat (limiter_time (last ops)) - unat (limiter_time (hd ops))) div
                unat (refill_interval_ms config))"
proof (cases ops)
  case Nil
  then show ?thesis by (simp add: limiter_run_def)
next
  case (Cons op rest)
  let ?t0 = "limiter_time op" and ?now = "limiter_time (last ops)" and ?i = "unat (refill_interval_ms config)"
  have "\<forall>x \<in> set ops. ?t0 \<le> limiter_time x" using assms(2) Cons by auto
  from limiter_run_ok [OF assms this] Cons obtain tb granted where
    run: "limiter_run config ops = Inr (tb, granted)"
    and ok: "tb_ok config (unat ?t0) ?now (count_list granted) tb" by auto
  have "count_list granted k \<le> unat (capacity config) + (unat ?now - unat ?t0) div ?i" for k
  proof (cases "bt_get (tb_buckets tb) k")
    case None
    with ok show ?thesis unfolding tb_keeps_def by (metis rate_ok.simps(1) trans_le_add2)
  next
    case (Some b)
    with ok have b: "rate_ok config (unat ?t0) ?now (count_list granted k) (Some b)"
      unfolding tb_keeps_def by metis
    then have "(unat (last_refill_ms b) - unat ?t0) div ?i \<le> (unat ?now - unat ?t0) div ?i"
      by (intro div_le_mono diff_le_mono) (simp add: rate_ok.simps word_le_nat_alt)
    with b show ?thesis unfolding rate_ok.simps by linarith
  qed
  with run Cons show ?thesis by auto
qed

section \<open>Properties\<close>

text \<open>
  C13. Whatever the sequence of requests and sweeps, at non-decreasing times from \<open>t0\<close> on,
  no call panics or loops, and no key is granted more tokens than its capacity plus one for
  every whole refill interval since \<open>t0\<close>, although full buckets are forgotten on the way.
\<close>

theorem limiter_rate_bound:
  assumes "0 < refill_interval_ms config" and "sorted (map limiter_time (op # ops))"
  shows "\<exists>tb granted. limiter_run config (op # ops) = Inr (tb, granted) \<and>
           (\<forall>k. count_list granted k \<le> unat (capacity config) +
              (unat (limiter_time (last (op # ops))) - unat (limiter_time op)) div
                unat (refill_interval_ms config))"
  using limiter_run_rate [OF assms] by simp

theorem limiter_rate_bound_witness:
  "\<exists>tb granted. limiter_run \<lparr> capacity = 2, refill_interval_ms = 10 \<rparr>
     [Consume (7 :: nat) 5, Consume 7 6, Consume 7 7, Sweep 40] = Inr (tb, granted) \<and> count_list granted 7 \<le> 5"
proof -
  let ?config = "\<lparr> capacity = 2, refill_interval_ms = 10 \<rparr> :: rate_limit"
  obtain tb granted where
    "limiter_run ?config [Consume (7 :: nat) 5, Consume 7 6, Consume 7 7, Sweep 40] = Inr (tb, granted)"
    "count_list granted 7 \<le> unat (capacity ?config) + (unat (40 :: u64) - unat (5 :: u64)) div 10"
    using limiter_rate_bound [of ?config "Consume (7 :: nat) 5" "[Consume 7 6, Consume 7 7, Sweep 40]"]
    by auto
  then show ?thesis by simp
qed

text \<open>
  C14. A limiter never starves a key: in any state it can reach, a request that comes at
  least one refill interval after the last call is granted.
\<close>

theorem limiter_grants_after_interval:
  assumes "0 < refill_interval_ms config" and "0 < capacity config"
    and "sorted (map limiter_time (op # ops))" and "limiter_run config (op # ops) = Inr (tb, granted)"
    and "unat (limiter_time (last (op # ops))) + unat (refill_interval_ms config) \<le> unat now"
  shows "\<exists>tb'. consume k now tb = Inr (tb', True)"
proof -
  have "\<forall>x \<in> set (op # ops). limiter_time op \<le> limiter_time x" using assms(3) by auto
  from limiter_run_ok [OF assms(1,3) this] assms(4)
  have "tb_ok config (unat (limiter_time op)) (limiter_time (last (op # ops))) (count_list granted) tb" by auto
  from consume_granted [OF this assms(1,2,5)] show ?thesis .
qed

theorem limiter_grants_after_interval_witness:
  "\<exists>tb tb'. limiter_run \<lparr> capacity = 1, refill_interval_ms = 10 \<rparr> [Consume (7 :: nat) 5, Consume 7 6] = Inr tb \<and>
     consume 7 16 (fst tb) = Inr (tb', True)"
proof -
  let ?config = "\<lparr> capacity = 1, refill_interval_ms = 10 \<rparr> :: rate_limit"
  obtain tb granted where run: "limiter_run ?config [Consume (7 :: nat) 5, Consume 7 6] = Inr (tb, granted)"
    using limiter_run_ok [of ?config "[Consume (7 :: nat) 5, Consume 7 6]" 5] by auto
  then obtain tb' where "consume 7 16 tb = Inr (tb', True)"
    using limiter_grants_after_interval [of ?config "Consume (7 :: nat) 5" "[Consume 7 6]" tb granted 16 7]
    by auto
  with run show ?thesis by auto
qed

end
