(* ===== verification/Relay_Config.thy ===== *)
theory Relay_Config
  imports Token_Buckets Rust_Str
begin

text \<open>
  The configuration of the relay server, \<open>crates/relay-server/src/config.rs\<close>, and its
  validation, which is what keeps the rate limiters away from a zero interval.
\<close>

section \<open>Model\<close>

record relay_server_config =
  max_reservations :: nat
  reservation_duration_secs :: u64
  max_circuits :: nat
  max_circuits_per_peer :: nat
  max_circuit_duration_secs :: u64
  max_circuit_bytes :: u64
  max_pending_hop_requests_per_connection :: nat
  max_pending_stop_requests_per_connection :: nat
  control_stream_timeout_ms :: u64
  reservation_rate_limit_per_peer :: "rate_limit option"
  reservation_rate_limit_per_ip :: "rate_limit option"
  circuit_rate_limit_per_peer :: "rate_limit option"
  circuit_rate_limit_per_ip :: "rate_limit option"

definition relay_server_config_default :: relay_server_config where
  "relay_server_config_default =
     (let per_peer = Some \<lparr> capacity = 30, refill_interval_ms = 120000 \<rparr>;
          per_ip = Some \<lparr> capacity = 60, refill_interval_ms = 60000 \<rparr>
      in \<lparr> max_reservations = 128, reservation_duration_secs = 3600, max_circuits = 16,
           max_circuits_per_peer = 4, max_circuit_duration_secs = 120, max_circuit_bytes = 131072,
           max_pending_hop_requests_per_connection = 10,
           max_pending_stop_requests_per_connection = 10, control_stream_timeout_ms = 60000,
           reservation_rate_limit_per_peer = per_peer, reservation_rate_limit_per_ip = per_ip,
           circuit_rate_limit_per_peer = per_peer, circuit_rate_limit_per_ip = per_ip \<rparr>)"

datatype relay_server_config_error_kind = MustBeNonZero | ExceedsWireU32

record relay_server_config_error =
  error_field :: str
  error_reason :: relay_server_config_error_kind

fun relay_server_config_error_kind_display :: "relay_server_config_error_kind \<Rightarrow> str" where
  "relay_server_config_error_kind_display MustBeNonZero = str_lit ''must be non-zero''"
| "relay_server_config_error_kind_display ExceedsWireU32 =
     str_lit ''exceeds the wire u32 seconds bound''"

definition relay_config_invalid ::
  "string \<Rightarrow> relay_server_config_error_kind \<Rightarrow> relay_server_config_error"
where
  "relay_config_invalid fld reason = \<lparr> error_field = str_lit fld, error_reason = reason \<rparr>"

definition validate_rate_limit ::
  "string \<Rightarrow> rate_limit option \<Rightarrow> relay_server_config_error + unit"
where
  "validate_rate_limit name limit =
     (case limit of
        None \<Rightarrow> Inr ()
      | Some l \<Rightarrow>
          if capacity l = 0 then
            Inl (relay_config_invalid
              (if name = ''reservation_rate_limit_per_peer'' then ''reservation_rate_limit_per_peer.capacity''
               else if name = ''reservation_rate_limit_per_ip'' then ''reservation_rate_limit_per_ip.capacity''
               else if name = ''circuit_rate_limit_per_peer'' then ''circuit_rate_limit_per_peer.capacity''
               else ''circuit_rate_limit_per_ip.capacity'') MustBeNonZero)
          else if refill_interval_ms l = 0 then
            Inl (relay_config_invalid
              (if name = ''reservation_rate_limit_per_peer''
               then ''reservation_rate_limit_per_peer.refill_interval_ms''
               else if name = ''reservation_rate_limit_per_ip''
               then ''reservation_rate_limit_per_ip.refill_interval_ms''
               else if name = ''circuit_rate_limit_per_peer''
               then ''circuit_rate_limit_per_peer.refill_interval_ms''
               else ''circuit_rate_limit_per_ip.refill_interval_ms'') MustBeNonZero)
          else Inr ())"

definition relay_config_validate :: "relay_server_config \<Rightarrow> relay_server_config_error + unit" where
  "relay_config_validate c =
     (if reservation_duration_secs c = 0
      then Inl (relay_config_invalid ''reservation_duration_secs'' MustBeNonZero)
      else if 0xFFFFFFFF < max_circuit_duration_secs c
      then Inl (relay_config_invalid ''max_circuit_duration_secs'' ExceedsWireU32)
      else if control_stream_timeout_ms c = 0
      then Inl (relay_config_invalid ''control_stream_timeout_ms'' MustBeNonZero)
      else
        rbind (validate_rate_limit ''reservation_rate_limit_per_peer'' (reservation_rate_limit_per_peer c)) (\<lambda>_.
        rbind (validate_rate_limit ''reservation_rate_limit_per_ip'' (reservation_rate_limit_per_ip c)) (\<lambda>_.
        rbind (validate_rate_limit ''circuit_rate_limit_per_peer'' (circuit_rate_limit_per_peer c)) (\<lambda>_.
        rbind (validate_rate_limit ''circuit_rate_limit_per_ip'' (circuit_rate_limit_per_ip c)) (\<lambda>_.
          Inr ())))))"

section \<open>Properties\<close>

definition config_limits :: "relay_server_config \<Rightarrow> rate_limit option list" where
  "config_limits c =
     [reservation_rate_limit_per_peer c, reservation_rate_limit_per_ip c,
      circuit_rate_limit_per_peer c, circuit_rate_limit_per_ip c]"

lemma validate_rate_limit_Inr_iff:
  "validate_rate_limit name limit = Inr () \<longleftrightarrow>
     (\<forall>l. limit = Some l \<longrightarrow> 0 < capacity l \<and> 0 < refill_interval_ms l)"
  by (auto simp: validate_rate_limit_def word_gt_0 split: option.split)

lemma relay_config_validate_Inr_iff:
  "relay_config_validate c = Inr () \<longleftrightarrow>
     0 < reservation_duration_secs c \<and> max_circuit_duration_secs c \<le> 0xFFFFFFFF \<and>
     0 < control_stream_timeout_ms c \<and>
     (\<forall>l. Some l \<in> set (config_limits c) \<longrightarrow> 0 < capacity l \<and> 0 < refill_interval_ms l)"
proof -
  have all: "(\<forall>l. Some l \<in> set (config_limits c) \<longrightarrow> 0 < capacity l \<and> 0 < refill_interval_ms l) \<longleftrightarrow>
      validate_rate_limit ''reservation_rate_limit_per_peer'' (reservation_rate_limit_per_peer c) = Inr () \<and>
      validate_rate_limit ''reservation_rate_limit_per_ip'' (reservation_rate_limit_per_ip c) = Inr () \<and>
      validate_rate_limit ''circuit_rate_limit_per_peer'' (circuit_rate_limit_per_peer c) = Inr () \<and>
      validate_rate_limit ''circuit_rate_limit_per_ip'' (circuit_rate_limit_per_ip c) = Inr ()"
    by (auto simp: validate_rate_limit_Inr_iff config_limits_def)
  show ?thesis
    unfolding all by (auto simp: relay_config_validate_def rbind_Inr_iff not_less word_gt_0)
qed

text \<open>
  C15. A configuration that passes validation yields limiters that never panic or loop and
  that bound every key: for each limit it enables, every run of requests and sweeps returns,
  and the configured rate holds. The default configuration passes.
\<close>

theorem validated_limits_are_safe:
  assumes "relay_config_validate c = Inr ()" and "Some l \<in> set (config_limits c)"
    and "sorted (map limiter_time ops)"
  shows "(\<exists>tb granted. limiter_run l ops = Inr (tb, granted) \<and>
            (\<forall>k. count_list granted k \<le> unat (capacity l) +
               (unat (limiter_time (last ops)) - unat (limiter_time (hd ops))) div unat (refill_interval_ms l))) \<and>
         0 < capacity l \<and>
         relay_config_validate relay_server_config_default = Inr ()"
proof -
  from assms(1,2) have l: "0 < capacity l" "0 < refill_interval_ms l"
    by (simp_all add: relay_config_validate_Inr_iff)
  from limiter_run_rate [OF l(2) assms(3)] l(1) show ?thesis
    by (auto simp: relay_config_validate_Inr_iff config_limits_def relay_server_config_default_def Let_def)
qed

theorem validated_limits_are_safe_witness:
  "\<exists>tb granted. limiter_run \<lparr> capacity = 30, refill_interval_ms = 120000 \<rparr> [Consume (1 :: nat) 9] =
     Inr (tb, granted) \<and> (\<forall>k. count_list granted k \<le> 30)"
proof -
  have "relay_config_validate relay_server_config_default = Inr ()"
    by (auto simp: relay_config_validate_Inr_iff config_limits_def relay_server_config_default_def Let_def)
  then show ?thesis
    using validated_limits_are_safe [of relay_server_config_default
        "\<lparr> capacity = 30, refill_interval_ms = 120000 \<rparr>" "[Consume (1 :: nat) 9]"]
    by (simp add: config_limits_def relay_server_config_default_def Let_def)
qed

end
