(* ===== verification/Base58.thy ===== *)
theory Base58
  imports Rust_Str
begin

text \<open>
  Base58btc text, \<open>encode_base58\<close> and \<open>decode_base58\<close> of
  \<open>crates/identity/src/peer_id.rs\<close>. Both convert between radices by the same inner loop:
  multiply the little-endian digits by one radix, add a digit, and carry in the other
  radix. The accumulators are \<open>u32\<close> in the source and stay below \<open>2^15\<close>, and every digit
  is below 256, so natural numbers lose nothing.

  A \<open>char\<close> is a Unicode scalar value, a natural number.
\<close>

section \<open>Characters\<close>

definition utf8_code :: "bytes \<Rightarrow> nat" where
  "utf8_code bs =
     (let b = (\<lambda>i. unat (bs ! i)) in
      if utf8_char_len bs = 1 then b 0
      else if utf8_char_len bs = 2 then (b 0 mod 32) * 64 + b 1 mod 64
      else if utf8_char_len bs = 3 then (b 0 mod 16) * 4096 + (b 1 mod 64) * 64 + b 2 mod 64
      else (b 0 mod 8) * 262144 + (b 1 mod 64) * 4096 + (b 2 mod 64) * 64 + b 3 mod 64)"

text \<open>\<open>str::chars\<close> on a valid string.\<close>

function chars :: "str \<Rightarrow> nat list" where
  "chars bs =
     (if bs = [] \<or> utf8_char_len bs = 0 then []
      else utf8_code bs # chars (drop (utf8_char_len bs) bs))"
  by pat_completeness auto
termination
  by (relation "measure length") auto

declare chars.simps [simp del]

lemma chars_nil [simp]: "chars [] = []"
  by (simp add: chars.simps)

lemma chars_ascii_cons [simp]: "b < 0x80 \<Longrightarrow> chars (b # bs) = unat b # chars bs"
  by (subst chars.simps) (simp add: utf8_char_len_def utf8_code_def)

lemma chars_ascii: "\<forall>b \<in> set bs. b < 0x80 \<Longrightarrow> chars bs = map unat bs"
  by (induction bs) simp_all

section \<open>Model\<close>

definition BASE58_ALPHABET :: str where
  "BASE58_ALPHABET = str_lit ''123456789ABCDEFGHJKLMNPQRSTUVWXYZabcdefghijkmnopqrstuvwxyz''"

text \<open>
  \<open>mul_add d m ds c\<close> is the loop over the digits: each digit becomes
  \<open>(digit * m + carry) mod d\<close>; what is left of the carry is appended in radix \<open>d\<close>.
\<close>

fun push_carry :: "nat \<Rightarrow> nat \<Rightarrow> nat list" where
  "push_carry d c = (if c = 0 \<or> d < 2 then [] else c mod d # push_carry d (c div d))"

declare push_carry.simps [simp del]

fun mul_add :: "nat \<Rightarrow> nat \<Rightarrow> nat list \<Rightarrow> nat \<Rightarrow> nat list" where
  "mul_add d m [] c = push_carry d c"
| "mul_add d m (x # xs) c = (x * m + c) mod d # mul_add d m xs ((x * m + c) div d)"

definition encode_byte58 :: "nat list \<Rightarrow> u8 \<Rightarrow> nat list" where
  "encode_byte58 digits byte =
     (let digits' = mul_add 58 256 digits (unat byte) in if digits' = [] then [0] else digits')"

definition encode_base58 :: "bytes \<Rightarrow> str" where
  "encode_base58 input =
     (if input = [] then []
      else
        let leading_zeros = length (takeWhile (\<lambda>b. b = 0) input);
            digits = foldl encode_byte58 [] (drop leading_zeros input)
        in replicate leading_zeros 49 @ map (\<lambda>d. BASE58_ALPHABET ! d) (rev digits))"

datatype base58_error = Base58Empty | InvalidBase58Character nat nat

fun position :: "('a \<Rightarrow> bool) \<Rightarrow> 'a list \<Rightarrow> nat option" where
  "position P [] = None"
| "position P (x # xs) = (if P x then Some 0 else map_option Suc (position P xs))"

text \<open>\<open>c as u8\<close> keeps the low eight bits of the scalar value.\<close>

definition base58_value :: "nat \<Rightarrow> nat option" where
  "base58_value c = position (\<lambda>v. unat v = c mod 256) BASE58_ALPHABET"

definition decode_char58 :: "nat list \<Rightarrow> nat \<Rightarrow> nat list" where
  "decode_char58 bytes_le v = mul_add 256 58 (if bytes_le = [] then [0] else bytes_le) v"

fun decode_chars58 :: "nat \<Rightarrow> nat list \<Rightarrow> nat list \<Rightarrow> base58_error + nat list" where
  "decode_chars58 index [] bytes_le = Inr bytes_le"
| "decode_chars58 index (c # cs) bytes_le =
     (case base58_value c of
        None \<Rightarrow> Inl (InvalidBase58Character c index)
      | Some v \<Rightarrow> decode_chars58 (index + 1) cs (decode_char58 bytes_le v))"

definition decode_base58 :: "str \<Rightarrow> base58_error + bytes" where
  "decode_base58 input =
     (if input = [] then Inl Base58Empty
      else
        let leading_zeros = length (takeWhile (\<lambda>c. c = 49) (chars input))
        in rbind (decode_chars58 leading_zeros (drop leading_zeros (chars input)) []) (\<lambda>bytes_le.
             Inr (replicate leading_zeros 0 @ rev (map word_of_nat bytes_le))))"

section \<open>Radix conversion\<close>

fun radix_value :: "nat \<Rightarrow> nat list \<Rightarrow> nat" where
  "radix_value d [] = 0"
| "radix_value d (x # xs) = x + d * radix_value d xs"

definition digits_ok :: "nat \<Rightarrow> nat list \<Rightarrow> bool" where
  "digits_ok d xs \<longleftrightarrow> (\<forall>x \<in> set xs. x < d)"

lemma push_carry_value: "2 \<le> d \<Longrightarrow> radix_value d (push_carry d c) = c \<and> digits_ok d (push_carry d c)"
proof (induction d c rule: push_carry.induct)
  case (1 d c)
  show ?case
  proof (cases "c = 0")
    case False
    with "1" have "radix_value d (push_carry d (c div d)) = c div d" "digits_ok d (push_carry d (c div d))"
      by simp_all
    with False "1.prems" show ?thesis
      by (subst (1 2) push_carry.simps) (simp add: digits_ok_def)
  qed (simp add: push_carry.simps digits_ok_def)
qed

lemma mul_add_value:
  "2 \<le> d \<Longrightarrow> radix_value d (mul_add d m xs c) = radix_value d xs * m + c \<and> digits_ok d (mul_add d m xs c)"
proof (induction xs arbitrary: c)
  case (Cons x xs)
  have "radix_value d (mul_add d m (x # xs) c) =
      (x * m + c) mod d + d * (radix_value d xs * m + (x * m + c) div d)"
    using Cons by simp
  also have "\<dots> = d * radix_value d xs * m + (x * m + c)"
    by (simp add: distrib_left mult.assoc)
  also have "\<dots> = radix_value d (x # xs) * m + c" by (simp add: distrib_right)
  finally show ?case using Cons by (simp add: digits_ok_def)
qed (simp add: push_carry_value)

text \<open>Representations without leading zeros are unique.\<close>

definition trimmed :: "nat list \<Rightarrow> bool" where
  "trimmed xs \<longleftrightarrow> (xs \<noteq> [] \<longrightarrow> last xs \<noteq> 0)"

lemma radix_value_pos: "2 \<le> d \<Longrightarrow> trimmed xs \<Longrightarrow> xs \<noteq> [] \<Longrightarrow> 0 < radix_value d xs"
  by (induction xs) (auto simp: trimmed_def split: if_splits)

lemma trimmed_tl: "trimmed (x # xs) \<Longrightarrow> trimmed xs"
  by (auto simp: trimmed_def split: if_splits)

lemma radix_unique:
  assumes "2 \<le> d" and "digits_ok d xs" and "digits_ok d ys" and "trimmed xs" and "trimmed ys"
    and "radix_value d xs = radix_value d ys"
  shows "xs = ys"
  using assms(2-)
proof (induction xs arbitrary: ys)
  case Nil
  then show ?case using radix_value_pos [OF assms(1), of ys] by fastforce
next
  case (Cons x xs)
  from Cons.prems(3) have "0 < radix_value d (x # xs)" using radix_value_pos [OF assms(1)] by blast
  then obtain y ys' where ys: "ys = y # ys'" using Cons.prems(5) by (cases ys) auto
  have lt: "x < d" "y < d" using Cons.prems(1,2) by (simp_all add: digits_ok_def ys)
  have eq: "x + d * radix_value d xs = y + d * radix_value d ys'" using Cons.prems(5) by (simp add: ys)
  have "x = y" using arg_cong [OF eq, of "\<lambda>n. n mod d"] lt by simp
  moreover have "radix_value d xs = radix_value d ys'" using eq \<open>x = y\<close> assms(1) by simp
  then have "xs = ys'"
    using Cons.prems ys by (intro Cons.IH) (auto simp: digits_ok_def dest: trimmed_tl)
  ultimately show ?case by (simp add: ys)
qed

lemma push_carry_trimmed: "2 \<le> d \<Longrightarrow> trimmed (push_carry d c)"
proof (induction d c rule: push_carry.induct)
  case (1 d c)
  show ?case
  proof (cases "c = 0")
    case False
    with "1" have "trimmed (push_carry d (c div d))" by simp
    moreover have "push_carry d (c div d) = [] \<longleftrightarrow> c div d = 0"
      using "1.prems" by (subst push_carry.simps) simp
    ultimately show ?thesis
      using False "1.prems" by (subst push_carry.simps) (auto simp: trimmed_def div_eq_0_iff)
  qed (simp add: push_carry.simps trimmed_def)
qed

lemma mul_add_trimmed: "2 \<le> d \<Longrightarrow> 0 < m \<Longrightarrow> trimmed xs \<Longrightarrow> trimmed (mul_add d m xs c)"
proof (induction xs arbitrary: c)
  case Nil
  then show ?case by (simp add: push_carry_trimmed)
next
  case (Cons x xs)
  let ?n = "x * m + c"
  have IH: "trimmed (mul_add d m xs (?n div d))" using Cons by (intro Cons.IH) (auto dest: trimmed_tl)
  show ?case
  proof (cases "mul_add d m xs (?n div d) = []")
    case True
    then have "xs = []" by (cases xs) auto
    with True have "?n div d = 0" using Cons.prems(1) by (simp add: push_carry.simps split: if_splits)
    then have "?n mod d = ?n" using Cons.prems(1) by (metis mod_less div_eq_0_iff mod_div_trivial mod_mod_trivial mult_div_mod_eq add.left_neutral mult_0_right)
    moreover have "x \<noteq> 0" using Cons.prems(3) \<open>xs = []\<close> by (simp add: trimmed_def)
    ultimately show ?thesis using True Cons.prems(2) by (simp add: trimmed_def)
  next
    case False
    with IH show ?thesis by (simp add: trimmed_def)
  qed
qed

section \<open>The two conversions\<close>

definition be_value :: "nat \<Rightarrow> nat list \<Rightarrow> nat" where
  "be_value d xs = radix_value d (rev xs)"

lemma radix_value_append: "radix_value d (xs @ ys) = radix_value d xs + d ^ length xs * radix_value d ys"
  by (induction xs) (simp_all add: distrib_left mult.assoc)

lemma be_value_snoc: "be_value d (xs @ [x]) = be_value d xs * d + x"
  by (simp add: be_value_def)

definition led :: "nat list \<Rightarrow> bool" where
  "led xs \<longleftrightarrow> (xs \<noteq> [] \<longrightarrow> hd xs \<noteq> 0)"

lemma led_snoc: "led (xs @ [x]) \<Longrightarrow> led xs"
  by (cases xs) (simp_all add: led_def)

lemma trimmed_rev [simp]: "trimmed (rev xs) = led xs"
  by (simp add: trimmed_def led_def last_rev)

lemma encode_digits:
  assumes "led (map unat bs)"
  shows "digits_ok 58 (foldl encode_byte58 [] bs) \<and> trimmed (foldl encode_byte58 [] bs) \<and>
         radix_value 58 (foldl encode_byte58 [] bs) = be_value 256 (map unat bs)"
  using assms
proof (induction bs rule: rev_induct)
  case Nil
  then show ?case by (simp add: digits_ok_def trimmed_def be_value_def)
next
  case (snoc b bs)
  let ?ds = "foldl encode_byte58 [] bs"
  from snoc have IH: "digits_ok 58 ?ds" "trimmed ?ds" "radix_value 58 ?ds = be_value 256 (map unat bs)"
    using led_snoc [of "map unat bs" "unat b"] by simp_all
  have val: "radix_value 58 (mul_add 58 256 ?ds (unat b)) = be_value 256 (map unat (bs @ [b]))"
    using mul_add_value [of 58 256 ?ds "unat b"] IH(3) by (simp add: be_value_snoc)
  have "trimmed (rev (map unat (bs @ [b])))" using snoc.prems by (simp only: trimmed_rev)
  then have "0 < be_value 256 (map unat (bs @ [b]))"
    unfolding be_value_def by (intro radix_value_pos) simp_all
  with val have "mul_add 58 256 ?ds (unat b) \<noteq> []" by auto
  then have "foldl encode_byte58 [] (bs @ [b]) = mul_add 58 256 ?ds (unat b)"
    by (simp add: encode_byte58_def Let_def)
  with val mul_add_value [of 58 256 ?ds "unat b"] mul_add_trimmed [OF _ _ IH(2), of 58 256 "unat b"]
  show ?case by simp
qed

lemma decode_digits:
  assumes "led vs" and "digits_ok 58 vs"
  shows "digits_ok 256 (foldl decode_char58 [] vs) \<and> trimmed (foldl decode_char58 [] vs) \<and>
         radix_value 256 (foldl decode_char58 [] vs) = be_value 58 vs"
  using assms
proof (induction vs rule: rev_induct)
  case Nil
  then show ?case by (simp add: digits_ok_def trimmed_def be_value_def)
next
  case (snoc v vs)
  let ?bs = "foldl decode_char58 [] vs"
  from snoc have IH: "digits_ok 256 ?bs" "trimmed ?bs" "radix_value 256 ?bs = be_value 58 vs"
    using led_snoc [of vs v] by (simp_all add: digits_ok_def)
  show ?case
  proof (cases "?bs = []")
    case True
    have "vs = []"
    proof (rule ccontr)
      assume "vs \<noteq> []"
      moreover have "trimmed (rev vs)" using led_snoc snoc.prems(1) by (simp only: trimmed_rev)
      ultimately have "0 < be_value 58 vs" unfolding be_value_def by (intro radix_value_pos) simp_all
      with IH(3) True show False by simp
    qed
    moreover have "v < 58" "v \<noteq> 0" using snoc.prems \<open>vs = []\<close> by (simp_all add: digits_ok_def led_def)
    ultimately show ?thesis
      by (simp add: decode_char58_def push_carry.simps digits_ok_def trimmed_def be_value_def)
  next
    case False
    with mul_add_value [of 256 58 ?bs v] mul_add_trimmed [OF _ _ IH(2), of 256 58 v] IH(3)
    show ?thesis by (simp add: decode_char58_def [of ?bs] be_value_snoc)
  qed
qed

section \<open>The alphabet\<close>

lemma position_Some_iff:
  "position P xs = Some i \<longleftrightarrow> i < length xs \<and> P (xs ! i) \<and> (\<forall>j < i. \<not> P (xs ! j))"
proof (induction xs arbitrary: i)
  case (Cons x xs)
  then show ?case by (cases i) (auto simp: less_Suc_eq_0_disj)
qed simp

lemma alphabet58:
  "length BASE58_ALPHABET = 58" "distinct BASE58_ALPHABET" "\<forall>b \<in> set BASE58_ALPHABET. b < 0x80"
  "BASE58_ALPHABET ! 0 = 49"
  by (simp_all add: BASE58_ALPHABET_def str_lit_def)

lemma base58_value_iff:
  "base58_value c = Some d \<longleftrightarrow> d < 58 \<and> unat (BASE58_ALPHABET ! d) = c mod 256"
proof
  assume "base58_value c = Some d"
  then show "d < 58 \<and> unat (BASE58_ALPHABET ! d) = c mod 256"
    by (simp add: base58_value_def position_Some_iff alphabet58)
next
  assume d: "d < 58 \<and> unat (BASE58_ALPHABET ! d) = c mod 256"
  have "unat (BASE58_ALPHABET ! j) \<noteq> c mod 256" if "j < d" for j
    using d that alphabet58(1,2) by (metis less_trans nat_neq_iff nth_eq_iff_index_eq unsigned_word_eqI)
  with d show "base58_value c = Some d"
    by (simp add: base58_value_def position_Some_iff alphabet58)
qed

lemma decode_chars58_Inr_iff:
  "decode_chars58 i cs acc = Inr r \<longleftrightarrow>
     (\<exists>vs. map base58_value cs = map Some vs \<and> r = foldl decode_char58 acc vs)"
proof (induction cs arbitrary: i acc)
  case (Cons c cs)
  show ?case
  proof (cases "base58_value c")
    case (Some v)
    have "map base58_value (c # cs) = map Some vs \<longleftrightarrow>
        (\<exists>us. vs = v # us \<and> map base58_value cs = map Some us)" for vs
      using Some by (cases vs) auto
    with Cons Some show ?thesis by auto
  next
    case None
    have "map base58_value (c # cs) \<noteq> map Some vs" for vs using None by (cases vs) auto
    with None show ?thesis by simp
  qed
qed auto

text \<open>Text over the alphabet, seen as digits.\<close>

definition alpha :: "nat list \<Rightarrow> str" where
  "alpha vs = map (\<lambda>d. BASE58_ALPHABET ! d) vs"

lemma alpha_ascii: "digits_ok 58 vs \<Longrightarrow> \<forall>b \<in> set (alpha vs). b < 0x80"
  using alphabet58(1,3) by (auto simp: alpha_def digits_ok_def)

lemma alpha_values: "digits_ok 58 vs \<Longrightarrow> map base58_value (map unat (alpha vs)) = map Some vs"
  by (induction vs) (simp_all add: alpha_def digits_ok_def base58_value_iff)

lemma alpha_one_iff: "d < 58 \<Longrightarrow> BASE58_ALPHABET ! d = 49 \<longleftrightarrow> d = 0"
  using alphabet58 by (metis nth_eq_iff_index_eq zero_less_numeral)

lemma takeWhile_ones:
  assumes "led vs" and "digits_ok 58 vs"
  shows "takeWhile (\<lambda>c. c = 49) (map unat (replicate z 49 @ alpha vs)) = replicate z 49"
proof -
  have "takeWhile (\<lambda>c. c = 49) (map unat (alpha vs)) = []"
  proof (cases vs)
    case (Cons v us)
    with assms have "BASE58_ALPHABET ! v \<noteq> 49" by (simp add: led_def digits_ok_def alpha_one_iff)
    then have "unat (BASE58_ALPHABET ! v) \<noteq> 49" using unsigned_word_eqI [of "BASE58_ALPHABET ! v" 49] by auto
    then show ?thesis by (simp add: Cons alpha_def)
  qed (simp add: alpha_def)
  then show ?thesis by (simp add: takeWhile_append)
qed

lemma decode_base58_alpha:
  assumes "led vs" and "digits_ok 58 vs" and "replicate z 49 @ alpha vs \<noteq> []"
  shows "decode_base58 (replicate z 49 @ alpha vs) =
           Inr (replicate z 0 @ rev (map word_of_nat (foldl decode_char58 [] vs)))"
proof -
  let ?s = "replicate z 49 @ alpha vs"
  have "chars ?s = map unat ?s"
    using alpha_ascii [OF assms(2)] by (intro chars_ascii) auto
  moreover from takeWhile_ones [OF assms(1,2), of z]
  have "length (takeWhile (\<lambda>c. c = 49) (map unat ?s)) = z" by simp
  moreover have "drop z (map unat ?s) = map unat (alpha vs)" by simp
  moreover have "decode_chars58 z (map unat (alpha vs)) [] = Inr (foldl decode_char58 [] vs)"
    using alpha_values [OF assms(2)] by (auto simp: decode_chars58_Inr_iff)
  ultimately show ?thesis using assms(3) by (simp add: decode_base58_def Let_def)
qed

lemma encode_base58_split:
  assumes "led (map unat rest)"
  shows "encode_base58 (replicate z 0 @ rest) =
           replicate z 49 @ alpha (rev (foldl encode_byte58 [] rest))"
proof -
  have "takeWhile (\<lambda>b. b = 0) rest = []" using assms by (cases rest) (simp_all add: led_def unat_eq_0)
  then have "length (takeWhile (\<lambda>b. b = 0) (replicate z 0 @ rest)) = z"
    by (simp add: takeWhile_append)
  then show ?thesis by (cases "replicate z (0 :: u8) @ rest = []") (simp_all add: encode_base58_def alpha_def Let_def)
qed

lemma split_leading:
  obtains z rest where "xs = replicate z a @ rest" and "rest \<noteq> [] \<longrightarrow> hd rest \<noteq> a"
proof
  show "xs = replicate (length (takeWhile (\<lambda>x. x = a) xs)) a @ dropWhile (\<lambda>x. x = a) xs"
    by (metis (mono_tags) replicate_length_same set_takeWhileD takeWhile_dropWhile_id)
  show "dropWhile (\<lambda>x. x = a) xs \<noteq> [] \<longrightarrow> hd (dropWhile (\<lambda>x. x = a) xs) \<noteq> a"
    by (induction xs) auto
qed

lemma map_word_of_nat_unat: "map word_of_nat (map unat bs) = bs" for bs :: bytes
  by (induction bs) simp_all

lemma map_unat_word_of_nat: "digits_ok 256 xs \<Longrightarrow> map unat (map word_of_nat xs :: bytes) = xs"
  by (induction xs) (simp_all add: digits_ok_def unat_word_of_nat)

lemma digits_ok_rev [simp]: "digits_ok d (rev xs) = digits_ok d xs"
  by (simp add: digits_ok_def)

lemma digits_ok_bytes [simp]: "digits_ok 256 (map unat (bs :: bytes))"
  by (simp add: digits_ok_def)

lemma decode_encode_base58:
  assumes "bs \<noteq> []"
  shows "decode_base58 (encode_base58 bs) = Inr bs"
proof -
  obtain z rest where bs: "bs = replicate z 0 @ rest" and hd: "rest \<noteq> [] \<longrightarrow> hd rest \<noteq> 0"
    by (rule split_leading [of bs 0])
  have led: "led (map unat rest)" using hd by (cases rest) (simp_all add: led_def unat_eq_0)
  let ?D = "foldl encode_byte58 [] rest"
  note D = encode_digits [OF led]
  have enc: "encode_base58 bs = replicate z 49 @ alpha (rev ?D)"
    unfolding bs by (rule encode_base58_split [OF led])
  have nonempty: "replicate z 49 @ alpha (rev ?D) \<noteq> []"
  proof (cases "rest = []")
    case False
    have "trimmed (rev (map unat rest))" using led by (simp only: trimmed_rev)
    then have "0 < radix_value 58 ?D"
      using D False radix_value_pos [of 256 "rev (map unat rest)"] by (simp add: be_value_def)
    then show ?thesis by (auto simp: alpha_def)
  qed (use assms bs in auto)
  have led_D: "led (rev ?D)" using D trimmed_rev [of "rev ?D"] by simp
  let ?B = "foldl decode_char58 [] (rev ?D)"
  have B: "digits_ok 256 ?B" "trimmed ?B" "radix_value 256 ?B = radix_value 256 (rev (map unat rest))"
    using decode_digits [OF led_D] D by (simp_all add: be_value_def)
  have "?B = rev (map unat rest)"
    using B led by (intro radix_unique [of 256]) simp_all
  then have "rev (map word_of_nat ?B) = rest"
    by (simp only: rev_map [symmetric] rev_rev_ident map_word_of_nat_unat)
  then show ?thesis
    unfolding enc using decode_base58_alpha [OF led_D _ nonempty] D by (simp add: bs)
qed

lemma encode_decode_base58:
  assumes ascii: "\<forall>b \<in> set s. b < 0x80" and dec: "decode_base58 s = Inr bs"
  shows "encode_base58 bs = s"
proof -
  obtain z t where s: "s = replicate z 49 @ t" and hd: "t \<noteq> [] \<longrightarrow> hd t \<noteq> 49"
    by (rule split_leading [of s 49])
  have "takeWhile (\<lambda>c. c = 49) (map unat t) = []"
    using hd unsigned_word_eqI [of "hd t" 49] by (cases t) auto
  then have zeros: "length (takeWhile (\<lambda>c. c = 49) (chars s)) = z"
    unfolding chars_ascii [OF ascii] by (simp add: s takeWhile_append)
  have rest: "drop z (chars s) = map unat t" unfolding chars_ascii [OF ascii] by (simp add: s)
  from dec obtain vs where vs: "map base58_value (map unat t) = map Some vs"
    and bs: "bs = replicate z 0 @ rev (map word_of_nat (foldl decode_char58 [] vs))"
    by (auto simp: decode_base58_def Let_def zeros rest rbind_Inr_iff decode_chars58_Inr_iff split: if_splits)
  have t: "digits_ok 58 vs \<and> t = alpha vs"
    using vs
  proof (induction vs arbitrary: t)
    case (Cons v vs)
    then obtain b t' where t: "t = b # t'" by (cases t) auto
    with Cons.prems have "v < 58" "unat (BASE58_ALPHABET ! v) = unat b"
      by (simp_all add: base58_value_iff)
    then have "BASE58_ALPHABET ! v = b" by (intro unsigned_word_eqI) simp
    with Cons.IH [of t'] Cons.prems \<open>v < 58\<close> show ?case by (simp add: t alpha_def digits_ok_def)
  qed (simp add: alpha_def digits_ok_def)
  have led: "led vs"
  proof (cases vs)
    case (Cons v us)
    with t hd have "BASE58_ALPHABET ! v \<noteq> 49" by (simp add: alpha_def)
    then have "v \<noteq> 0" using alphabet58(4) by metis
    then show ?thesis using Cons by (simp add: led_def)
  qed (simp add: led_def)
  let ?B = "foldl decode_char58 [] vs"
  from decode_digits [OF led] t
  have B: "digits_ok 256 ?B" "trimmed ?B" "radix_value 256 ?B = be_value 58 vs" by simp_all
  define rest where "rest = rev (map word_of_nat ?B :: bytes)"
  have rest_nat: "map unat rest = rev ?B" 
    unfolding rest_def rev_map [symmetric] by (simp only: map_unat_word_of_nat [OF B(1)])
  have led_rest: "led (map unat rest)" using B(2) trimmed_rev [of "rev ?B"] by (simp add: rest_nat)
  have "foldl encode_byte58 [] rest = rev vs"
    using encode_digits [OF led_rest] B t led
    by (intro radix_unique [of 58]) (simp_all add: rest_nat be_value_def)
  then show ?thesis
    using encode_base58_split [OF led_rest, of z] t by (simp add: bs rest_def s)
qed

section \<open>Properties\<close>

text \<open>
  C23. On ASCII text, base58 decoding and encoding are inverse to each other: a non-empty
  text decodes to some bytes exactly when it is the encoding of these bytes. So no two
  byte strings share a text, and no two ASCII texts name the same bytes.
\<close>

theorem base58_bijective:
  assumes "\<forall>b \<in> set s. b < 0x80"
  shows "decode_base58 s = Inr bs \<longleftrightarrow> s \<noteq> [] \<and> s = encode_base58 bs"
proof
  assume "decode_base58 s = Inr bs"
  then show "s \<noteq> [] \<and> s = encode_base58 bs"
    using encode_decode_base58 [OF assms] by (auto simp: decode_base58_def)
next
  assume "s \<noteq> [] \<and> s = encode_base58 bs"
  then show "decode_base58 s = Inr bs"
    using decode_encode_base58 [of bs] by (cases "bs = []") (auto simp: encode_base58_def)
qed

theorem base58_bijective_witness:
  "decode_base58 (str_lit ''1Ldp'') = Inr [0, 1, 2, 3]"
proof -
  have "encode_base58 [0, 1, 2, 3] = str_lit ''1Ldp''"
    by (simp add: encode_base58_def encode_byte58_def push_carry.simps BASE58_ALPHABET_def str_lit_def)
  then show ?thesis
    using base58_bijective [of "str_lit ''1Ldp''" "[0, 1, 2, 3]"] by (simp add: str_lit_def)
qed

text \<open>
  Outside ASCII the decoder is lax: the cast of a character to a byte keeps its low eight
  bits, so U+0132 is read as the digit two.
\<close>

lemma base58_value_truncates: "base58_value c = base58_value (c mod 256)"
  by (simp add: base58_value_def)

lemma decode_base58_non_ascii:
  "utf8_valid [0xC4, 0xB2]" "decode_base58 [0xC4, 0xB2] = decode_base58 (str_lit ''2'')"
proof -
  have len: "utf8_char_len [0xC4, 0xB2] = 2"
    by (simp add: utf8_char_len_def utf8_two_def cont_byte_def)
  then show "utf8_valid [0xC4, 0xB2]" by (subst utf8_valid_step) simp_all
  have "chars [0xC4, 0xB2] = [0x132]"
    using len by (subst chars.simps) (simp add: utf8_code_def)
  moreover have "chars (str_lit ''2'') = [0x32]" by (simp add: str_lit_def)
  moreover have two: "base58_value 0x132 = Some 1" "base58_value 0x32 = Some 1"
    by (simp_all add: base58_value_iff BASE58_ALPHABET_def str_lit_def)
  ultimately show "decode_base58 [0xC4, 0xB2] = decode_base58 (str_lit ''2'')"
    using two by (simp add: decode_base58_def)
qed

end
