(* ===== verification/Base32.thy ===== *)
theory Base32
  imports Base58
begin

text \<open>
  RFC 4648 base32 without padding, \<open>encode_base32_nopad_lower\<close> and
  \<open>decode_base32_nopad\<close> of \<open>crates/identity/src/peer_id.rs\<close>: a bit buffer of 16 bits on
  the way out and of 32 bits on the way in, both of which drop the bits that were used.
\<close>

section \<open>Model\<close>

definition BASE32_ALPHABET_LOWER :: str where
  "BASE32_ALPHABET_LOWER = str_lit ''abcdefghijklmnopqrstuvwxyz234567''"

text \<open>The inner loop of the encoder: emit groups of five while there are five bits.\<close>

function emit32 :: "u16 \<Rightarrow> nat \<Rightarrow> str \<Rightarrow> nat \<times> str" where
  "emit32 buffer bits out =
     (if 5 \<le> bits
      then emit32 buffer (bits - 5)
             (out @ [BASE32_ALPHABET_LOWER ! unat (drop_bit (bits - 5) buffer AND 0x1f)])
      else (bits, out))"
  by pat_completeness auto
termination
  by (relation "measure (\<lambda>(buffer, bits, out). bits)") auto

declare emit32.simps [simp del]

fun encode32_loop :: "bytes \<Rightarrow> u16 \<Rightarrow> nat \<Rightarrow> str \<Rightarrow> u16 \<times> nat \<times> str" where
  "encode32_loop [] buffer bits out = (buffer, bits, out)"
| "encode32_loop (byte # rest) buffer bits out =
     (let buffer' = push_bit 8 buffer OR ucast byte;
          (bits', out') = emit32 buffer' (bits + 8) out
      in encode32_loop rest buffer' bits' out')"

definition encode_base32_nopad_lower :: "bytes \<Rightarrow> str" where
  "encode_base32_nopad_lower input =
     (if input = [] then []
      else let (buffer, bits, out) = encode32_loop input 0 0 [] in
        if 0 < bits
        then out @ [BASE32_ALPHABET_LOWER ! unat (push_bit (5 - bits) buffer AND 0x1f)]
        else out)"

definition to_ascii_lowercase :: "nat \<Rightarrow> nat" where
  "to_ascii_lowercase c = (if 65 \<le> c \<and> c \<le> 90 then c + 32 else c)"

definition base32_value :: "nat \<Rightarrow> nat option" where
  "base32_value c =
     (let lower = to_ascii_lowercase c in
      if 97 \<le> lower \<and> lower \<le> 122 then Some (lower - 97)
      else if 50 \<le> lower \<and> lower \<le> 55 then Some (26 + (lower - 50))
      else None)"

datatype base32_error = InvalidBase32Character nat nat

function drain32 :: "u32 \<Rightarrow> nat \<Rightarrow> bytes \<Rightarrow> nat \<times> bytes" where
  "drain32 buffer bits out =
     (if 8 \<le> bits
      then drain32 buffer (bits - 8) (out @ [ucast (drop_bit (bits - 8) buffer AND 0xff)])
      else (bits, out))"
  by pat_completeness auto
termination
  by (relation "measure (\<lambda>(buffer, bits, out). bits)") auto

declare drain32.simps [simp del]

fun decode32_loop ::
  "nat \<Rightarrow> nat list \<Rightarrow> u32 \<Rightarrow> nat \<Rightarrow> bytes \<Rightarrow> base32_error + bytes"
where
  "decode32_loop index [] buffer bits out = Inr out"
| "decode32_loop index (c # cs) buffer bits out =
     (case base32_value c of
        None \<Rightarrow> Inl (InvalidBase32Character c index)
      | Some v \<Rightarrow>
          let buffer' = push_bit 5 buffer OR word_of_nat v;
              (bits', out') = drain32 buffer' (bits + 5) out
          in decode32_loop (index + 1) cs buffer' bits' out')"

definition decode_base32_nopad :: "str \<Rightarrow> base32_error + bytes" where
  "decode_base32_nopad input =
     (if input = [] then Inr [] else decode32_loop 0 (chars input) 0 0 [])"

section \<open>The bit buffer\<close>

text \<open>The unread bits of a buffer, as a number.\<close>

definition leftover :: "nat \<Rightarrow> 'a::len word \<Rightarrow> nat" where
  "leftover bits buffer = unat buffer mod 2 ^ bits"

lemma leftover_less: "leftover bits buffer < 2 ^ bits"
  by (simp add: leftover_def)

lemma leftover_group:
  "unat (take_bit t (drop_bit s w)) = leftover (s + t) w div 2 ^ s" for w :: "'a::len word"
proof -
  have "unat w div 2 ^ s mod 2 ^ t = unat w mod (2 ^ s * 2 ^ t) div 2 ^ s"
    by (simp add: mod_mult2_eq)
  then show ?thesis by (simp add: leftover_def word_nat power_add)
qed

lemma leftover_rest: "leftover (s + t) w mod 2 ^ s = leftover s w"
  by (simp add: leftover_def power_add mod_mult2_eq)

lemma leftover_push:
  fixes w :: "'a::len word"
  assumes "unat v < 2 ^ t" and "r + t < LENGTH('a)"
  shows "leftover (r + t) (push_bit t w OR v) = leftover r w * 2 ^ t + unat v"
proof -
  have v: "take_bit t v = v" using assms(1) by (metis mod_less unat_take_bit_word unsigned_word_eqI)
  have "take_bit (r + t) (push_bit t w OR v) = v OR push_bit t (take_bit r w)"
  proof (rule bit_word_eqI)
    fix n assume n: "n < LENGTH('a)"
    have "\<not> bit v n" if "t \<le> n" using that v by (metis bit_take_bit_iff not_le)
    with n show "bit (take_bit (r + t) (push_bit t w OR v)) n = bit (v OR push_bit t (take_bit r w)) n"
      by (auto simp: bit_simps)
  qed
  from arg_cong [OF this, of unat]
  have "leftover (r + t) (push_bit t w OR v) = unat (v OR push_bit t (take_bit r w))"
    unfolding leftover_def unat_take_bit_word [symmetric] .
  moreover have "unat (take_bit r w) * 2 ^ t < 2 ^ LENGTH('a)"
  proof -
    have "unat (take_bit r w) < 2 ^ r" by (simp add: word_nat)
    then have "unat (take_bit r w) * 2 ^ t < 2 ^ r * 2 ^ t" by simp
    also have "\<dots> = 2 ^ (r + t)" by (simp add: power_add)
    also have "\<dots> \<le> 2 ^ LENGTH('a)" using assms(2) by (intro power_increasing) simp_all
    finally show ?thesis .
  qed
  ultimately show ?thesis
    using assms unat_or_push_bit [of v t "take_bit r w"] by (simp add: leftover_def word_nat)
qed

lemma be_value_cons: "be_value d (x # xs) = x * d ^ length xs + be_value d xs"
  by (simp add: be_value_def radix_value_append)

lemma be_value_nil [simp]: "be_value d [] = 0"
  by (simp add: be_value_def)

lemma be_value_append: "be_value d (xs @ ys) = be_value d xs * d ^ length ys + be_value d ys"
  by (induction xs) (simp_all add: be_value_cons power_add distrib_right mult.assoc)

lemma be_value_inj:
  "length xs = length ys \<Longrightarrow> digits_ok d xs \<Longrightarrow> digits_ok d ys \<Longrightarrow> be_value d xs = be_value d ys \<Longrightarrow> xs = ys"
proof (induction xs arbitrary: ys rule: rev_induct)
  case (snoc x xs)
  then obtain y zs where ys: "ys = zs @ [y]" by (cases ys rule: rev_exhaust) auto
  have lt: "x < d" "y < d" using snoc.prems by (simp_all add: digits_ok_def ys)
  have eq: "be_value d xs * d + x = be_value d zs * d + y" using snoc.prems(4) by (simp add: ys be_value_snoc)
  have "x = y" using arg_cong [OF eq, of "\<lambda>n. n mod d"] lt by simp
  moreover have "be_value d xs = be_value d zs" using arg_cong [OF eq, of "\<lambda>n. n div d"] lt by simp
  ultimately show ?case
    using snoc.IH [of zs] snoc.prems by (simp add: ys digits_ok_def)
qed simp

definition alpha32 :: "nat list \<Rightarrow> str" where
  "alpha32 ds = map (\<lambda>d. BASE32_ALPHABET_LOWER ! d) ds"

lemma alpha32_simps [simp]:
  "alpha32 [] = []" "alpha32 (d # ds) = BASE32_ALPHABET_LOWER ! d # alpha32 ds"
  "alpha32 (xs @ ys) = alpha32 xs @ alpha32 ys"
  by (simp_all add: alpha32_def)

lemma digits_ok_simps [simp]:
  "digits_ok d []" "digits_ok d (x # xs) \<longleftrightarrow> x < d \<and> digits_ok d xs"
  "digits_ok d (xs @ ys) \<longleftrightarrow> digits_ok d xs \<and> digits_ok d ys"
  by (auto simp: digits_ok_def)

lemma and_31: "w AND 0x1f = take_bit 5 w" for w :: "'a::len word"
  by (simp add: take_bit_eq_mask mask_eq_exp_minus_1)

lemma and_255: "w AND 0xff = take_bit 8 w" for w :: "'a::len word"
  by (simp add: take_bit_eq_mask mask_eq_exp_minus_1)

text \<open>One group taken off the top of the unread bits.\<close>

lemma leftover_take:
  fixes w :: "'a::len word"
  shows "unat (take_bit t (drop_bit s w)) * 2 ^ s + leftover s w = leftover (s + t) w"
    and "unat (take_bit t (drop_bit s w)) < 2 ^ t"
proof -
  show "unat (take_bit t (drop_bit s w)) * 2 ^ s + leftover s w = leftover (s + t) w"
    unfolding leftover_group leftover_rest [of s t w, symmetric] by (rule div_mult_mod_eq)
  show "unat (take_bit t (drop_bit s w)) < 2 ^ t" by (simp add: word_nat)
qed

lemma emit32_spec:
  "\<exists>ds. emit32 w b out = (b mod 5, out @ alpha32 ds) \<and> length ds = b div 5 \<and> digits_ok 32 ds \<and>
        be_value 32 ds * 2 ^ (b mod 5) + leftover (b mod 5) w = leftover b w"
proof (induction w b out rule: emit32.induct)
  case (1 w b out)
  show ?case
  proof (cases "5 \<le> b")
    case True
    let ?d = "unat (drop_bit (b - 5) w AND 0x1f)"
    from "1" [OF True] obtain ds where ds:
      "emit32 w (b - 5) (out @ [BASE32_ALPHABET_LOWER ! ?d]) =
         ((b - 5) mod 5, (out @ [BASE32_ALPHABET_LOWER ! ?d]) @ alpha32 ds)"
      "length ds = (b - 5) div 5" "digits_ok 32 ds"
      "be_value 32 ds * 2 ^ ((b - 5) mod 5) + leftover ((b - 5) mod 5) w = leftover (b - 5) w" by blast
    have m: "(b - 5) mod 5 = b mod 5" "Suc ((b - 5) div 5) = b div 5"
      using True by (simp_all add: le_mod_geq le_div_geq)
    have pw: "(32 :: nat) ^ length ds * 2 ^ (b mod 5) = 2 ^ (b - 5)"
    proof -
      have "(32 :: nat) ^ length ds = 2 ^ (5 * length ds)" by (simp add: power_mult)
      moreover have "5 * length ds + b mod 5 = b - 5"
        unfolding ds(2) m(1) [symmetric] by simp
      ultimately show ?thesis by (simp add: power_add [symmetric])
    qed
    have d: "?d * 2 ^ (b - 5) + leftover (b - 5) w = leftover b w" "?d < 32"
      using leftover_take [of 5 "b - 5" w] True by (simp_all add: and_31)
    have "be_value 32 (?d # ds) * 2 ^ (b mod 5) + leftover (b mod 5) w =
        ?d * (32 ^ length ds * 2 ^ (b mod 5)) + (be_value 32 ds * 2 ^ (b mod 5) + leftover (b mod 5) w)"
      by (simp add: be_value_cons distrib_right mult.assoc)
    also have "\<dots> = leftover b w" using ds(4) m(1) pw d(1) by simp
    finally have "be_value 32 (?d # ds) * 2 ^ (b mod 5) + leftover (b mod 5) w = leftover b w" .
    moreover have "emit32 w b out = (b mod 5, out @ alpha32 (?d # ds))"
      using True ds(1) m(1) by (subst emit32.simps) simp
    ultimately show ?thesis using ds(2,3) d(2) m(2) by (intro exI [of _ "?d # ds"]) simp
  next
    case False
    then show ?thesis by (subst emit32.simps) (auto intro!: exI [of _ "[]"])
  qed
qed

lemma drain32_spec:
  "\<exists>bs. drain32 w b out = (b mod 8, out @ bs) \<and> length bs = b div 8 \<and>
        be_value 256 (map unat bs) * 2 ^ (b mod 8) + leftover (b mod 8) w = leftover b w"
proof (induction w b out rule: drain32.induct)
  case (1 w b out)
  show ?case
  proof (cases "8 \<le> b")
    case True
    let ?d = "ucast (drop_bit (b - 8) w AND 0xff) :: u8"
    from "1" [OF True] obtain bs where bs:
      "drain32 w (b - 8) (out @ [?d]) = ((b - 8) mod 8, (out @ [?d]) @ bs)"
      "length bs = (b - 8) div 8"
      "be_value 256 (map unat bs) * 2 ^ ((b - 8) mod 8) + leftover ((b - 8) mod 8) w = leftover (b - 8) w"
      by blast
    have m: "(b - 8) mod 8 = b mod 8" "Suc ((b - 8) div 8) = b div 8"
      using True by (simp_all add: le_mod_geq le_div_geq)
    have pw: "(256 :: nat) ^ length bs * 2 ^ (b mod 8) = 2 ^ (b - 8)"
    proof -
      have "(256 :: nat) ^ length bs = 2 ^ (8 * length bs)" by (simp add: power_mult)
      moreover have "8 * length bs + b mod 8 = b - 8"
        unfolding bs(2) m(1) [symmetric] by simp
      ultimately show ?thesis by (simp add: power_add [symmetric])
    qed
    have "unat ?d = unat (take_bit 8 (drop_bit (b - 8) w))"
      using leftover_take(2) [of 8 "b - 8" w] by (simp add: and_255 unat_ucast_mod)
    then have d: "unat ?d * 2 ^ (b - 8) + leftover (b - 8) w = leftover b w"
      using leftover_take(1) [of 8 "b - 8" w] True by simp
    have "be_value 256 (map unat (?d # bs)) * 2 ^ (b mod 8) + leftover (b mod 8) w =
        unat ?d * (256 ^ length bs * 2 ^ (b mod 8)) +
        (be_value 256 (map unat bs) * 2 ^ (b mod 8) + leftover (b mod 8) w)"
      by (simp add: be_value_cons distrib_right mult.assoc)
    also have "\<dots> = leftover b w" using bs(3) m(1) pw d by simp
    finally have "be_value 256 (map unat (?d # bs)) * 2 ^ (b mod 8) + leftover (b mod 8) w = leftover b w" .
    moreover have "drain32 w b out = (b mod 8, out @ ?d # bs)"
      using True bs(1) m(1) by (subst drain32.simps) simp
    ultimately show ?thesis using bs(2) m(2) by (intro exI [of _ "?d # bs"]) simp
  next
    case False
    then show ?thesis by (subst drain32.simps) (auto intro!: exI [of _ "[]"])
  qed
qed

section \<open>The loops\<close>

lemma encode32_loop_spec:
  assumes "b < 5"
  shows "\<exists>w' b' ds. encode32_loop bs w b out = (w', b', out @ alpha32 ds) \<and> b' < 5 \<and> digits_ok 32 ds \<and>
           5 * length ds + b' = b + 8 * length bs \<and>
           be_value 32 ds * 2 ^ b' + leftover b' w' = leftover b w * 256 ^ length bs + be_value 256 (map unat bs)"
  using assms
proof (induction bs arbitrary: w b out)
  case Nil
  then show ?case by (auto intro!: exI [of _ "[]"])
next
  case (Cons x xs)
  let ?w = "push_bit 8 w OR ucast x"
  obtain ds1 where e: "emit32 ?w (b + 8) out = ((b + 8) mod 5, out @ alpha32 ds1)"
    "length ds1 = (b + 8) div 5" "digits_ok 32 ds1"
    "be_value 32 ds1 * 2 ^ ((b + 8) mod 5) + leftover ((b + 8) mod 5) ?w = leftover (b + 8) ?w"
    using emit32_spec by blast
  have r: "(b + 8) mod 5 < 5" by simp
  from Cons.IH [OF r, of ?w "out @ alpha32 ds1"] obtain w' b' ds2 where IH:
    "encode32_loop xs ?w ((b + 8) mod 5) (out @ alpha32 ds1) = (w', b', (out @ alpha32 ds1) @ alpha32 ds2)"
    "b' < 5" "digits_ok 32 ds2" "5 * length ds2 + b' = (b + 8) mod 5 + 8 * length xs"
    "be_value 32 ds2 * 2 ^ b' + leftover b' w' =
       leftover ((b + 8) mod 5) ?w * 256 ^ length xs + be_value 256 (map unat xs)" by blast
  have "unat x < 65536" using unat_u8_less [of x] by linarith
  then have "unat (ucast x :: u16) = unat x" by (simp add: unat_ucast_mod)
  then have push: "leftover (b + 8) ?w = leftover b w * 256 + unat x"
    using leftover_push [of "ucast x :: u16" 8 b w] Cons.prems by simp
  have len: "5 * length ds1 + (b + 8) mod 5 = b + 8" unfolding e(2) by simp
  have pw: "(32 :: nat) ^ length ds2 * 2 ^ b' = 2 ^ ((b + 8) mod 5) * 256 ^ length xs"
  proof -
    have "(32 :: nat) ^ length ds2 = 2 ^ (5 * length ds2)" "(256 :: nat) ^ length xs = 2 ^ (8 * length xs)"
      by (simp_all add: power_mult)
    then show ?thesis using IH(4) by (simp add: power_add [symmetric])
  qed
  have "be_value 32 (ds1 @ ds2) * 2 ^ b' + leftover b' w' =
      be_value 32 ds1 * (32 ^ length ds2 * 2 ^ b') + (be_value 32 ds2 * 2 ^ b' + leftover b' w')"
    by (simp add: be_value_append distrib_right mult.assoc)
  also have "\<dots> = (be_value 32 ds1 * 2 ^ ((b + 8) mod 5) + leftover ((b + 8) mod 5) ?w) * 256 ^ length xs +
      be_value 256 (map unat xs)"
    unfolding pw IH(5) by (simp add: distrib_right mult.assoc)
  also have "\<dots> = leftover b w * 256 ^ length (x # xs) + be_value 256 (map unat (x # xs))"
    unfolding e(4) push by (simp add: be_value_cons distrib_right mult.assoc)
  finally have val: "be_value 32 (ds1 @ ds2) * 2 ^ b' + leftover b' w' =
      leftover b w * 256 ^ length (x # xs) + be_value 256 (map unat (x # xs))" .
  have "encode32_loop (x # xs) w b out = (w', b', out @ alpha32 (ds1 @ ds2))"
    using e(1) IH(1) by (simp add: Let_def)
  moreover have "5 * length (ds1 @ ds2) + b' = b + 8 * length (x # xs)" using len IH(4) by simp
  moreover have "digits_ok 32 (ds1 @ ds2)" using e(3) IH(3) by simp
  ultimately show ?case using IH(2) val by blast
qed

lemma encode_base32_spec:
  "\<exists>ds p. encode_base32_nopad_lower bs = alpha32 ds \<and> digits_ok 32 ds \<and> p < 5 \<and>
          5 * length ds = 8 * length bs + p \<and> be_value 32 ds = be_value 256 (map unat bs) * 2 ^ p"
proof (cases "bs = []")
  case True
  then show ?thesis by (auto simp: encode_base32_nopad_lower_def intro!: exI [of _ "[]"])
next
  case False
  obtain w b ds where e: "encode32_loop bs 0 0 [] = (w, b, alpha32 ds)" "b < 5" "digits_ok 32 ds"
    "5 * length ds + b = 8 * length bs"
    "be_value 32 ds * 2 ^ b + leftover b w = be_value 256 (map unat bs)"
    using encode32_loop_spec [of 0 bs 0 "[]"] by (auto simp: leftover_def)
  show ?thesis
  proof (cases "b = 0")
    case True
    with e False show ?thesis
      by (intro exI [of _ ds] exI [of _ 0]) (simp add: encode_base32_nopad_lower_def leftover_def)
  next
    case b: False
    let ?d = "unat (push_bit (5 - b) w AND 0x1f)"
    have "?d = leftover (b + (5 - b)) (push_bit (5 - b) w OR 0)"
      using e(2) by (simp add: and_31 leftover_def word_nat)
    also have "\<dots> = leftover b w * 2 ^ (5 - b)" using leftover_push [of 0 "5 - b" b w] e(2) by simp
    finally have d: "?d = leftover b w * 2 ^ (5 - b)" .
    have lt: "?d < 32" by (simp add: and_31 word_nat)
    have "(32 :: nat) = 2 ^ b * 2 ^ (5 - b)" using e(2) by (simp add: power_add [symmetric])
    then have "be_value 32 (ds @ [?d]) = (be_value 32 ds * 2 ^ b + leftover b w) * 2 ^ (5 - b)"
      unfolding be_value_snoc d by (simp add: distrib_right mult.assoc)
    then have "be_value 32 (ds @ [?d]) = be_value 256 (map unat bs) * 2 ^ (5 - b)" by (simp only: e(5))
    moreover have "encode_base32_nopad_lower bs = alpha32 (ds @ [?d])"
      using False b e(1) by (simp add: encode_base32_nopad_lower_def)
    moreover have "5 * length (ds @ [?d]) = 8 * length bs + (5 - b)" using e(2,4) by simp
    moreover have "digits_ok 32 (ds @ [?d])" using e(3) lt by simp
    ultimately show ?thesis using b by (intro exI [of _ "ds @ [?d]"] exI [of _ "5 - b"]) simp
  qed
qed

lemma decode32_loop_spec:
  assumes "b < 8" and "map base32_value cs = map Some vs" and "digits_ok 32 vs"
  shows "\<exists>bs r l. decode32_loop i cs w b out = Inr (out @ bs) \<and> r < 8 \<and> l < 2 ^ r \<and>
           8 * length bs + r = b + 5 * length vs \<and>
           be_value 256 (map unat bs) * 2 ^ r + l = leftover b w * 32 ^ length vs + be_value 32 vs"
  using assms
proof (induction vs arbitrary: i cs w b out)
  case Nil
  then show ?case
    by (auto intro!: exI [of _ "[]"] exI [of _ b] exI [of _ "leftover b w"] simp: leftover_less)
next
  case (Cons v vs)
  then obtain c cs' where cs: "cs = c # cs'" "base32_value c = Some v" "map base32_value cs' = map Some vs"
    by (cases cs) auto
  let ?w = "push_bit 5 w OR word_of_nat v"
  obtain bs1 where d: "drain32 ?w (b + 5) out = ((b + 5) mod 8, out @ bs1)" "length bs1 = (b + 5) div 8"
    "be_value 256 (map unat bs1) * 2 ^ ((b + 5) mod 8) + leftover ((b + 5) mod 8) ?w = leftover (b + 5) ?w"
    using drain32_spec by blast
  have r: "(b + 5) mod 8 < 8" by simp
  have vs: "v < 32" "digits_ok 32 vs" using Cons.prems(3) by simp_all
  from Cons.IH [OF r cs(3) vs(2), of "i + 1" ?w "out @ bs1"] obtain bs2 r' l where IH:
    "decode32_loop (i + 1) cs' ?w ((b + 5) mod 8) (out @ bs1) = Inr ((out @ bs1) @ bs2)" "r' < 8" "l < 2 ^ r'"
    "8 * length bs2 + r' = (b + 5) mod 8 + 5 * length vs"
    "be_value 256 (map unat bs2) * 2 ^ r' + l = leftover ((b + 5) mod 8) ?w * 32 ^ length vs + be_value 32 vs"
    by blast
  have "unat (word_of_nat v :: u32) = v" using vs(1) by (intro unat_word_of_nat) simp
  then have push: "leftover (b + 5) ?w = leftover b w * 32 + v"
    using leftover_push [of "word_of_nat v :: u32" 5 b w] Cons.prems(1) vs(1) by simp
  have len: "8 * length bs1 + (b + 5) mod 8 = b + 5" unfolding d(2) by simp
  have pw: "(256 :: nat) ^ length bs2 * 2 ^ r' = 2 ^ ((b + 5) mod 8) * 32 ^ length vs"
  proof -
    have "(256 :: nat) ^ length bs2 = 2 ^ (8 * length bs2)" "(32 :: nat) ^ length vs = 2 ^ (5 * length vs)"
      by (simp_all add: power_mult)
    then show ?thesis using IH(4) by (simp add: power_add [symmetric])
  qed
  have "be_value 256 (map unat (bs1 @ bs2)) * 2 ^ r' + l =
      be_value 256 (map unat bs1) * (256 ^ length bs2 * 2 ^ r') + (be_value 256 (map unat bs2) * 2 ^ r' + l)"
    by (simp add: be_value_append distrib_right mult.assoc)
  also have "\<dots> = (be_value 256 (map unat bs1) * 2 ^ ((b + 5) mod 8) + leftover ((b + 5) mod 8) ?w) * 32 ^ length vs +
      be_value 32 vs"
    unfolding pw IH(5) by (simp add: distrib_right mult.assoc)
  also have "\<dots> = leftover b w * 32 ^ length (v # vs) + be_value 32 (v # vs)"
    unfolding d(3) push by (simp add: be_value_cons distrib_right mult.assoc)
  finally have val: "be_value 256 (map unat (bs1 @ bs2)) * 2 ^ r' + l =
      leftover b w * 32 ^ length (v # vs) + be_value 32 (v # vs)" .
  have "decode32_loop i cs w b out = Inr (out @ bs1 @ bs2)"
    using d(1) IH(1) cs by (simp add: Let_def)
  moreover have "8 * length (bs1 @ bs2) + r' = b + 5 * length (v # vs)" using len IH(4) by simp
  ultimately show ?case using IH(2,3) val by blast
qed

section \<open>The alphabet\<close>

lemma alphabet32:
  "length BASE32_ALPHABET_LOWER = 32" "\<forall>b \<in> set BASE32_ALPHABET_LOWER. b < 0x80"
  "list_all (\<lambda>d. base32_value (unat (BASE32_ALPHABET_LOWER ! d)) = Some d) [0..<32]"
  by (simp_all add: BASE32_ALPHABET_LOWER_def str_lit_def upt_rec base32_value_def to_ascii_lowercase_def)

lemma alpha32_values: "digits_ok 32 ds \<Longrightarrow> map base32_value (map unat (alpha32 ds)) = map Some ds"
  using alphabet32(3) by (induction ds) (auto simp: list_all_iff)

lemma alpha32_ascii: "digits_ok 32 ds \<Longrightarrow> \<forall>b \<in> set (alpha32 ds). b < 0x80"
  using alphabet32(1,2) by (auto simp: alpha32_def digits_ok_def)

section \<open>Round trip\<close>

lemma base32_round_trip: "decode_base32_nopad (encode_base32_nopad_lower bs) = Inr bs"
proof -
  obtain ds p where e: "encode_base32_nopad_lower bs = alpha32 ds" "digits_ok 32 ds" "p < 5"
    "5 * length ds = 8 * length bs + p" "be_value 32 ds = be_value 256 (map unat bs) * 2 ^ p"
    using encode_base32_spec by blast
  show ?thesis
  proof (cases "ds = []")
    case True
    with e show ?thesis by (simp add: decode_base32_nopad_def)
  next
    case False
    have "chars (alpha32 ds) = map unat (alpha32 ds)" using alpha32_ascii [OF e(2)] by (rule chars_ascii)
    moreover from decode32_loop_spec [OF _ alpha32_values [OF e(2)] e(2), of 0 0 0 "[]"]
    obtain bs' r l where d: "decode32_loop 0 (map unat (alpha32 ds)) 0 0 [] = Inr bs'" "r < 8" "l < 2 ^ r"
      "8 * length bs' + r = 5 * length ds" "be_value 256 (map unat bs') * 2 ^ r + l = be_value 32 ds"
      by (auto simp: leftover_def)
    have "8 * length bs' + r = 8 * length bs + p" using d(4) e(4) by simp
    with d(2) e(3) have len: "length bs' = length bs" "r = p" by presburger+
    have "be_value 256 (map unat bs') = be_value 256 (map unat bs)"
      using arg_cong [OF d(5), of "\<lambda>n. n div 2 ^ p"] d(3) e(5) len(2) by simp
    then have "map unat bs' = map unat bs" using len(1) by (intro be_value_inj [of _ _ 256]) simp_all
    then have "bs' = bs" by (metis map_word_of_nat_unat)
    with False calculation d(1) show ?thesis
      by (cases ds) (simp_all add: e(1) decode_base32_nopad_def)
  qed
qed

end
