(* ===== verification/Public_Key.thy ===== *)
theory Public_Key
  imports Varint Rust_Str
begin

text \<open>
  Public keys and their protobuf wrapper, \<open>crates/identity/src/key.rs\<close>. The Ed25519
  verification of the \<open>ed25519_dalek\<close> crate is a parameter of \<open>verify\<close>.
\<close>

section \<open>Model\<close>

datatype key_type = Rsa | Ed25519 | Secp256k1 | Ecdsa

fun key_type_code :: "key_type \<Rightarrow> u64" where
  "key_type_code Rsa = 0"
| "key_type_code Ed25519 = 1"
| "key_type_code Secp256k1 = 2"
| "key_type_code Ecdsa = 3"

datatype public_key_error =
    KeyEmptyInput
  | InvalidFieldTag u8 "u8 option"
  | KeyVarint varint_error
  | UnknownKeyType u64
  | KeyLengthOverflow
  | InvalidLength nat nat

definition key_type_try_from :: "u64 \<Rightarrow> public_key_error + key_type" where
  "key_type_try_from value =
     (if value = 0 then Inr Rsa
      else if value = 1 then Inr Ed25519
      else if value = 2 then Inr Secp256k1
      else if value = 3 then Inr Ecdsa
      else Inl (UnknownKeyType value))"

record public_key =
  pk_type :: key_type
  pk_data :: bytes

definition encode_protobuf :: "public_key \<Rightarrow> bytes" where
  "encode_protobuf k =
     [0x08] @ write_uvarint (key_type_code (pk_type k)) [] @ [0x12] @
     write_uvarint (word_of_nat (length (pk_data k))) [] @ pk_data k"

definition byte_at :: "bytes \<Rightarrow> nat \<Rightarrow> u8 option" where
  "byte_at bs i = (if i < length bs then Some (bs ! i) else None)"

text \<open>The index of the source is the number of bytes consumed so far.\<close>

definition decode_protobuf :: "bytes \<Rightarrow> public_key_error + public_key" where
  "decode_protobuf input =
     (if input = [] then Inl KeyEmptyInput
      else if byte_at input 0 \<noteq> Some 0x08 then Inl (InvalidFieldTag 0x08 (byte_at input 0))
      else
        rbind (ok_or (slice_from input 1) (InvalidLength 1 (length input))) (\<lambda>remaining.
        rbind (map_err KeyVarint (read_uvarint remaining)) (\<lambda>(key_type_raw, used).
        let idx = 1 + used in
        rbind (key_type_try_from key_type_raw) (\<lambda>key_type.
        if byte_at input idx \<noteq> Some 0x12 then Inl (InvalidFieldTag 0x12 (byte_at input idx))
        else let idx = idx + 1 in
          rbind (ok_or (slice_from input idx) (InvalidLength idx (length input))) (\<lambda>remaining.
          rbind (map_err KeyVarint (read_uvarint remaining)) (\<lambda>(data_len, used).
          let idx = idx + used in
          rbind (ok_or (usize_checked_add idx (unat data_len)) KeyLengthOverflow) (\<lambda>expected_total.
          if expected_total \<noteq> length input then Inl (InvalidLength expected_total (length input))
          else rbind (ok_or (slice_from input idx) (InvalidLength expected_total (length input))) (\<lambda>data.
            Inr \<lparr> pk_type = key_type, pk_data = data \<rparr>))))))))"

datatype verify_error =
    UnsupportedKeyType key_type
  | InvalidEd25519PublicKeyLength nat
  | InvalidEd25519PublicKey
  | InvalidSignature

definition verify ::
  "(bytes \<Rightarrow> 'vk option) \<Rightarrow> ('vk \<Rightarrow> bytes \<Rightarrow> bytes \<Rightarrow> bool) \<Rightarrow> public_key \<Rightarrow> bytes \<Rightarrow> bytes
     \<Rightarrow> verify_error + unit"
where
  "verify verifying_key_from_bytes verify_strict k message signature =
     (case pk_type k of
        Ed25519 \<Rightarrow>
          if length (pk_data k) \<noteq> 32 then Inl (InvalidEd25519PublicKeyLength (length (pk_data k)))
          else (case verifying_key_from_bytes (pk_data k) of
              None \<Rightarrow> Inl InvalidEd25519PublicKey
            | Some key \<Rightarrow> if verify_strict key message signature then Inr () else Inl InvalidSignature)
      | other \<Rightarrow> Inl (UnsupportedKeyType other))"

definition hex_digit :: "nat \<Rightarrow> u8" where
  "hex_digit n = word_of_nat (if n < 10 then 48 + n else 87 + n)"

definition hex_byte :: "u8 \<Rightarrow> str" where
  "hex_byte b = [hex_digit (unat b div 16), hex_digit (unat b mod 16)]"

definition public_key_lower_hex :: "public_key \<Rightarrow> str" where
  "public_key_lower_hex k = concat (map hex_byte (pk_data k))"

fun key_type_debug :: "key_type \<Rightarrow> str" where
  "key_type_debug Rsa = str_lit ''Rsa''"
| "key_type_debug Ed25519 = str_lit ''Ed25519''"
| "key_type_debug Secp256k1 = str_lit ''Secp256k1''"
| "key_type_debug Ecdsa = str_lit ''Ecdsa''"

definition public_key_display :: "public_key \<Rightarrow> str" where
  "public_key_display k = key_type_debug (pk_type k) @ str_lit '':'' @ public_key_lower_hex k"

section \<open>Round trip\<close>

lemma key_type_try_from_iff: "key_type_try_from v = Inr t \<longleftrightarrow> v = key_type_code t"
  by (cases t) (auto simp: key_type_try_from_def)

lemma read_uvarint_write: "read_uvarint (write_uvarint v [] @ rest) = Inr (v, uvarint_len v)"
  by (auto simp: read_uvarint_iff)

definition pk_fits :: "public_key \<Rightarrow> bool" where
  "pk_fits k \<longleftrightarrow> length (encode_protobuf k) \<le> usize_max"

lemma pk_fits_length: "pk_fits k \<Longrightarrow> unat (word_of_nat (length (pk_data k)) :: u64) = length (pk_data k)"
  by (rule unat_word_of_nat) (simp add: pk_fits_def encode_protobuf_def usize_max_def)

lemma slice_from_append [simp]: "slice_from (xs @ ys) (length xs) = Some ys"
  by (simp add: slice_from_def)

lemma byte_at_append [simp]: "byte_at (xs @ y # ys) (length xs) = Some y"
  by (simp add: byte_at_def)

lemma decode_encode_protobuf:
  assumes "pk_fits k"
  shows "decode_protobuf (encode_protobuf k) = Inr k"
proof -
  define t where "t = write_uvarint (key_type_code (pk_type k)) []"
  define n where "n = write_uvarint (word_of_nat (length (pk_data k))) []"
  define input where "input = encode_protobuf k"
  have input: "input = [8] @ t @ [18] @ n @ pk_data k"
    by (simp add: input_def encode_protobuf_def t_def n_def)
  have "byte_at input 0 = Some 8" "slice_from input 1 = Some (t @ [18] @ n @ pk_data k)"
    by (simp_all add: input byte_at_def slice_from_def)
  moreover have "byte_at input (1 + length t) = Some 18"
    using byte_at_append [of "[8] @ t" 18 "n @ pk_data k"] by (simp add: input)
  moreover have "slice_from input (1 + length t + 1) = Some (n @ pk_data k)"
    using slice_from_append [of "[8] @ t @ [18]" "n @ pk_data k"] by (simp add: input)
  moreover have "slice_from input (1 + length t + 1 + length n) = Some (pk_data k)"
    using slice_from_append [of "[8] @ t @ [18] @ n" "pk_data k"] by (simp add: input add.assoc)
  moreover have "usize_checked_add (1 + length t + 1 + length n) (length (pk_data k)) = Some (length input)"
    using assms by (simp add: pk_fits_def usize_checked_add_def input flip: input_def)
  moreover have "read_uvarint (t @ xs) = Inr (key_type_code (pk_type k), length t)"
    "read_uvarint (n @ xs) = Inr (word_of_nat (length (pk_data k)), length n)" for xs
    by (simp_all add: t_def n_def read_uvarint_write length_write_uvarint)
  moreover have "key_type_try_from (key_type_code (pk_type k)) = Inr (pk_type k)"
    by (simp add: key_type_try_from_iff)
  moreover have "input \<noteq> []" by (simp add: input)
  ultimately show ?thesis
    unfolding decode_protobuf_def input_def [symmetric]
    by (simp add: pk_fits_length [OF assms])
qed

lemma slice_from_SomeD: "slice_from xs i = Some ys \<Longrightarrow> i \<le> length xs \<and> xs = take i xs @ ys"
  by (auto simp: slice_from_def split: if_splits)

lemma decode_protobuf_canonical:
  assumes "decode_protobuf input = Inr k"
  shows "input = encode_protobuf k"
proof -
  from assms obtain r1 v used t r3 n used2 where
    b0: "byte_at input 0 = Some 8" and r1: "slice_from input 1 = Some r1"
    and v: "read_uvarint r1 = Inr (v, used)" and t: "key_type_try_from v = Inr t"
    and b1: "byte_at input (1 + used) = Some 18" and r3: "slice_from input (1 + used + 1) = Some r3"
    and n: "read_uvarint r3 = Inr (n, used2)"
    and total_len: "usize_checked_add (1 + used + 1 + used2) (unat n) = Some (length input)"
    and data: "slice_from input (1 + used + 1 + used2) = Some (pk_data k)" and "pk_type k = t"
    by (auto simp: decode_protobuf_def result_simps Let_def split: if_splits prod.splits)
  from b0 r1 have in1: "input = 8 # r1"
    by (cases input) (auto simp: byte_at_def slice_from_def split: if_splits)
  from v obtain r2 where r2: "r1 = write_uvarint v [] @ r2" "used = length (write_uvarint v [])"
    by (auto simp: read_uvarint_iff length_write_uvarint)
  from b1 r3 have "r2 = 18 # r3"
    unfolding in1 r2(1) by (cases r2) (auto simp: byte_at_def slice_from_def r2(2) nth_append split: if_splits)
  moreover from n obtain r4 where r4: "r3 = write_uvarint n [] @ r4" "used2 = length (write_uvarint n [])"
    by (auto simp: read_uvarint_iff length_write_uvarint)
  ultimately have input: "input = (8 # write_uvarint v [] @ 18 # write_uvarint n []) @ r4"
    using in1 r2(1) by simp
  have "pk_data k = r4"
    using data unfolding input by (simp add: slice_from_def r2(2) r4(2) split: if_splits)
  moreover have "unat n = length r4"
    using total_len unfolding input by (auto simp: usize_checked_add_def r2(2) r4(2) split: if_splits)
  from this [symmetric] have "n = word_of_nat (length r4)" by simp
  moreover have "v = key_type_code (pk_type k)" using t \<open>pk_type k = t\<close> by (simp add: key_type_try_from_iff)
  ultimately show ?thesis unfolding input encode_protobuf_def by simp
qed

section \<open>Properties\<close>

text \<open>
  C22. The decoder accepts exactly the canonical encodings: an input decodes to a key
  precisely when it is that key's encoding, byte for byte. So a key has one encoding, and
  the peer identifier derived from it is determined by the key.
\<close>

theorem decode_protobuf_iff:
  assumes "length input \<le> usize_max"
  shows "decode_protobuf input = Inr k \<longleftrightarrow> input = encode_protobuf k"
  using assms decode_protobuf_canonical decode_encode_protobuf by (auto simp: pk_fits_def)

theorem decode_protobuf_iff_witness:
  "decode_protobuf [8, 1, 18, 2, 5, 6] = Inr \<lparr> pk_type = Ed25519, pk_data = [5, 6] \<rparr>"
proof -
  have "encode_protobuf \<lparr> pk_type = Ed25519, pk_data = [5, 6] \<rparr> = [8, 1, 18, 2, 5, 6]"
    by (simp add: encode_protobuf_def write_uvarint_nil)
  moreover have "length [8, 1, 18, 2, 5, 6 :: u8] \<le> usize_max" by (simp add: usize_max_def)
  ultimately show ?thesis
    using decode_protobuf_iff [of "[8, 1, 18, 2, 5, 6]" "\<lparr> pk_type = Ed25519, pk_data = [5, 6] \<rparr>"] by simp
qed

end
