(* ===== verification/Peer_Id.thy ===== *)
theory Peer_Id
  imports Base32 Public_Key
begin

text \<open>
  Peer identifiers, \<open>crates/identity/src/peer_id.rs\<close>: derived from a public key, printed
  and parsed as base58btc or as a CID. The \<open>multihash\<close> crate is a record of operations
  that the definitions take as an argument, and SHA-256 is a function argument; what the
  code relies on is stated in \<open>multihash_laws\<close>.
\<close>

section \<open>Model\<close>

definition IDENTITY_MULTIHASH_CODE :: u64 where "IDENTITY_MULTIHASH_CODE = 0x00"
definition SHA256_MULTIHASH_CODE :: u64 where "SHA256_MULTIHASH_CODE = 0x12"
definition LIBP2P_KEY_MULTICODEC :: u64 where "LIBP2P_KEY_MULTICODEC = 0x72"
definition MAX_INLINE_KEY_LENGTH :: nat where "MAX_INLINE_KEY_LENGTH = 42"
definition PEER_ID_MULTIHASH_SIZE :: nat where "PEER_ID_MULTIHASH_SIZE = 64"

lemmas peer_id_consts =
  IDENTITY_MULTIHASH_CODE_def SHA256_MULTIHASH_CODE_def LIBP2P_KEY_MULTICODEC_def
  MAX_INLINE_KEY_LENGTH_def PEER_ID_MULTIHASH_SIZE_def

record 'mh multihash_ops =
  mh_wrap :: "u64 \<Rightarrow> bytes \<Rightarrow> 'mh option"
  mh_code :: "'mh \<Rightarrow> u64"
  mh_digest :: "'mh \<Rightarrow> bytes"
  mh_to_bytes :: "'mh \<Rightarrow> bytes"
  mh_from_bytes :: "bytes \<Rightarrow> str + 'mh"

text \<open>The documented behaviour of \<open>Multihash<64>\<close> that the identity crate uses.\<close>

definition multihash_laws :: "'mh multihash_ops \<Rightarrow> bool" where
  "multihash_laws mh \<longleftrightarrow>
     (\<forall>c d. length d \<le> 64 \<longrightarrow> (\<exists>m. mh_wrap mh c d = Some m \<and> mh_code mh m = c \<and> mh_digest mh m = d)) \<and>
     (\<forall>m. mh_to_bytes mh m =
        write_uvarint (mh_code mh m) [] @ write_uvarint (word_of_nat (length (mh_digest mh m))) [] @ mh_digest mh m) \<and>
     (\<forall>m. length (mh_digest mh m) \<le> 64 \<longrightarrow> mh_from_bytes mh (mh_to_bytes mh m) = Inr m)"

record 'mh peer_id =
  multihash :: 'mh

datatype peer_id_error =
    EmptyInput
  | UnsupportedMultibase nat
  | UnsupportedCidVersion u64
  | UnsupportedMulticodec u64
  | InvalidSha256DigestLength nat
  | PeerInvalidBase58Character nat nat
  | PeerInvalidBase32Character nat nat
  | InvalidCidVersionVarint varint_error
  | InvalidCidMulticodecVarint varint_error
  | InvalidMultihash str

fun of_base58_error :: "base58_error \<Rightarrow> peer_id_error" where
  "of_base58_error Base58Empty = EmptyInput"
| "of_base58_error (InvalidBase58Character c i) = PeerInvalidBase58Character c i"

fun of_base32_error :: "base32_error \<Rightarrow> peer_id_error" where
  "of_base32_error (InvalidBase32Character c i) = PeerInvalidBase32Character c i"

definition validate_multihash :: "'mh multihash_ops \<Rightarrow> 'mh \<Rightarrow> peer_id_error + unit" where
  "validate_multihash mh m =
     (let digest_len = length (mh_digest mh m) in
      if mh_code mh m = SHA256_MULTIHASH_CODE \<and> digest_len \<noteq> 32
      then Inl (InvalidSha256DigestLength digest_len)
      else Inr ())"

definition build_multihash :: "'mh multihash_ops \<Rightarrow> u64 \<Rightarrow> bytes \<Rightarrow> peer_id_error fault + 'mh" where
  "build_multihash mh code digest = ok_or (mh_wrap mh code digest) Panic"

definition from_public_key_protobuf ::
  "'mh multihash_ops \<Rightarrow> (bytes \<Rightarrow> bytes) \<Rightarrow> bytes \<Rightarrow> peer_id_error fault + 'mh peer_id"
where
  "from_public_key_protobuf mh sha256 encoded_public_key =
     rbind (if length encoded_public_key \<le> MAX_INLINE_KEY_LENGTH
            then build_multihash mh IDENTITY_MULTIHASH_CODE encoded_public_key
            else build_multihash mh SHA256_MULTIHASH_CODE (sha256 encoded_public_key))
       (\<lambda>m. Inr \<lparr> multihash = m \<rparr>)"

definition from_public_key ::
  "'mh multihash_ops \<Rightarrow> (bytes \<Rightarrow> bytes) \<Rightarrow> public_key \<Rightarrow> peer_id_error fault + 'mh peer_id"
where
  "from_public_key mh sha256 k = from_public_key_protobuf mh sha256 (encode_protobuf k)"

definition from_multihash :: "'mh multihash_ops \<Rightarrow> 'mh \<Rightarrow> peer_id_error + 'mh peer_id" where
  "from_multihash mh m = rbind (validate_multihash mh m) (\<lambda>_. Inr \<lparr> multihash = m \<rparr>)"

definition from_bytes :: "'mh multihash_ops \<Rightarrow> bytes \<Rightarrow> peer_id_error + 'mh peer_id" where
  "from_bytes mh bs = rbind (map_err InvalidMultihash (mh_from_bytes mh bs)) (from_multihash mh)"

definition to_bytes :: "'mh multihash_ops \<Rightarrow> 'mh peer_id \<Rightarrow> bytes" where
  "to_bytes mh p = mh_to_bytes mh (multihash p)"

definition digest_bytes :: "'mh multihash_ops \<Rightarrow> 'mh peer_id \<Rightarrow> bytes" where
  "digest_bytes mh p = mh_digest mh (multihash p)"

definition to_base58 :: "'mh multihash_ops \<Rightarrow> 'mh peer_id \<Rightarrow> str" where
  "to_base58 mh p = encode_base58 (to_bytes mh p)"

definition to_cid_base32 :: "'mh multihash_ops \<Rightarrow> 'mh peer_id \<Rightarrow> str" where
  "to_cid_base32 mh p =
     (let cid = write_uvarint LIBP2P_KEY_MULTICODEC (write_uvarint 1 []) @ to_bytes mh p
      in str_lit ''b'' @ encode_base32_nopad_lower cid)"

definition from_base58 :: "'mh multihash_ops \<Rightarrow> str \<Rightarrow> peer_id_error + 'mh peer_id" where
  "from_base58 mh input = rbind (map_err of_base58_error (decode_base58 input)) (from_bytes mh)"

definition cid_bytes :: "str \<Rightarrow> peer_id_error + bytes" where
  "cid_bytes input =
     (case chars input of
        [] \<Rightarrow> Inl EmptyInput
      | pfx # _ \<Rightarrow>
          let payload = drop (utf8_char_len input) input in
          if pfx = 98 \<or> pfx = 66 then map_err of_base32_error (decode_base32_nopad payload)
          else if pfx = 122 then map_err of_base58_error (decode_base58 payload)
          else Inl (UnsupportedMultibase pfx))"

definition from_cid :: "'mh multihash_ops \<Rightarrow> str \<Rightarrow> peer_id_error + 'mh peer_id" where
  "from_cid mh input =
     (if input = [] then Inl EmptyInput
      else
        rbind (cid_bytes input) (\<lambda>cid.
        rbind (map_err InvalidCidVersionVarint (read_uvarint cid)) (\<lambda>(version, version_len).
        if version \<noteq> 1 then Inl (UnsupportedCidVersion version)
        else
          rbind (ok_or (slice_from cid version_len) (InvalidCidMulticodecVarint BufferTooShort)) (\<lambda>codec_input.
          rbind (map_err InvalidCidMulticodecVarint (read_uvarint codec_input)) (\<lambda>(codec, codec_len).
          if codec \<noteq> LIBP2P_KEY_MULTICODEC then Inl (UnsupportedMulticodec codec)
          else
            rbind (ok_or (usize_checked_add version_len codec_len) (InvalidCidMulticodecVarint Overflow)) (\<lambda>offset.
            rbind (ok_or (slice_from cid offset) (InvalidCidMulticodecVarint BufferTooShort)) (\<lambda>mh_bytes.
              from_bytes mh mh_bytes)))))))"

definition peer_id_display :: "'mh multihash_ops \<Rightarrow> 'mh peer_id \<Rightarrow> str" where
  "peer_id_display mh p = to_base58 mh p"

definition starts_with :: "str \<Rightarrow> str \<Rightarrow> bool" where
  "starts_with s p \<longleftrightarrow> take (length p) s = p"

definition peer_id_from_str :: "'mh multihash_ops \<Rightarrow> str \<Rightarrow> peer_id_error + 'mh peer_id" where
  "peer_id_from_str mh s =
     (if starts_with s (str_lit ''1'') \<or> starts_with s (str_lit ''Qm'') then from_base58 mh s
      else from_cid mh s)"

section \<open>Construction\<close>

text \<open>
  The identifiers that validation lets through; a \<open>Multihash<64>\<close> holds at most 64 bytes.
\<close>

definition peer_id_ok :: "'mh multihash_ops \<Rightarrow> 'mh peer_id \<Rightarrow> bool" where
  "peer_id_ok mh p \<longleftrightarrow>
     validate_multihash mh (multihash p) = Inr () \<and> length (mh_digest mh (multihash p)) \<le> 64"

lemma multihash_lawsD:
  assumes "multihash_laws mh"
  shows "length d \<le> 64 \<Longrightarrow> \<exists>m. mh_wrap mh c d = Some m \<and> mh_code mh m = c \<and> mh_digest mh m = d"
    and "mh_to_bytes mh m =
      write_uvarint (mh_code mh m) [] @ write_uvarint (word_of_nat (length (mh_digest mh m))) [] @ mh_digest mh m"
    and "length (mh_digest mh m) \<le> 64 \<Longrightarrow> mh_from_bytes mh (mh_to_bytes mh m) = Inr m"
  using assms unfolding multihash_laws_def by blast+

lemma from_bytes_to_bytes:
  assumes "multihash_laws mh" and "peer_id_ok mh p"
  shows "from_bytes mh (to_bytes mh p) = Inr p"
  using assms multihash_lawsD(3) [OF assms(1), of "multihash p"]
  by (simp add: from_bytes_def to_bytes_def from_multihash_def peer_id_ok_def)

lemma from_public_key_protobuf_total:
  assumes "multihash_laws mh" and "\<And>bs. length (sha256 bs) = 32"
  shows "\<exists>p. from_public_key_protobuf mh sha256 bs = Inr p \<and> peer_id_ok mh p \<and>
           (if length bs \<le> 42 then mh_code mh (multihash p) = 0 \<and> mh_digest mh (multihash p) = bs
            else mh_code mh (multihash p) = 0x12 \<and> mh_digest mh (multihash p) = sha256 bs)"
proof (cases "length bs \<le> 42")
  case True
  then obtain m where "mh_wrap mh 0 bs = Some m" "mh_code mh m = 0" "mh_digest mh m = bs"
    using multihash_lawsD(1) [OF assms(1), of bs 0] by fastforce
  with True show ?thesis
    by (intro exI [of _ "\<lparr> multihash = m \<rparr>"])
       (simp add: from_public_key_protobuf_def build_multihash_def peer_id_consts peer_id_ok_def
          validate_multihash_def Let_def)
next
  case False
  then obtain m where "mh_wrap mh 0x12 (sha256 bs) = Some m" "mh_code mh m = 0x12" "mh_digest mh m = sha256 bs"
    using multihash_lawsD(1) [OF assms(1), of "sha256 bs" "0x12"] assms(2) [of bs] by auto
  with False assms(2) [of bs] show ?thesis
    by (intro exI [of _ "\<lparr> multihash = m \<rparr>"])
       (simp add: from_public_key_protobuf_def build_multihash_def peer_id_consts peer_id_ok_def
          validate_multihash_def Let_def)
qed

section \<open>The CID form\<close>

lemma from_cid_to_cid:
  assumes "multihash_laws mh" and "peer_id_ok mh p"
  shows "from_cid mh (to_cid_base32 mh p) = Inr p"
proof -
  have len: "uvarint_len 1 = 1" "uvarint_len 0x72 = 1" by (subst uvarint_len_unfold; simp)+
  define cid where "cid = write_uvarint 1 [] @ write_uvarint 0x72 [] @ to_bytes mh p"
  have cid_text: "to_cid_base32 mh p = 98 # encode_base32_nopad_lower cid"
    by (simp add: to_cid_base32_def cid_def peer_id_consts str_lit_def write_uvarint_acc [of "0x72" "write_uvarint 1 []"])
  have "cid_bytes (98 # encode_base32_nopad_lower cid) = Inr cid"
    by (simp add: cid_bytes_def utf8_char_len_def base32_round_trip)
  moreover have "read_uvarint cid = Inr (1, 1)"
    using read_uvarint_write [of 1] by (simp add: cid_def len)
  moreover have "slice_from cid 1 = Some (write_uvarint 0x72 [] @ to_bytes mh p)"
    using slice_from_append [of "write_uvarint 1 []" "write_uvarint 0x72 [] @ to_bytes mh p"]
    by (simp add: cid_def length_write_uvarint len)
  moreover have "read_uvarint (write_uvarint 0x72 [] @ to_bytes mh p) = Inr (0x72, 1)"
    using read_uvarint_write [of "0x72"] by (simp add: len)
  moreover have "slice_from cid (1 + 1) = Some (to_bytes mh p)"
    using slice_from_append [of "write_uvarint 1 [] @ write_uvarint 0x72 []" "to_bytes mh p"]
    by (simp add: cid_def length_write_uvarint len)
  moreover have "usize_checked_add 1 1 = Some (1 + 1)" by (simp add: usize_checked_add_def usize_max_def)
  ultimately show ?thesis
    unfolding cid_text by (simp add: from_cid_def peer_id_consts from_bytes_to_bytes [OF assms])
qed

section \<open>The base58 form\<close>

lemma from_base58_to_base58:
  assumes "multihash_laws mh" and "peer_id_ok mh p"
  shows "from_base58 mh (to_base58 mh p) = Inr p"
proof -
  have "to_bytes mh p \<noteq> []" by (simp add: to_bytes_def multihash_lawsD(2) [OF assms(1)])
  then show ?thesis
    by (simp add: from_base58_def to_base58_def decode_encode_base58 from_bytes_to_bytes [OF assms])
qed

text \<open>The most significant digits of a number of known length.\<close>

lemma radix_value_less: "2 \<le> d \<Longrightarrow> digits_ok d xs \<Longrightarrow> radix_value d xs < d ^ length xs"
proof (induction xs)
  case (Cons x xs)
  then have "x + d * radix_value d xs < d + d * radix_value d xs" by simp
  also have "\<dots> = d * Suc (radix_value d xs)" by simp
  also have "\<dots> \<le> d * d ^ length xs" using Cons by (intro mult_le_mono2) (simp add: Suc_leI)
  finally show ?case by simp
qed simp

lemma radix_value_ge:
  "2 \<le> d \<Longrightarrow> trimmed xs \<Longrightarrow> xs \<noteq> [] \<Longrightarrow> d ^ (length xs - 1) \<le> radix_value d xs"
proof (induction xs)
  case (Cons x xs)
  show ?case
  proof (cases "xs = []")
    case True
    with Cons.prems show ?thesis by (simp add: trimmed_def)
  next
    case False
    with Cons trimmed_tl [of x xs] have "d ^ (length xs - 1) \<le> radix_value d xs" by simp
    then have "d * d ^ (length xs - 1) \<le> d * radix_value d xs" by (rule mult_le_mono2)
    moreover have "d * d ^ (length xs - 1) = d ^ length xs" using False by (cases xs) simp_all
    ultimately have "d ^ length xs \<le> x + d * radix_value d xs" by linarith
    then show ?thesis by simp
  qed
qed simp

lemma radix_length:
  assumes "2 \<le> d" and "digits_ok d xs" and "trimmed xs" and "d ^ n \<le> radix_value d xs" and "radix_value d xs < d ^ Suc n"
  shows "length xs = Suc n"
proof (cases "xs = []")
  case True
  with assms(1,4) show ?thesis by simp
next
  case False
  have "d ^ n < d ^ length xs" using assms(4) radix_value_less [OF assms(1,2)] by linarith
  then have "n < length xs" using assms(1) by (simp add: power_strict_increasing_iff)
  moreover have "d ^ (length xs - 1) < d ^ Suc n"
    using assms(5) radix_value_ge [OF assms(1,3) False] by linarith
  then have "length xs - 1 < Suc n"
    using assms(1) power_strict_increasing_iff [of d "length xs - 1" "Suc n"] by linarith
  ultimately show ?thesis by simp
qed

lemma radix_top_two:
  assumes "2 \<le> d" and "digits_ok d xs" and "length xs = n + 2"
  shows "\<exists>a b. drop n xs = [a, b] \<and> a < d \<and> b < d \<and> radix_value d xs div d ^ n = a + d * b"
proof -
  have len: "length (take n xs) = n" using assms(3) by simp
  have "length (drop n xs) = Suc (Suc 0)" using assms(3) by simp
  then obtain a b where ab: "drop n xs = [a, b]" unfolding length_Suc_conv by auto
  have ok: "digits_ok d (take n xs)" "a < d" "b < d"
    using assms(2) ab by (metis append_take_drop_id digits_ok_simps(2,3))+
  have "radix_value d xs = radix_value d (take n xs @ drop n xs)" by simp
  then have "radix_value d xs = radix_value d (take n xs) + d ^ n * (a + d * b)"
    unfolding radix_value_append len ab by simp
  moreover have "radix_value d (take n xs) < d ^ n" using radix_value_less [OF assms(1) ok(1)] len by simp
  ultimately have "radix_value d xs div d ^ n = a + d * b" by (intro div_nat_eqI) simp_all
  with ab ok show ?thesis by blast
qed

text \<open>
  Every sha2-256 multihash prints with the prefix \<open>Qm\<close>: its 34 bytes start with 12 20, so
  the number lies between \<open>1378 * 58 ^ 44\<close> and \<open>1379 * 58 ^ 44\<close>.
\<close>

lemma base58_sha256_prefix:
  assumes "length d = 32"
  shows "starts_with (encode_base58 ([0x12, 0x20] @ d)) (str_lit ''Qm'')"
proof -
  let ?bs = "[0x12, 0x20] @ d"
  define D where "D = foldl encode_byte58 [] ?bs"
  have led: "led (map unat ?bs)" by (simp add: led_def)
  have enc: "encode_base58 ?bs = alpha (rev D)"
    using encode_base58_split [OF led, of 0] by (simp add: D_def)
  have D: "digits_ok 58 D" "trimmed D" "radix_value 58 D = be_value 256 (map unat ?bs)"
    using encode_digits [OF led] by (simp_all only: D_def)
  have "be_value 256 (map unat ?bs) = 4640 * 256 ^ 32 + be_value 256 (map unat d)"
    using assms by (simp add: be_value_append be_value_cons)
  moreover have "be_value 256 (map unat d) < 256 ^ 32"
    using radix_value_less [of 256 "rev (map unat d)"] assms by (simp add: be_value_def)
  ultimately have V: "4640 * 256 ^ 32 \<le> radix_value 58 D" "radix_value 58 D < 4641 * 256 ^ 32"
    unfolding D(3) by linarith+
  have lo: "58 ^ 44 * 1378 \<le> (4640 * 256 ^ 32 :: nat)" and hi: "4641 * 256 ^ 32 \<le> (58 ^ 44 * Suc 1378 :: nat)"
    and len: "58 ^ 45 \<le> (58 ^ 44 * 1378 :: nat)" "58 ^ 44 * Suc 1378 \<le> (58 ^ Suc 45 :: nat)"
    by simp_all
  have "length D = Suc 45"
    using D(1,2) order_trans [OF len(1) order_trans [OF lo V(1)]]
      order.strict_trans2 [OF V(2) order_trans [OF hi len(2)]]
    by (intro radix_length [of 58]) simp_all
  then have "length D = 44 + 2" by simp
  from radix_top_two [OF _ D(1) this] obtain a b where
    ab: "drop 44 D = [a, b]" "a < 58" "b < 58" "radix_value 58 D div 58 ^ 44 = a + 58 * b" by auto
  have "radix_value 58 D div 58 ^ 44 = 1378"
    using order_trans [OF lo V(1)] order.strict_trans2 [OF V(2) hi] by (rule div_nat_eqI)
  with ab(4) have "a + 58 * b = 1378" by simp
  with ab(2,3) have "a = 44" "b = 23" by presburger+
  then have "drop 44 D = [44, 23]" using ab(1) by simp
  then have "D = take 44 D @ [44, 23]" using append_take_drop_id [of 44 D] by simp
  then have rev_D: "rev D = 23 # 44 # rev (take 44 D)" using arg_cong [of D _ rev] by fastforce
  have "BASE58_ALPHABET ! 23 = 81" "BASE58_ALPHABET ! 44 = 109"
    by (simp_all add: BASE58_ALPHABET_def str_lit_def)
  then show ?thesis
    unfolding enc rev_D by (simp add: starts_with_def alpha_def str_lit_def)
qed

text \<open>Printed identifiers of the two kinds that keys give start as the parser expects.\<close>

lemma peer_id_display_prefix:
  assumes "multihash_laws mh" and "peer_id_ok mh p" and "mh_code mh (multihash p) = 0 \<or> mh_code mh (multihash p) = 0x12"
  shows "starts_with (to_base58 mh p) (str_lit ''1'') \<or> starts_with (to_base58 mh p) (str_lit ''Qm'')"
  using assms(3)
proof
  assume "mh_code mh (multihash p) = 0"
  then have "to_bytes mh p = 0 # tl (to_bytes mh p)"
    by (simp add: to_bytes_def multihash_lawsD(2) [OF assms(1)] write_uvarint_nil)
  then obtain bs where bs: "to_bytes mh p = 0 # bs" by blast
  then have "hd (to_base58 mh p) = 49" "to_base58 mh p \<noteq> []"
    by (simp_all add: to_base58_def encode_base58_def Let_def)
  then show ?thesis by (cases "to_base58 mh p") (simp_all add: starts_with_def str_lit_def)
next
  assume code: "mh_code mh (multihash p) = 0x12"
  with assms(2) have len: "length (mh_digest mh (multihash p)) = 32"
    by (simp add: peer_id_ok_def validate_multihash_def peer_id_consts Let_def split: if_splits)
  then have "to_bytes mh p = [0x12, 0x20] @ mh_digest mh (multihash p)"
    by (simp add: to_bytes_def multihash_lawsD(2) [OF assms(1)] code write_uvarint_nil)
  with base58_sha256_prefix [OF len] show ?thesis by (simp add: to_base58_def)
qed

lemma from_str_display:
  assumes "multihash_laws mh" and "peer_id_ok mh p" and "mh_code mh (multihash p) = 0 \<or> mh_code mh (multihash p) = 0x12"
  shows "peer_id_from_str mh (peer_id_display mh p) = Inr p"
  using peer_id_display_prefix [OF assms] from_base58_to_base58 [OF assms(1,2)]
  by (auto simp: peer_id_from_str_def peer_id_display_def)

lemma from_str_cid:
  assumes "multihash_laws mh" and "peer_id_ok mh p"
  shows "peer_id_from_str mh (to_cid_base32 mh p) = Inr p"
proof -
  have "\<exists>t. to_cid_base32 mh p = 98 # t" by (simp add: to_cid_base32_def str_lit_def Let_def)
  then have "\<not> starts_with (to_cid_base32 mh p) (str_lit ''1'')" "\<not> starts_with (to_cid_base32 mh p) (str_lit ''Qm'')"
    by (auto simp: starts_with_def str_lit_def)
  with from_cid_to_cid [OF assms] show ?thesis by (simp add: peer_id_from_str_def)
qed

section \<open>Properties\<close>

text \<open>
  C21. Deriving the peer identifier of a public key never panics, and the identifier
  survives every text form: parsing what \<open>Display\<close> prints gives it back, and so does
  parsing its CID; keys whose encoding has at most 42 bytes are recovered from the
  identifier itself.
\<close>

theorem peer_id_text_round_trip:
  assumes "multihash_laws mh" and "\<And>bs. length (sha256 bs) = 32"
  shows "\<exists>p. from_public_key mh sha256 k = Inr p \<and>
           peer_id_from_str mh (peer_id_display mh p) = Inr p \<and>
           peer_id_from_str mh (to_cid_base32 mh p) = Inr p \<and>
           from_bytes mh (to_bytes mh p) = Inr p \<and>
           (length (encode_protobuf k) \<le> 42 \<longrightarrow> decode_protobuf (digest_bytes mh p) = Inr k)"
proof -
  obtain p where p: "from_public_key mh sha256 k = Inr p" "peer_id_ok mh p"
    "if length (encode_protobuf k) \<le> 42
     then mh_code mh (multihash p) = 0 \<and> mh_digest mh (multihash p) = encode_protobuf k
     else mh_code mh (multihash p) = 0x12 \<and> mh_digest mh (multihash p) = sha256 (encode_protobuf k)"
    using from_public_key_protobuf_total [OF assms(1), of sha256, OF assms(2)] unfolding from_public_key_def by blast
  then have "mh_code mh (multihash p) = 0 \<or> mh_code mh (multihash p) = 0x12" by (auto split: if_splits)
  note texts = from_str_display [OF assms(1) p(2) this] from_str_cid [OF assms(1) p(2)]
    from_bytes_to_bytes [OF assms(1) p(2)]
  have "decode_protobuf (digest_bytes mh p) = Inr k" if "length (encode_protobuf k) \<le> 42"
    using that p(3) by (simp add: digest_bytes_def decode_encode_protobuf pk_fits_def usize_max_def)
  with p(1) texts show ?thesis by blast
qed

text \<open>An implementation of the multihash operations that satisfies the laws.\<close>

definition plain_multihash :: "(u64 \<times> bytes) multihash_ops" where
  "plain_multihash =
     \<lparr> mh_wrap = (\<lambda>c d. if length d \<le> 64 then Some (c, d) else None),
       mh_code = fst, mh_digest = snd,
       mh_to_bytes = (\<lambda>(c, d). write_uvarint c [] @ write_uvarint (word_of_nat (length d)) [] @ d),
       mh_from_bytes = (\<lambda>bs.
         case read_uvarint_with_remainder bs of
           Inl e \<Rightarrow> Inl []
         | Inr (c, r) \<Rightarrow>
             (case read_uvarint_with_remainder r of
                Inl e \<Rightarrow> Inl []
              | Inr (n, d) \<Rightarrow> if unat n = length d then Inr (c, d) else Inl [])) \<rparr>"

lemma plain_multihash_laws: "multihash_laws plain_multihash"
proof -
  have "unat (word_of_nat (length d) :: u64) = length d" if "length d \<le> 64" for d :: bytes
    using that by (intro unat_word_of_nat) simp
  then show ?thesis
    by (simp add: multihash_laws_def plain_multihash_def read_write_uvarint)
qed

theorem peer_id_text_round_trip_witness:
  "\<exists>p. from_public_key plain_multihash (\<lambda>_. replicate 32 0) \<lparr> pk_type = Ed25519, pk_data = [1, 2] \<rparr> = Inr p \<and>
       peer_id_from_str plain_multihash (peer_id_display plain_multihash p) = Inr p"
  using peer_id_text_round_trip [OF plain_multihash_laws,
      of "\<lambda>_. replicate 32 0" "\<lparr> pk_type = Ed25519, pk_data = [1, 2] \<rparr>"]
  by auto

text \<open>
  Validation also lets through multihashes of other codes, and these do not survive: the
  identifier with code 1 and an empty digest prints as \<open>5R\<close>, which the parser takes for a
  CID in an unknown base.
\<close>

lemma other_codes_do_not_round_trip:
  "peer_id_ok plain_multihash \<lparr> multihash = (1, []) \<rparr>"
  "peer_id_from_str plain_multihash (peer_id_display plain_multihash \<lparr> multihash = (1, []) \<rparr>) =
     Inl (UnsupportedMultibase 53)"
proof -
  show "peer_id_ok plain_multihash \<lparr> multihash = (1, []) \<rparr>"
    by (simp add: peer_id_ok_def plain_multihash_def validate_multihash_def peer_id_consts)
  have "to_bytes plain_multihash \<lparr> multihash = (1, []) \<rparr> = [1, 0]"
    by (simp add: to_bytes_def plain_multihash_def write_uvarint_nil)
  moreover have "BASE58_ALPHABET ! 4 = 53" "BASE58_ALPHABET ! 24 = 82"
    by (simp_all add: BASE58_ALPHABET_def str_lit_def)
  ultimately have "peer_id_display plain_multihash \<lparr> multihash = (1, []) \<rparr> = [53, 82]"
    by (simp add: peer_id_display_def to_base58_def encode_base58_def encode_byte58_def push_carry.simps)
  then show "peer_id_from_str plain_multihash (peer_id_display plain_multihash \<lparr> multihash = (1, []) \<rparr>) =
      Inl (UnsupportedMultibase 53)"
    by (simp add: peer_id_from_str_def starts_with_def str_lit_def from_cid_def cid_bytes_def)
qed

end
