(* ===== verification/Multiaddr.thy ===== *)
theory Multiaddr
  imports Peer_Id
begin

text \<open>
  Multiaddresses and their binary form, \<open>crates/core/src/protocol.rs\<close> and the binary and
  structural half of \<open>crates/core/src/multiaddr.rs\<close>. The struct \<open>Multiaddr\<close> is its list of
  components. A fixed-size array is a byte list whose length \<open>protocol_wf\<close> records. The
  text of a \<open>reason\<close> in an error is kept as its cause.
\<close>

section \<open>Components\<close>

definition IP4_CODE :: u64 where "IP4_CODE = 0x04"
definition IP6_CODE :: u64 where "IP6_CODE = 0x29"
definition DNS_CODE :: u64 where "DNS_CODE = 0x35"
definition DNS4_CODE :: u64 where "DNS4_CODE = 0x36"
definition DNS6_CODE :: u64 where "DNS6_CODE = 0x37"
definition TCP_CODE :: u64 where "TCP_CODE = 0x06"
definition UDP_CODE :: u64 where "UDP_CODE = 0x0111"
definition QUIC_V1_CODE :: u64 where "QUIC_V1_CODE = 0x01cd"
definition P2P_CODE :: u64 where "P2P_CODE = 0x01a5"
definition P2P_CIRCUIT_CODE :: u64 where "P2P_CIRCUIT_CODE = 0x0122"

lemmas multicodec_codes =
  IP4_CODE_def IP6_CODE_def DNS_CODE_def DNS4_CODE_def DNS6_CODE_def TCP_CODE_def UDP_CODE_def
  QUIC_V1_CODE_def P2P_CODE_def P2P_CIRCUIT_CODE_def

datatype 'mh protocol =
    Ip4 bytes
  | Ip6 bytes
  | Dns str
  | Dns4 str
  | Dns6 str
  | Tcp u16
  | Udp u16
  | QuicV1
  | P2p "'mh peer_id"
  | P2pCircuit

type_synonym 'mh multiaddr = "'mh protocol list"

datatype invalid_binary_reason = BadUtf8 | BadDnsName | BadPeerId peer_id_error

datatype multiaddr_error =
    AddrEmptyInput
  | MissingLeadingSlash
  | AddrEmptyProtocol
  | MissingValue str
  | UnknownProtocol str
  | InvalidIp4 str
  | InvalidIp6 str
  | InvalidPort str
  | InvalidDnsName str
  | InvalidPeerId str peer_id_error
  | UnknownProtocolCode u64
  | TruncatedBinaryValue str
  | InvalidBinaryValue str invalid_binary_reason
  | AddrVarint varint_error

fun is_host :: "'mh protocol \<Rightarrow> bool" where
  "is_host (Ip4 _) = True"
| "is_host (Ip6 _) = True"
| "is_host (Dns _) = True"
| "is_host (Dns4 _) = True"
| "is_host (Dns6 _) = True"
| "is_host _ = False"

fun code :: "'mh protocol \<Rightarrow> u64" where
  "code (Ip4 _) = IP4_CODE"
| "code (Ip6 _) = IP6_CODE"
| "code (Dns _) = DNS_CODE"
| "code (Dns4 _) = DNS4_CODE"
| "code (Dns6 _) = DNS6_CODE"
| "code (Tcp _) = TCP_CODE"
| "code (Udp _) = UDP_CODE"
| "code QuicV1 = QUIC_V1_CODE"
| "code (P2p _) = P2P_CODE"
| "code P2pCircuit = P2P_CIRCUIT_CODE"

definition write_prefixed :: "bytes \<Rightarrow> bytes \<Rightarrow> bytes" where
  "write_prefixed body out = write_uvarint (word_of_nat (length body)) out @ body"

definition write_binary :: "'mh multihash_ops \<Rightarrow> 'mh protocol \<Rightarrow> bytes \<Rightarrow> bytes" where
  "write_binary mh p out =
     (let out = write_uvarint (code p) out in
      case p of
        Ip4 bs \<Rightarrow> out @ bs
      | Ip6 bs \<Rightarrow> out @ bs
      | Dns name \<Rightarrow> write_prefixed name out
      | Dns4 name \<Rightarrow> write_prefixed name out
      | Dns6 name \<Rightarrow> write_prefixed name out
      | Tcp port \<Rightarrow> out @ u16_to_be port
      | Udp port \<Rightarrow> out @ u16_to_be port
      | QuicV1 \<Rightarrow> out
      | P2pCircuit \<Rightarrow> out
      | P2p peer_id \<Rightarrow> write_prefixed (to_bytes mh peer_id) out)"

text \<open>\<open>char::is_whitespace\<close> and \<open>char::is_control\<close> of the standard library.\<close>

definition is_whitespace :: "nat \<Rightarrow> bool" where
  "is_whitespace c \<longleftrightarrow>
     (9 \<le> c \<and> c \<le> 13) \<or> c = 0x20 \<or> c = 0x85 \<or> c = 0xA0 \<or> c = 0x1680 \<or>
     (0x2000 \<le> c \<and> c \<le> 0x200A) \<or> c = 0x2028 \<or> c = 0x2029 \<or> c = 0x202F \<or> c = 0x205F \<or> c = 0x3000"

definition is_control :: "nat \<Rightarrow> bool" where
  "is_control c \<longleftrightarrow> c \<le> 0x1F \<or> (0x7F \<le> c \<and> c \<le> 0x9F)"

definition is_valid_dns :: "str \<Rightarrow> bool" where
  "is_valid_dns value \<longleftrightarrow>
     value \<noteq> [] \<and> 47 \<notin> set value \<and> (\<forall>ch \<in> set (chars value). \<not> (is_whitespace ch \<or> is_control ch))"

definition fixed :: "nat \<Rightarrow> bytes \<Rightarrow> string \<Rightarrow> multiaddr_error + bytes \<times> bytes" where
  "fixed n bs protocol =
     (if n \<le> length bs then Inr (take n bs, drop n bs)
      else Inl (TruncatedBinaryValue (str_lit protocol)))"

definition length_prefixed :: "bytes \<Rightarrow> string \<Rightarrow> multiaddr_error + bytes \<times> bytes" where
  "length_prefixed bs protocol =
     rbind (map_err AddrVarint (read_uvarint_with_remainder bs)) (\<lambda>(len, rest).
       if length rest < unat len then Inl (TruncatedBinaryValue (str_lit protocol))
       else Inr (take (unat len) rest, drop (unat len) rest))"

definition read_dns :: "(str \<Rightarrow> 'mh protocol) \<Rightarrow> string \<Rightarrow> bytes \<Rightarrow> multiaddr_error + 'mh protocol \<times> bytes" where
  "read_dns mk label rest =
     rbind (length_prefixed rest label) (\<lambda>(body, rest).
       if \<not> utf8_valid body then Inl (InvalidBinaryValue (str_lit label) BadUtf8)
       else if \<not> is_valid_dns body then Inl (InvalidBinaryValue (str_lit label) BadDnsName)
       else Inr (mk body, rest))"

definition read_binary ::
  "'mh multihash_ops \<Rightarrow> bytes \<Rightarrow> multiaddr_error + 'mh protocol \<times> bytes"
where
  "read_binary mh bs =
     rbind (map_err AddrVarint (read_uvarint_with_remainder bs)) (\<lambda>(code, rest).
       if code = IP4_CODE then rbind (fixed 4 rest ''ip4'') (\<lambda>(value, rest). Inr (Ip4 value, rest))
       else if code = IP6_CODE then rbind (fixed 16 rest ''ip6'') (\<lambda>(value, rest). Inr (Ip6 value, rest))
       else if code = TCP_CODE then
         rbind (fixed 2 rest ''tcp'') (\<lambda>(value, rest). Inr (Tcp (u16_of_be (value ! 0) (value ! 1)), rest))
       else if code = UDP_CODE then
         rbind (fixed 2 rest ''udp'') (\<lambda>(value, rest). Inr (Udp (u16_of_be (value ! 0) (value ! 1)), rest))
       else if code = QUIC_V1_CODE then Inr (QuicV1, rest)
       else if code = P2P_CIRCUIT_CODE then Inr (P2pCircuit, rest)
       else if code = DNS_CODE then read_dns Dns ''dns'' rest
       else if code = DNS4_CODE then read_dns Dns4 ''dns4'' rest
       else if code = DNS6_CODE then read_dns Dns6 ''dns6'' rest
       else if code = P2P_CODE then
         rbind (length_prefixed rest ''p2p'') (\<lambda>(body, rest).
         rbind (map_err (\<lambda>e. InvalidBinaryValue (str_lit ''p2p'') (BadPeerId e)) (from_bytes mh body)) (\<lambda>peer_id.
           Inr (P2p peer_id, rest)))
       else Inl (UnknownProtocolCode code))"

section \<open>Addresses\<close>

fun addr_peer_id :: "'mh multiaddr \<Rightarrow> 'mh peer_id option" where
  "addr_peer_id [] = None"
| "addr_peer_id (P2p p # _) = Some p"
| "addr_peer_id (_ # ps) = addr_peer_id ps"

definition encapsulate :: "'mh multiaddr \<Rightarrow> 'mh multiaddr \<Rightarrow> 'mh multiaddr" where
  "encapsulate self other = self @ other"

text \<open>The descending search of \<open>decapsulate\<close>: indices \<open>n\<close> down to \<open>0\<close>.\<close>

fun decapsulate_from :: "'mh multiaddr \<Rightarrow> 'mh multiaddr \<Rightarrow> nat \<Rightarrow> 'mh multiaddr option" where
  "decapsulate_from self sfx idx =
     (if slice_get self idx (idx + length sfx) = Some sfx then Some (take idx self)
      else case idx of 0 \<Rightarrow> None | Suc idx' \<Rightarrow> decapsulate_from self sfx idx')"

declare decapsulate_from.simps [simp del]

definition decapsulate :: "'mh multiaddr \<Rightarrow> 'mh multiaddr \<Rightarrow> 'mh multiaddr option" where
  "decapsulate self sfx =
     (if sfx = [] then Some self
      else if length self < length sfx then None
      else decapsulate_from self sfx (length self - length sfx))"

datatype transport_kind = TransportTcp | TransportQuic

fun is_quic_transport_slice :: "'mh protocol list \<Rightarrow> bool" where
  "is_quic_transport_slice [host, Udp _, QuicV1] = is_host host"
| "is_quic_transport_slice _ = False"

fun is_tcp_transport_slice :: "'mh protocol list \<Rightarrow> bool" where
  "is_tcp_transport_slice [host, Tcp _] = is_host host"
| "is_tcp_transport_slice _ = False"

definition transport_kind_of :: "'mh protocol list \<Rightarrow> transport_kind option" where
  "transport_kind_of ps =
     (if is_tcp_transport_slice ps then Some TransportTcp
      else if is_quic_transport_slice ps then Some TransportQuic
      else None)"

fun is_wildcard_host :: "'mh multiaddr \<Rightarrow> bool" where
  "is_wildcard_host (Ip4 bs # _) \<longleftrightarrow> bs = replicate 4 0"
| "is_wildcard_host (Ip6 bs # _) \<longleftrightarrow> bs = replicate 16 0"
| "is_wildcard_host _ \<longleftrightarrow> False"

definition is_relay_circuit_transport :: "'mh multiaddr \<Rightarrow> bool" where
  "is_relay_circuit_transport ps =
     (case rev ps of
        P2pCircuit # P2p _ # leg \<Rightarrow> transport_kind_of (rev leg) \<noteq> None
      | _ \<Rightarrow> False)"

definition multiaddr_to_bytes :: "'mh multihash_ops \<Rightarrow> 'mh multiaddr \<Rightarrow> bytes" where
  "multiaddr_to_bytes mh ps = foldl (\<lambda>out p. write_binary mh p out) [] ps"

lemma read_uvarint_shorter:
  "read_uvarint_with_remainder bs = Inr (v, rest) \<Longrightarrow> length rest < length bs"
  by (auto simp: read_uvarint_with_remainder_iff length_write_uvarint)
     (metis less_add_same_cancel2 length_greater_0_conv length_write_uvarint write_uvarint_not_nil)

lemma read_binary_shorter: "read_binary mh bs = Inr (p, rest) \<Longrightarrow> length rest < length bs"
  by (auto simp: read_binary_def fixed_def length_prefixed_def read_dns_def result_simps
      split: if_splits prod.splits dest!: read_uvarint_shorter)

function multiaddr_from_bytes ::
  "'mh multihash_ops \<Rightarrow> bytes \<Rightarrow> 'mh protocol list \<Rightarrow> multiaddr_error + 'mh multiaddr"
where
  "multiaddr_from_bytes mh remaining protocols =
     (if remaining = [] then Inr protocols
      else case read_binary mh remaining of
        Inl e \<Rightarrow> Inl e
      | Inr (p, rest) \<Rightarrow> multiaddr_from_bytes mh rest (protocols @ [p]))"
  by pat_completeness auto
termination
  by (relation "measure (\<lambda>(mh, remaining, protocols). length remaining)")
     (auto dest: read_binary_shorter)

declare multiaddr_from_bytes.simps [simp del]

section \<open>The binary form\<close>

definition dns_wf :: "str \<Rightarrow> bool" where
  "dns_wf name \<longleftrightarrow> utf8_valid name \<and> is_valid_dns name \<and> length name \<le> usize_max"

fun protocol_wf :: "'mh multihash_ops \<Rightarrow> 'mh protocol \<Rightarrow> bool" where
  "protocol_wf mh (Ip4 bs) \<longleftrightarrow> length bs = 4"
| "protocol_wf mh (Ip6 bs) \<longleftrightarrow> length bs = 16"
| "protocol_wf mh (Dns name) \<longleftrightarrow> dns_wf name"
| "protocol_wf mh (Dns4 name) \<longleftrightarrow> dns_wf name"
| "protocol_wf mh (Dns6 name) \<longleftrightarrow> dns_wf name"
| "protocol_wf mh (P2p p) \<longleftrightarrow> peer_id_ok mh p"
| "protocol_wf mh _ \<longleftrightarrow> True"

lemma write_prefixed_acc: "write_prefixed body out = out @ write_prefixed body []"
  unfolding write_prefixed_def by (subst write_uvarint_acc) simp

lemma write_binary_acc: "write_binary mh p out = out @ write_binary mh p []"
  by (cases p)
     (simp_all add: write_binary_def Let_def write_uvarint_acc [of _ out]
       write_prefixed_acc [of _ "write_uvarint _ _"] write_prefixed_acc [of _ "_ @ _"])

lemma length_prefixed_write:
  assumes "length body \<le> usize_max"
  shows "length_prefixed (write_prefixed body [] @ rest) label = Inr (body, rest)"
proof -
  have "unat (word_of_nat (length body) :: u64) = length body"
    using assms by (intro unat_word_of_nat) (simp add: usize_max_def)
  then show ?thesis
    by (simp add: length_prefixed_def write_prefixed_def read_write_uvarint)
qed

lemma read_dns_write:
  "dns_wf name \<Longrightarrow> read_dns mk label (write_prefixed name [] @ rest) = Inr (mk name, rest)"
  by (simp add: read_dns_def length_prefixed_write dns_wf_def)

lemma fixed_append: "length bs = n \<Longrightarrow> fixed n (bs @ rest) label = Inr (bs, rest)"
  by (auto simp: fixed_def)

lemma fixed_two: "fixed 2 (a # b # rest) label = Inr ([a, b], rest)"
  by (simp add: fixed_def)

lemma to_bytes_length:
  assumes "multihash_laws mh" and "peer_id_ok mh p"
  shows "length (to_bytes mh p) \<le> usize_max"
  using assms(2) uvarint_len_le_10 [of "mh_code mh (multihash p)"]
    uvarint_len_le_10 [of "word_of_nat (length (mh_digest mh (multihash p)))"]
  by (simp add: to_bytes_def multihash_lawsD(2) [OF assms(1)] peer_id_ok_def length_write_uvarint usize_max_def)

lemma read_write_binary:
  assumes "multihash_laws mh" and "protocol_wf mh p"
  shows "read_binary mh (write_binary mh p [] @ rest) = Inr (p, rest)"
proof (cases p)
  case (P2p q)
  with assms have "peer_id_ok mh q" by simp
  then show ?thesis
    using to_bytes_length [OF assms(1)] from_bytes_to_bytes [OF assms(1)]
    by (simp add: P2p read_binary_def write_binary_def Let_def write_prefixed_acc [of _ "write_uvarint _ _"]
        read_write_uvarint length_prefixed_write multicodec_codes)
qed (use assms in \<open>simp_all add: read_binary_def write_binary_def Let_def write_prefixed_acc [of _ "write_uvarint _ _"]
        read_write_uvarint multicodec_codes fixed_append fixed_two read_dns_write u16_to_be_def\<close>)

lemma multiaddr_to_bytes_cons:
  "multiaddr_to_bytes mh (p # ps) = write_binary mh p [] @ multiaddr_to_bytes mh ps"
proof -
  have acc: "foldl (\<lambda>out p. write_binary mh p out) out ps = out @ foldl (\<lambda>out p. write_binary mh p out) [] ps" for out
  proof (induction ps arbitrary: out)
    case (Cons q ps)
    show ?case
      using Cons [of "write_binary mh q out"] Cons [of "write_binary mh q []"] write_binary_acc [of mh q out] by simp
  qed simp
  show ?thesis by (simp add: multiaddr_to_bytes_def acc [of "write_binary mh p []"])
qed

lemma write_binary_not_nil: "write_binary mh p [] \<noteq> []"
  by (cases p) (simp_all add: write_binary_def Let_def write_prefixed_def write_uvarint_acc [of _ "write_uvarint _ _"])

lemma from_to_bytes_acc:
  assumes "multihash_laws mh" and "\<forall>p \<in> set ps. protocol_wf mh p"
  shows "multiaddr_from_bytes mh (multiaddr_to_bytes mh ps) acc = Inr (acc @ ps)"
  using assms(2)
proof (induction ps arbitrary: acc)
  case Nil
  show ?case by (subst multiaddr_from_bytes.simps) (simp add: multiaddr_to_bytes_def)
next
  case (Cons p ps)
  have "multiaddr_to_bytes mh (p # ps) \<noteq> []"
    by (simp add: multiaddr_to_bytes_cons write_binary_not_nil)
  with Cons show ?case
    by (subst multiaddr_from_bytes.simps)
       (simp add: multiaddr_to_bytes_cons read_write_binary [OF assms(1)])
qed

section \<open>Structure\<close>

lemma decapsulate_from_SomeD:
  "decapsulate_from s x n = Some r \<Longrightarrow>
     \<exists>i \<le> n. slice_get s i (i + length x) = Some x \<and> r = take i s \<and>
       (\<forall>j. i < j \<and> j \<le> n \<longrightarrow> slice_get s j (j + length x) \<noteq> Some x)"
proof (induction n)
  case 0
  then show ?case by (subst (asm) decapsulate_from.simps) (auto split: if_splits)
next
  case (Suc n)
  show ?case
  proof (cases "slice_get s (Suc n) (Suc n + length x) = Some x")
    case True
    with Suc.prems show ?thesis
      by (subst (asm) decapsulate_from.simps) (auto intro: exI [of _ "Suc n"])
  next
    case False
    with Suc.prems have "decapsulate_from s x n = Some r" by (subst (asm) decapsulate_from.simps) auto
    with Suc.IH False show ?thesis by (metis le_Suc_eq)
  qed
qed

lemma decapsulate_encapsulate: "x \<noteq> [] \<Longrightarrow> decapsulate (encapsulate a x) x = Some a"
  by (simp add: decapsulate_def encapsulate_def decapsulate_from.simps [of _ _ "length a"] slice_get_def)

lemma decapsulate_prefix:
  assumes "decapsulate s x = Some r"
  shows "\<exists>tail. s = r @ x @ tail"
proof (cases "x = []")
  case True
  with assms show ?thesis by (simp add: decapsulate_def)
next
  case False
  with assms obtain i where "slice_get s i (i + length x) = Some x" "r = take i s"
    by (auto simp: decapsulate_def split: if_splits dest: decapsulate_from_SomeD)
  then have "r @ x @ drop (i + length x) s = s"
    by (auto simp: slice_get_def split: if_splits)
       (metis add.commute append_take_drop_id drop_drop)
  then show ?thesis by metis
qed

section \<open>Properties\<close>

text \<open>
  C24. Every address whose components are well formed survives the wire: decoding its
  binary form gives back the same components in the same order. So two such addresses
  with the same bytes are the same address.
\<close>

theorem multiaddr_binary_round_trip:
  assumes "multihash_laws mh" and "\<forall>p \<in> set ps. protocol_wf mh p"
  shows "multiaddr_from_bytes mh (multiaddr_to_bytes mh ps) [] = Inr ps"
  using from_to_bytes_acc [OF assms, of "[]"] by simp

theorem multiaddr_binary_round_trip_witness:
  "multiaddr_from_bytes plain_multihash
     (multiaddr_to_bytes plain_multihash [Ip4 [127, 0, 0, 1], Udp 4001, QuicV1, P2p \<lparr> multihash = (0, [1]) \<rparr>]) [] =
   Inr [Ip4 [127, 0, 0, 1], Udp 4001, QuicV1, P2p \<lparr> multihash = (0, [1]) \<rparr>]"
proof -
  have "peer_id_ok plain_multihash \<lparr> multihash = (0, [1]) \<rparr>"
    by (simp add: peer_id_ok_def validate_multihash_def plain_multihash_def peer_id_consts)
  then show ?thesis
    by (intro multiaddr_binary_round_trip plain_multihash_laws) simp
qed

text \<open>
  Taking off what was put on gives the original address back, and whenever
  \<open>decapsulate\<close> succeeds its result is a prefix of the address followed by the removed part.
\<close>

theorem decapsulate_correct:
  assumes "x \<noteq> []"
  shows "decapsulate (encapsulate a x) x = Some a \<and>
         (\<forall>s r. decapsulate s x = Some r \<longrightarrow> (\<exists>tail. s = encapsulate r (encapsulate x tail)))"
  using decapsulate_encapsulate [OF assms] decapsulate_prefix by (auto simp: encapsulate_def)

theorem decapsulate_correct_witness:
  "decapsulate (encapsulate [Ip4 [10, 0, 0, 1], Tcp 80] [QuicV1]) [QuicV1] =
     Some ([Ip4 [10, 0, 0, 1], Tcp 80] :: nat multiaddr)"
  using decapsulate_correct [of "[QuicV1]" "[Ip4 [10, 0, 0, 1], Tcp 80] :: nat multiaddr"] by simp

end
