(* ===== verification/Peer_Addr.thy ===== *)
theory Peer_Addr
  imports Multiaddr
begin

text \<open>
  Peer addresses, \<open>crates/core/src/peer_addr.rs\<close>, and the selection of direct dial
  candidates, \<open>crates/core/src/candidates.rs\<close>.
\<close>

section \<open>Model\<close>

record 'mh peer_addr =
  transport :: "'mh multiaddr"
  addr_peer :: "'mh peer_id"

datatype peer_addr_error =
    PeerAddrMultiaddr multiaddr_error
  | MissingPeerId
  | NonTerminalPeerId
  | TransportContainsPeerId
  | EmptyTransport

fun is_p2p :: "'mh protocol \<Rightarrow> bool" where
  "is_p2p (P2p _) = True"
| "is_p2p _ = False"

definition peer_addr_new :: "'mh multiaddr \<Rightarrow> 'mh peer_id \<Rightarrow> peer_addr_error + 'mh peer_addr" where
  "peer_addr_new t p =
     (if list_ex is_p2p t then Inl TransportContainsPeerId
      else if t = [] then Inl EmptyTransport
      else Inr \<lparr> transport = t, addr_peer = p \<rparr>)"

datatype ip_addr = V4 bytes | V6 bytes

fun ip_host :: "ip_addr \<Rightarrow> 'mh protocol" where
  "ip_host (V4 octets) = Ip4 octets"
| "ip_host (V6 octets) = Ip6 octets"

definition peer_addr_quic_v1 :: "ip_addr \<Rightarrow> u16 \<Rightarrow> 'mh peer_id \<Rightarrow> 'mh peer_addr" where
  "peer_addr_quic_v1 ip udp_port p =
     \<lparr> transport = [ip_host ip, Udp udp_port, QuicV1], addr_peer = p \<rparr>"

definition peer_addr_tcp :: "ip_addr \<Rightarrow> u16 \<Rightarrow> 'mh peer_id \<Rightarrow> 'mh peer_addr" where
  "peer_addr_tcp ip tcp_port p = \<lparr> transport = [ip_host ip, Tcp tcp_port], addr_peer = p \<rparr>"

definition rposition :: "('a \<Rightarrow> bool) \<Rightarrow> 'a list \<Rightarrow> nat option" where
  "rposition P xs = map_option (\<lambda>i. length xs - 1 - i) (position P (rev xs))"

definition from_multiaddr :: "'mh multiaddr \<Rightarrow> peer_addr_error + 'mh peer_addr" where
  "from_multiaddr ps =
     (case rposition is_p2p ps of
        None \<Rightarrow> Inl MissingPeerId
      | Some last_idx \<Rightarrow>
          (case rev ps of
             P2p p # rev_transport \<Rightarrow>
               (case position is_p2p ps of
                  None \<Rightarrow> Inl MissingPeerId
                | Some first_idx \<Rightarrow>
                    if first_idx \<noteq> last_idx then Inl NonTerminalPeerId
                    else if rev_transport = [] then Inl EmptyTransport
                    else Inr \<lparr> transport = rev rev_transport, addr_peer = p \<rparr>)
           | _ \<Rightarrow> Inl NonTerminalPeerId))"

definition to_multiaddr :: "'mh peer_addr \<Rightarrow> 'mh multiaddr" where
  "to_multiaddr a = transport a @ [P2p (addr_peer a)]"

definition push_candidate :: "'mh multiaddr list \<Rightarrow> 'mh multiaddr \<Rightarrow> 'mh multiaddr list" where
  "push_candidate accepted addr =
     (if is_wildcard_host addr then accepted
      else if transport_kind_of addr = None then accepted
      else if addr \<in> set accepted then accepted
      else accepted @ [addr])"

definition select_direct_addrs ::
  "'mh multiaddr list \<Rightarrow> 'mh multiaddr option \<Rightarrow> 'mh multiaddr option \<Rightarrow> 'mh multiaddr list"
where
  "select_direct_addrs manual identify_observed listen =
     (let accepted = foldl push_candidate [] manual;
          accepted = (case identify_observed of None \<Rightarrow> accepted | Some addr \<Rightarrow> push_candidate accepted addr)
      in case listen of None \<Rightarrow> accepted | Some addr \<Rightarrow> push_candidate accepted addr)"

section \<open>Peer addresses\<close>

definition peer_addr_wf :: "'mh peer_addr \<Rightarrow> bool" where
  "peer_addr_wf a \<longleftrightarrow> transport a \<noteq> [] \<and> \<not> list_ex is_p2p (transport a)"

lemma position_None_iff: "position P xs = None \<longleftrightarrow> \<not> list_ex P xs"
  by (induction xs) auto

lemma position_append_first: "\<not> list_ex P xs \<Longrightarrow> P y \<Longrightarrow> position P (xs @ y # ys) = Some (length xs)"
  by (induction xs) auto

lemma position_less: "list_ex P xs \<Longrightarrow> \<exists>i < length xs. position P (xs @ ys) = Some i"
  by (induction xs) auto

lemma is_p2p_iff: "is_p2p p \<longleftrightarrow> (\<exists>q. p = P2p q)"
  by (cases p) auto

lemma from_multiaddr_iff:
  "from_multiaddr ps = Inr a \<longleftrightarrow> peer_addr_wf a \<and> ps = to_multiaddr a"
proof (cases ps rule: rev_cases)
  case Nil
  then show ?thesis by (simp add: from_multiaddr_def rposition_def to_multiaddr_def)
next
  case (snoc ts p)
  show ?thesis
  proof (cases "is_p2p p")
    case True
    then obtain q where q: "p = P2p q" by (auto simp: is_p2p_iff)
    have "rposition is_p2p ps = Some (length ts)" by (simp add: rposition_def snoc q)
    moreover have "position is_p2p ps = Some (length ts) \<longleftrightarrow> \<not> list_ex is_p2p ts"
      using position_append_first [of is_p2p ts p "[]"] position_less [of is_p2p ts "[p]"] True
      by (cases "list_ex is_p2p ts") (auto simp: snoc)
    moreover have "\<exists>i. position is_p2p ps = Some i"
      using True position_None_iff [of is_p2p ps] by (cases "position is_p2p ps") (auto simp: snoc)
    ultimately show ?thesis
      by (auto simp: from_multiaddr_def snoc q peer_addr_wf_def to_multiaddr_def split: if_splits)
  next
    case False
    then have "from_multiaddr ps \<noteq> Inr a"
      by (cases p) (auto simp: from_multiaddr_def snoc split: option.splits)
    moreover have "ps \<noteq> to_multiaddr a" using False by (auto simp: to_multiaddr_def snoc)
    ultimately show ?thesis by blast
  qed
qed

section \<open>Candidates\<close>

definition dialable :: "'mh multiaddr \<Rightarrow> bool" where
  "dialable a \<longleftrightarrow> \<not> is_wildcard_host a \<and> transport_kind_of a \<noteq> None"

text \<open>Keep the first occurrence of every element.\<close>

definition first_occurrences :: "'a list \<Rightarrow> 'a list" where
  "first_occurrences xs = rev (remdups (rev xs))"

lemma first_occurrences_snoc:
  "first_occurrences (xs @ [x]) = (if x \<in> set xs then first_occurrences xs else first_occurrences xs @ [x])"
  by (simp add: first_occurrences_def)

lemma set_first_occurrences [simp]: "set (first_occurrences xs) = set xs"
  by (simp add: first_occurrences_def)

lemma push_candidate_spec:
  "push_candidate (first_occurrences (filter dialable xs)) a = first_occurrences (filter dialable (xs @ [a]))"
  by (auto simp: push_candidate_def dialable_def first_occurrences_snoc)

lemma foldl_push_candidate:
  "foldl push_candidate (first_occurrences (filter dialable xs)) ys = first_occurrences (filter dialable (xs @ ys))"
proof (induction ys arbitrary: xs)
  case (Cons y ys)
  then show ?case using Cons.IH [of "xs @ [y]"] push_candidate_spec [of xs y] by simp
qed simp

section \<open>Properties\<close>

text \<open>
  A multiaddress denotes a peer address exactly when it is a non-empty transport
  without \<open>/p2p\<close> followed by one \<open>/p2p\<close> component, and then conversion back gives the
  same multiaddress; the three constructors build only such addresses.
\<close>

theorem peer_addr_iff:
  "(from_multiaddr ps = Inr a \<longleftrightarrow>
      transport a \<noteq> [] \<and> (\<forall>p \<in> set (transport a). \<not> is_p2p p) \<and> ps = to_multiaddr a) \<and>
   (peer_addr_new t p = Inr b \<longrightarrow> from_multiaddr (to_multiaddr b) = Inr b) \<and>
   from_multiaddr (to_multiaddr (peer_addr_quic_v1 ip port p)) = Inr (peer_addr_quic_v1 ip port p) \<and>
   from_multiaddr (to_multiaddr (peer_addr_tcp ip port p)) = Inr (peer_addr_tcp ip port p)"
proof -
  have host: "\<not> is_p2p (ip_host ip)" by (cases ip) simp_all
  have "peer_addr_wf b" if "peer_addr_new t p = Inr b"
    using that by (auto simp: peer_addr_new_def peer_addr_wf_def split: if_splits)
  moreover have "peer_addr_wf (peer_addr_quic_v1 ip port p)" "peer_addr_wf (peer_addr_tcp ip port p)"
    using host by (simp_all add: peer_addr_wf_def peer_addr_quic_v1_def peer_addr_tcp_def)
  ultimately show ?thesis
    unfolding from_multiaddr_iff by (auto simp: peer_addr_wf_def list_ex_iff)
qed

theorem peer_addr_iff_witness:
  "from_multiaddr [Ip4 [10, 0, 0, 1], Tcp 80, P2p \<lparr> multihash = 5 \<rparr>] =
     Inr \<lparr> transport = [Ip4 [10, 0, 0, 1], Tcp 80], addr_peer = \<lparr> multihash = 5 :: nat \<rparr> \<rparr>"
  using conjunct1 [OF peer_addr_iff [of "[Ip4 [10, 0, 0, 1], Tcp 80, P2p \<lparr> multihash = 5 :: nat \<rparr>]"
      "\<lparr> transport = [Ip4 [10, 0, 0, 1], Tcp 80], addr_peer = \<lparr> multihash = 5 :: nat \<rparr> \<rparr>"
      "[]" "\<lparr> multihash = 5 \<rparr>" undefined "V4 []" 0]]
  by (simp add: to_multiaddr_def)

text \<open>
  C25. The dial candidates are the dialable addresses among the manual ones, the observed
  one and the listen one, in this order, each once at its first place: no wildcard host, no
  address without a transport, no duplicate, and nothing dialable is lost.
\<close>

theorem select_direct_addrs_spec:
  "select_direct_addrs manual observed listen =
     rev (remdups (rev (filter (\<lambda>a. \<not> is_wildcard_host a \<and> transport_kind_of a \<noteq> None)
       (manual @ (case observed of None \<Rightarrow> [] | Some a \<Rightarrow> [a]) @ (case listen of None \<Rightarrow> [] | Some a \<Rightarrow> [a])))))"
proof -
  have manual: "foldl push_candidate [] manual = first_occurrences (filter dialable manual)"
    using foldl_push_candidate [of "[]" manual] by (simp add: first_occurrences_def)
  have "select_direct_addrs manual observed listen =
      first_occurrences (filter dialable
        (manual @ (case observed of None \<Rightarrow> [] | Some a \<Rightarrow> [a]) @ (case listen of None \<Rightarrow> [] | Some a \<Rightarrow> [a])))"
    using push_candidate_spec [of manual] push_candidate_spec [of "manual @ [_]"]
    by (cases observed; cases listen) (simp_all add: select_direct_addrs_def manual Let_def)
  then show ?thesis by (simp add: first_occurrences_def dialable_def [abs_def])
qed

end
