(* ===== verification/Ping.thy ===== *)
theory Ping
  imports Sans_Io Btree_Map Rust_Str
begin

text \<open>
  The ping protocol, \<open>crates/ping/src/lib.rs\<close>: one outbound stream with at most one
  request in flight and up to two inbound streams per peer, a receive buffer per stream,
  and queues of events and actions. Peer identifiers are only compared, so they are a
  linearly ordered type parameter. \<open>Inl Panic\<close> is the \<open>expect\<close> on the peer entry.
\<close>

section \<open>Model\<close>

type_synonym stream_id = u64

definition PING_PAYLOAD_LEN :: nat where
  "PING_PAYLOAD_LEN = 32"

definition MAX_INBOUND_STREAMS :: nat where
  "MAX_INBOUND_STREAMS = 2"

record ping_config =
  request_timeout_ms :: u64

definition ping_config_default :: ping_config where
  "ping_config_default = \<lparr> request_timeout_ms = 10000 \<rparr>"

datatype 'p ping_action =
    PingSend 'p stream_id bytes
  | PingCloseStreamWrite 'p stream_id
  | PingResetStream 'p stream_id

datatype 'p ping_event =
    OutboundStreamRegistered 'p stream_id
  | InboundStreamAccepted 'p stream_id
  | RttMeasured 'p stream_id u64
  | PingTimeout 'p stream_id u64
  | OutboundStreamClosed 'p stream_id
  | StreamLimitExceeded 'p stream_id nat
  | ProtocolViolation 'p stream_id str

datatype 'p ping_input =
    RegisterOutboundStream 'p stream_id
  | RegisterInboundStream 'p stream_id
  | SendPing 'p bytes u64
  | CloseOutboundStreamWrite 'p
  | PingStreamData 'p stream_id bytes u64
  | PingRemoteWriteClosed 'p stream_id
  | PingStreamClosed 'p stream_id
  | PingRemovePeer 'p
  | PingMigratePeer 'p 'p
  | PingTick u64

datatype 'p ping_output = PingAction "'p ping_action" | PingEvent "'p ping_event"

datatype 'p ping_error =
    OutboundStreamExists 'p stream_id
  | OutboundStreamMissing 'p
  | PingAlreadyInFlight 'p stream_id
  | InvalidPayloadLength nat

record pending_ping =
  ping_payload :: bytes
  sent_at_ms :: u64

record peer_ping_state =
  outbound_stream :: "stream_id option"
  inbound_streams :: "stream_id set"
  in_flight :: "pending_ping option"
  recv_bufs :: "(stream_id, bytes) btree"

definition peer_ping_default :: peer_ping_state where
  "peer_ping_default =
     \<lparr> outbound_stream = None, inbound_streams = {}, in_flight = None, recv_bufs = [] \<rparr>"

record 'p ping_protocol =
  ping_peers :: "('p, peer_ping_state) btree"
  ping_events :: "'p ping_event list"
  ping_actions :: "'p ping_action list"
  ping_cfg :: ping_config

definition ping_new :: "ping_config \<Rightarrow> 'p ping_protocol" where
  "ping_new config = \<lparr> ping_peers = [], ping_events = [], ping_actions = [], ping_cfg = config \<rparr>"

definition set_peer :: "'p::linorder \<Rightarrow> peer_ping_state \<Rightarrow> 'p ping_protocol \<Rightarrow> 'p ping_protocol" where
  "set_peer p st s = s\<lparr> ping_peers := bt_insert p st (ping_peers s) \<rparr>"

definition push_event :: "'p ping_event \<Rightarrow> 'p ping_protocol \<Rightarrow> 'p ping_protocol" where
  "push_event e s = s\<lparr> ping_events := ping_events s @ [e] \<rparr>"

definition peer_or_default :: "('p, peer_ping_state) btree \<Rightarrow> 'p \<Rightarrow> peer_ping_state" where
  "peer_or_default m p = (case bt_get m p of Some st \<Rightarrow> st | None \<Rightarrow> peer_ping_default)"

definition register_outbound_stream ::
  "'p::linorder \<Rightarrow> stream_id \<Rightarrow> 'p ping_protocol \<Rightarrow> 'p ping_protocol \<times> ('p ping_error + unit)"
where
  "register_outbound_stream p sid s =
     (let peer = peer_or_default (ping_peers s) p;
          s = set_peer p peer s
      in case outbound_stream peer of
           Some existing \<Rightarrow>
             if existing \<noteq> sid then (s, Inl (OutboundStreamExists p existing)) else (s, Inr ())
         | None \<Rightarrow>
             (push_event (OutboundStreamRegistered p sid)
                (set_peer p (peer\<lparr> outbound_stream := Some sid \<rparr>) s), Inr ()))"

definition ping_outbound_stream :: "'p \<Rightarrow> 'p ping_protocol \<Rightarrow> stream_id option" where
  "ping_outbound_stream p s =
     (case bt_get (ping_peers s) p of None \<Rightarrow> None | Some peer \<Rightarrow> outbound_stream peer)"

definition register_inbound_stream ::
  "'p::linorder \<Rightarrow> stream_id \<Rightarrow> 'p ping_protocol \<Rightarrow> 'p ping_protocol \<times> 'p ping_action list"
where
  "register_inbound_stream p sid s =
     (let peer = peer_or_default (ping_peers s) p;
          s = set_peer p peer s
      in if sid \<in> inbound_streams peer then (s, [])
         else if card (inbound_streams peer) \<ge> MAX_INBOUND_STREAMS then
           (push_event (StreamLimitExceeded p sid MAX_INBOUND_STREAMS) s, [PingResetStream p sid])
         else
           (push_event (InboundStreamAccepted p sid)
              (set_peer p (peer\<lparr> inbound_streams := insert sid (inbound_streams peer) \<rparr>) s), []))"

definition send_ping ::
  "'p::linorder \<Rightarrow> bytes \<Rightarrow> u64 \<Rightarrow> 'p ping_protocol \<Rightarrow> 'p ping_protocol \<times> ('p ping_error + 'p ping_action)"
where
  "send_ping p payload now s =
     (if length payload \<noteq> PING_PAYLOAD_LEN then (s, Inl (InvalidPayloadLength (length payload)))
      else case bt_get (ping_peers s) p of
        None \<Rightarrow> (s, Inl (OutboundStreamMissing p))
      | Some peer \<Rightarrow>
          (case outbound_stream peer of
             None \<Rightarrow> (s, Inl (OutboundStreamMissing p))
           | Some sid \<Rightarrow>
               if in_flight peer \<noteq> None then (s, Inl (PingAlreadyInFlight p sid))
               else
                 (set_peer p (peer\<lparr> in_flight := Some \<lparr> ping_payload = payload, sent_at_ms = now \<rparr> \<rparr>) s,
                  Inr (PingSend p sid payload))))"

definition close_outbound_stream_write ::
  "'p::linorder \<Rightarrow> 'p ping_protocol \<Rightarrow> 'p ping_error + 'p ping_action"
where
  "close_outbound_stream_write p s =
     (case bt_get (ping_peers s) p of
        None \<Rightarrow> Inl (OutboundStreamMissing p)
      | Some peer \<Rightarrow>
          (case outbound_stream peer of
             None \<Rightarrow> Inl (OutboundStreamMissing p)
           | Some sid \<Rightarrow>
               if in_flight peer \<noteq> None then Inl (PingAlreadyInFlight p sid)
               else Inr (PingCloseStreamWrite p sid)))"

definition protocol_violation ::
  "'p \<Rightarrow> stream_id \<Rightarrow> str \<Rightarrow> 'p ping_protocol \<Rightarrow> 'p ping_protocol \<times> 'p ping_action list"
where
  "protocol_violation p sid reason s =
     (push_event (ProtocolViolation p sid reason) s, [PingResetStream p sid])"

text \<open>Methods that may panic: \<open>Inr\<close> of the actions otherwise.\<close>

definition no_panic :: "'s \<times> 'a \<Rightarrow> 's \<times> ('e fault + 'a)" where
  "no_panic r = (fst r, Inr (snd r))"

definition process_complete_payload ::
  "'p::linorder \<Rightarrow> stream_id \<Rightarrow> bytes \<Rightarrow> u64 \<Rightarrow> 'p ping_protocol \<Rightarrow>
     'p ping_protocol \<times> ('p ping_error fault + 'p ping_action list)"
where
  "process_complete_payload p sid payload now s =
     (case bt_get (ping_peers s) p of
        None \<Rightarrow> (s, Inl Panic)
      | Some peer \<Rightarrow>
          if outbound_stream peer = Some sid then
            (case in_flight peer of
               None \<Rightarrow>
                 no_panic (protocol_violation p sid
                   (str_lit ''received ping response with no in-flight request'') s)
             | Some pending \<Rightarrow>
                 let s = set_peer p (peer\<lparr> in_flight := None \<rparr>) s in
                 if ping_payload pending \<noteq> payload then
                   no_panic (protocol_violation p sid (str_lit ''ping response payload mismatch'') s)
                 else
                   (push_event (RttMeasured p sid (u64_saturating_sub now (sent_at_ms pending))) s, Inr []))
          else if sid \<in> inbound_streams peer then (s, Inr [PingSend p sid payload])
          else (s, Inr []))"

definition stream_known :: "'p::linorder \<Rightarrow> stream_id \<Rightarrow> 'p ping_protocol \<Rightarrow> bool" where
  "stream_known p sid s \<longleftrightarrow>
     (case bt_get (ping_peers s) p of
        None \<Rightarrow> False
      | Some peer \<Rightarrow> outbound_stream peer = Some sid \<or> sid \<in> inbound_streams peer)"

definition drop_recv_buf :: "stream_id \<Rightarrow> peer_ping_state \<Rightarrow> peer_ping_state" where
  "drop_recv_buf sid peer = peer\<lparr> recv_bufs := bt_remove sid (recv_bufs peer) \<rparr>"

definition on_stream_data ::
  "'p::linorder \<Rightarrow> stream_id \<Rightarrow> bytes \<Rightarrow> u64 \<Rightarrow> 'p ping_protocol \<Rightarrow>
     'p ping_protocol \<times> ('p ping_error fault + 'p ping_action list)"
where
  "on_stream_data p sid data now s =
     (if \<not> stream_known p sid s then
        no_panic (protocol_violation p sid (str_lit ''ping data on unknown stream'') s)
      else case bt_get (ping_peers s) p of
        None \<Rightarrow>
          no_panic (protocol_violation p sid
            (str_lit ''ping peer state disappeared while receiving data'') s)
      | Some peer \<Rightarrow>
          let buf = (case bt_get (recv_bufs peer) sid of None \<Rightarrow> [] | Some b \<Rightarrow> b) @ data;
              s = set_peer p (peer\<lparr> recv_bufs := bt_insert sid buf (recv_bufs peer) \<rparr>) s
          in if PING_PAYLOAD_LEN < length buf then
               let s = (case bt_get (ping_peers s) p of
                          None \<Rightarrow> s
                        | Some peer \<Rightarrow> set_peer p (drop_recv_buf sid peer) s)
               in no_panic (protocol_violation p sid
                    (str_lit ''recv buffer '' @ show_nat (length buf) @
                     str_lit '' bytes exceeds payload size '' @ show_nat PING_PAYLOAD_LEN) s)
             else if length buf < PING_PAYLOAD_LEN then (s, Inr [])
             else (case bt_get (ping_peers s) p of
                 None \<Rightarrow>
                   no_panic (protocol_violation p sid
                     (str_lit ''ping peer state disappeared before processing data'') s)
               | Some peer \<Rightarrow>
                   (case bt_get (recv_bufs peer) sid of
                      None \<Rightarrow>
                        no_panic (protocol_violation p sid
                          (str_lit ''ping receive buffer disappeared before processing'') s)
                    | Some received \<Rightarrow>
                        let s = set_peer p (drop_recv_buf sid peer) s in
                        if length received \<noteq> PING_PAYLOAD_LEN then
                          no_panic (protocol_violation p sid
                            (str_lit ''ping receive buffer changed size before processing'') s)
                        else process_complete_payload p sid received now s)))"

definition on_stream_remote_write_closed ::
  "'p::linorder \<Rightarrow> stream_id \<Rightarrow> 'p ping_protocol \<Rightarrow> 'p ping_protocol \<times> 'p ping_action list"
where
  "on_stream_remote_write_closed p sid s =
     (case bt_get (ping_peers s) p of
        None \<Rightarrow> (s, [])
      | Some peer \<Rightarrow>
          if sid \<in> inbound_streams peer then
            (set_peer p (drop_recv_buf sid (peer\<lparr> inbound_streams := inbound_streams peer - {sid} \<rparr>)) s, [])
          else if outbound_stream peer = Some sid then
            if in_flight peer \<noteq> None then
              protocol_violation p sid (str_lit ''outbound stream closed before ping response'')
                (set_peer p (drop_recv_buf sid (peer\<lparr> in_flight := None, outbound_stream := None \<rparr>)) s)
            else
              (push_event (OutboundStreamClosed p sid)
                 (set_peer p (drop_recv_buf sid (peer\<lparr> outbound_stream := None \<rparr>)) s), [])
          else (s, []))"

definition on_stream_closed :: "'p::linorder \<Rightarrow> stream_id \<Rightarrow> 'p ping_protocol \<Rightarrow> 'p ping_protocol" where
  "on_stream_closed p sid s =
     (case bt_get (ping_peers s) p of
        None \<Rightarrow> s
      | Some peer \<Rightarrow>
          let peer = drop_recv_buf sid (peer\<lparr> inbound_streams := inbound_streams peer - {sid} \<rparr>) in
          set_peer p
            (if outbound_stream peer = Some sid then peer\<lparr> outbound_stream := None, in_flight := None \<rparr>
             else peer) s)"

definition ping_remove_peer :: "'p::linorder \<Rightarrow> 'p ping_protocol \<Rightarrow> 'p ping_protocol" where
  "ping_remove_peer p s = s\<lparr> ping_peers := bt_remove p (ping_peers s) \<rparr>"

fun rekey_event :: "'p \<Rightarrow> 'p \<Rightarrow> 'p ping_event \<Rightarrow> 'p ping_event" where
  "rekey_event old new (OutboundStreamRegistered p sid) =
     OutboundStreamRegistered (if p = old then new else p) sid"
| "rekey_event old new (InboundStreamAccepted p sid) =
     InboundStreamAccepted (if p = old then new else p) sid"
| "rekey_event old new (RttMeasured p sid rtt) = RttMeasured (if p = old then new else p) sid rtt"
| "rekey_event old new (PingTimeout p sid t) = PingTimeout (if p = old then new else p) sid t"
| "rekey_event old new (OutboundStreamClosed p sid) =
     OutboundStreamClosed (if p = old then new else p) sid"
| "rekey_event old new (StreamLimitExceeded p sid n) =
     StreamLimitExceeded (if p = old then new else p) sid n"
| "rekey_event old new (ProtocolViolation p sid reason) =
     ProtocolViolation (if p = old then new else p) sid reason"

definition migrate_peer :: "'p::linorder \<Rightarrow> 'p \<Rightarrow> 'p ping_protocol \<Rightarrow> 'p ping_protocol" where
  "migrate_peer old new s =
     (if old = new then s
      else
        let s = (case bt_get (ping_peers s) old of
                   None \<Rightarrow> s
                 | Some st \<Rightarrow>
                     s\<lparr> ping_peers := bt_insert new st (bt_remove old (ping_peers s)) \<rparr>)
        in s\<lparr> ping_events := map (rekey_event old new) (ping_events s) \<rparr>)"

text \<open>One turn of the loop of \<open>on_tick\<close>: the peer's new state, its events and its actions.\<close>

definition tick_peer ::
  "u64 \<Rightarrow> u64 \<Rightarrow> 'p \<Rightarrow> peer_ping_state \<Rightarrow> peer_ping_state \<times> 'p ping_event list \<times> 'p ping_action list"
where
  "tick_peer timeout now p peer =
     (case outbound_stream peer of
        None \<Rightarrow> (peer, [], [])
      | Some sid \<Rightarrow>
          (case in_flight peer of
             None \<Rightarrow> (peer, [], [])
           | Some pending \<Rightarrow>
               if timeout < u64_saturating_sub now (sent_at_ms pending) then
                 (drop_recv_buf sid (peer\<lparr> in_flight := None, outbound_stream := None \<rparr>),
                  [PingTimeout p sid timeout, OutboundStreamClosed p sid],
                  [PingResetStream p sid])
               else (peer, [], [])))"

fun tick_peers ::
  "u64 \<Rightarrow> u64 \<Rightarrow> ('p, peer_ping_state) btree \<Rightarrow>
     ('p, peer_ping_state) btree \<times> 'p ping_event list \<times> 'p ping_action list"
where
  "tick_peers timeout now [] = ([], [], [])"
| "tick_peers timeout now ((p, peer) # m) =
     (case (tick_peer timeout now p peer, tick_peers timeout now m) of
        ((peer', evs, acts), (m', evs', acts')) \<Rightarrow> ((p, peer') # m', evs @ evs', acts @ acts'))"

definition on_tick :: "u64 \<Rightarrow> 'p ping_protocol \<Rightarrow> 'p ping_protocol \<times> 'p ping_action list" where
  "on_tick now s =
     (case tick_peers (request_timeout_ms (ping_cfg s)) now (ping_peers s) of
        (m, evs, acts) \<Rightarrow> (s\<lparr> ping_peers := m, ping_events := ping_events s @ evs \<rparr>, acts))"

text \<open>\<open>SansIoProtocol\<close> for the protocol.\<close>

definition queue_actions ::
  "'p ping_protocol \<times> ('p ping_error fault + 'p ping_action list) \<Rightarrow>
     'p ping_protocol \<times> ('p ping_error fault + unit)"
where
  "queue_actions r = sbind r (\<lambda>actions s. (s\<lparr> ping_actions := ping_actions s @ actions \<rparr>, Inr ()))"

definition lift_err ::
  "'s \<times> ('e + 'a) \<Rightarrow> 's \<times> ('e fault + 'a)" where
  "lift_err r = (fst r, map_err Err (snd r))"

fun ping_handle_input ::
  "'p::linorder ping_input \<Rightarrow> 'p ping_protocol \<Rightarrow> 'p ping_protocol \<times> ('p ping_error fault + unit)"
where
  "ping_handle_input (RegisterOutboundStream p sid) s = lift_err (register_outbound_stream p sid s)"
| "ping_handle_input (RegisterInboundStream p sid) s =
     queue_actions (no_panic (register_inbound_stream p sid s))"
| "ping_handle_input (SendPing p payload now) s =
     sbind (lift_err (send_ping p payload now s))
       (\<lambda>action s. (s\<lparr> ping_actions := ping_actions s @ [action] \<rparr>, Inr ()))"
| "ping_handle_input (CloseOutboundStreamWrite p) s =
     sbind (lift_err (s, close_outbound_stream_write p s))
       (\<lambda>action s. (s\<lparr> ping_actions := ping_actions s @ [action] \<rparr>, Inr ()))"
| "ping_handle_input (PingStreamData p sid data now) s =
     queue_actions (on_stream_data p sid data now s)"
| "ping_handle_input (PingRemoteWriteClosed p sid) s =
     queue_actions (no_panic (on_stream_remote_write_closed p sid s))"
| "ping_handle_input (PingStreamClosed p sid) s = (on_stream_closed p sid s, Inr ())"
| "ping_handle_input (PingRemovePeer p) s = (ping_remove_peer p s, Inr ())"
| "ping_handle_input (PingMigratePeer old new) s = (migrate_peer old new s, Inr ())"
| "ping_handle_input (PingTick now) s = queue_actions (no_panic (on_tick now s))"

definition ping_poll_output :: "'p ping_protocol \<Rightarrow> 'p ping_protocol \<times> 'p ping_output option" where
  "ping_poll_output s =
     (case ping_actions s of
        action # rest \<Rightarrow> (s\<lparr> ping_actions := rest \<rparr>, Some (PingAction action))
      | [] \<Rightarrow>
          (case ping_events s of
             event # rest \<Rightarrow> (s\<lparr> ping_events := rest \<rparr>, Some (PingEvent event))
           | [] \<Rightarrow> (s, None)))"

definition ping_is_idle :: "'p ping_protocol \<Rightarrow> bool" where
  "ping_is_idle s \<longleftrightarrow> ping_actions s = [] \<and> ping_events s = []"

section \<open>Outputs\<close>

definition ping_pending :: "'p ping_protocol \<Rightarrow> 'p ping_output list" where
  "ping_pending s = map PingAction (ping_actions s) @ map PingEvent (ping_events s)"

interpretation ping_out: sans_io_outputs ping_poll_output ping_is_idle ping_pending ping_peers
  by unfold_locales
    (auto simp: ping_poll_output_def ping_pending_def ping_is_idle_def split: list.splits)

section \<open>The state invariant\<close>

text \<open>
  A request in flight has a stream, at most two inbound streams are tracked, and a receive
  buffer belongs to a tracked stream and is shorter than a payload.
\<close>

definition peer_ok :: "peer_ping_state \<Rightarrow> bool" where
  "peer_ok st \<longleftrightarrow>
     bt_wf (recv_bufs st) \<and> finite (inbound_streams st) \<and>
     card (inbound_streams st) \<le> MAX_INBOUND_STREAMS \<and>
     (\<forall>r. in_flight st = Some r \<longrightarrow>
        outbound_stream st \<noteq> None \<and> length (ping_payload r) = PING_PAYLOAD_LEN) \<and>
     (\<forall>sid b. bt_get (recv_bufs st) sid = Some b \<longrightarrow>
        length b < PING_PAYLOAD_LEN \<and> (outbound_stream st = Some sid \<or> sid \<in> inbound_streams st))"

definition ping_inv :: "'p::linorder ping_protocol \<Rightarrow> bool" where
  "ping_inv s \<longleftrightarrow> bt_wf (ping_peers s) \<and> (\<forall>p st. bt_get (ping_peers s) p = Some st \<longrightarrow> peer_ok st)"

lemma peer_ok_default [simp]: "peer_ok peer_ping_default"
  by (simp add: peer_ok_def peer_ping_default_def)

lemma ping_inv_new [simp]: "ping_inv (ping_new config)"
  by (simp add: ping_inv_def ping_new_def)

lemma ping_inv_peer: "ping_inv s \<Longrightarrow> bt_get (ping_peers s) p = Some st \<Longrightarrow> peer_ok st"
  by (simp add: ping_inv_def)

lemma peer_ok_or_default: "ping_inv s \<Longrightarrow> peer_ok (peer_or_default (ping_peers s) p)"
  by (auto simp: peer_or_default_def ping_inv_peer split: option.splits)

lemma ping_inv_set_peer [intro]: "ping_inv s \<Longrightarrow> peer_ok st \<Longrightarrow> ping_inv (set_peer p st s)"
  by (simp add: ping_inv_def set_peer_def)

lemma ping_inv_cong: "ping_peers s = ping_peers t \<Longrightarrow> ping_inv s = ping_inv t"
  by (simp add: ping_inv_def)

named_theorems ping_frame "what the small state updates of ping leave alone"

lemma push_event_frame [ping_frame]:
  "ping_peers (push_event e s) = ping_peers s" "ping_actions (push_event e s) = ping_actions s"
  "ping_cfg (push_event e s) = ping_cfg s" "ping_events (push_event e s) = ping_events s @ [e]"
  by (simp_all add: push_event_def)

lemma set_peer_frame [ping_frame]:
  "ping_peers (set_peer p st s) = bt_insert p st (ping_peers s)"
  "ping_actions (set_peer p st s) = ping_actions s" "ping_cfg (set_peer p st s) = ping_cfg s"
  "ping_events (set_peer p st s) = ping_events s"
  by (simp_all add: set_peer_def)

lemma set_peer_set_peer [ping_frame]: "set_peer p st (set_peer p st' s) = set_peer p st s"
  by (simp add: set_peer_def)

lemma ping_inv_push_event [simp]: "ping_inv (push_event e s) = ping_inv s"
  by (rule ping_inv_cong) (simp add: ping_frame)

lemma peer_ok_add_inbound:
  "peer_ok st \<Longrightarrow> \<not> MAX_INBOUND_STREAMS \<le> card (inbound_streams st) \<Longrightarrow>
     peer_ok (st\<lparr> inbound_streams := insert sid (inbound_streams st) \<rparr>)"
  by (auto simp: peer_ok_def card_insert_if)

lemma peer_ok_drop_inbound:
  "peer_ok st \<Longrightarrow> peer_ok (drop_recv_buf sid (st\<lparr> inbound_streams := inbound_streams st - {sid} \<rparr>))"
  by (auto simp: peer_ok_def drop_recv_buf_def card_Diff_singleton_if)

lemma peer_ok_drop_buf: "peer_ok st \<Longrightarrow> peer_ok (drop_recv_buf sid st)"
  by (auto simp: peer_ok_def drop_recv_buf_def)

lemma peer_ok_close_outbound:
  "peer_ok st \<Longrightarrow> outbound_stream st = Some sid \<Longrightarrow>
     peer_ok (drop_recv_buf sid (st\<lparr> in_flight := None, outbound_stream := None \<rparr>))"
  by (auto simp: peer_ok_def drop_recv_buf_def)

lemma ping_inv_register_outbound: "ping_inv s \<Longrightarrow> ping_inv (fst (register_outbound_stream p sid s))"
proof -
  assume inv: "ping_inv s"
  define st where "st = peer_or_default (ping_peers s) p"
  have st: "peer_ok st" using inv unfolding st_def by (rule peer_ok_or_default)
  have "peer_ok (st\<lparr> outbound_stream := Some sid \<rparr>)" if "outbound_stream st = None"
    using st that by (auto simp: peer_ok_def)
  with inv st show ?thesis
    by (auto simp: register_outbound_stream_def Let_def st_def [symmetric] split: option.splits)
qed

lemma ping_inv_register_inbound: "ping_inv s \<Longrightarrow> ping_inv (fst (register_inbound_stream p sid s))"
  by (auto simp: register_inbound_stream_def Let_def intro!: ping_inv_set_peer
      peer_ok_add_inbound peer_ok_or_default)

lemma ping_inv_send_ping: "ping_inv s \<Longrightarrow> ping_inv (fst (send_ping p payload now s))"
proof -
  assume inv: "ping_inv s"
  have "peer_ok (st\<lparr> in_flight := Some \<lparr> ping_payload = payload, sent_at_ms = now \<rparr> \<rparr>)"
    if "peer_ok st" "outbound_stream st = Some sid" "length payload = PING_PAYLOAD_LEN" for st sid
    using that by (simp add: peer_ok_def)
  with inv show ?thesis
    by (auto simp: send_ping_def dest: ping_inv_peer split: option.splits)
qed

lemma ping_inv_protocol_violation [simp]:
  "ping_inv (fst (protocol_violation p sid reason s)) = ping_inv s"
  by (simp add: protocol_violation_def)

lemma ping_inv_process:
  assumes "ping_inv s" and "bt_get (ping_peers s) p \<noteq> None"
  shows "ping_inv (fst (process_complete_payload p sid payload now s)) \<and>
         isl (snd (process_complete_payload p sid payload now s)) = False"
proof -
  have "peer_ok (st\<lparr> in_flight := None \<rparr>)" if "peer_ok st" for st
    using that by (simp add: peer_ok_def)
  with assms show ?thesis
    by (auto simp: process_complete_payload_def no_panic_def Let_def protocol_violation_def
        dest: ping_inv_peer split: option.splits)
qed

text \<open>
  With the invariant the branches of \<open>on_stream_data\<close> for vanished entries are dead, and
  the handler is the following case distinction on the length of the buffered bytes.
\<close>

definition buffered :: "peer_ping_state \<Rightarrow> stream_id \<Rightarrow> bytes" where
  "buffered peer sid = (case bt_get (recv_bufs peer) sid of None \<Rightarrow> [] | Some b \<Rightarrow> b)"

lemma on_stream_data_known:
  assumes "ping_inv s" and peer: "bt_get (ping_peers s) p = Some peer"
    and "outbound_stream peer = Some sid \<or> sid \<in> inbound_streams peer"
  shows "on_stream_data p sid data now s =
     (let buf = buffered peer sid @ data in
      if PING_PAYLOAD_LEN < length buf then
        no_panic (protocol_violation p sid
          (str_lit ''recv buffer '' @ show_nat (length buf) @
           str_lit '' bytes exceeds payload size '' @ show_nat PING_PAYLOAD_LEN)
          (set_peer p (drop_recv_buf sid peer) s))
      else if length buf < PING_PAYLOAD_LEN then
        (set_peer p (peer\<lparr> recv_bufs := bt_insert sid buf (recv_bufs peer) \<rparr>) s, Inr [])
      else process_complete_payload p sid buf now (set_peer p (drop_recv_buf sid peer) s))"
proof -
  have "bt_wf (recv_bufs peer)" using ping_inv_peer [OF assms(1,2)] by (simp add: peer_ok_def)
  then have drop: "drop_recv_buf sid (peer\<lparr> recv_bufs := bt_insert sid buf (recv_bufs peer) \<rparr>) =
      drop_recv_buf sid peer" for buf
    by (simp add: drop_recv_buf_def)
  show ?thesis
    using assms(3)
    by (simp add: on_stream_data_def stream_known_def peer buffered_def [symmetric] Let_def
        ping_frame drop)
qed

lemma ping_inv_on_stream_data:
  assumes "ping_inv s"
  shows "ping_inv (fst (on_stream_data p sid data now s)) \<and>
         isl (snd (on_stream_data p sid data now s)) = False"
proof (cases "stream_known p sid s")
  case False
  with assms show ?thesis
    by (simp add: on_stream_data_def no_panic_def protocol_violation_def)
next
  case True
  then obtain peer where peer: "bt_get (ping_peers s) p = Some peer"
    and known: "outbound_stream peer = Some sid \<or> sid \<in> inbound_streams peer"
    by (auto simp: stream_known_def split: option.splits)
  have ok: "peer_ok peer" using assms peer by (rule ping_inv_peer)
  have dropped: "ping_inv (set_peer p (drop_recv_buf sid peer) s)"
    using assms ok by (intro ping_inv_set_peer peer_ok_drop_buf)
  have "peer_ok (peer\<lparr> recv_bufs := bt_insert sid buf (recv_bufs peer) \<rparr>)"
    if "length buf < PING_PAYLOAD_LEN" for buf
    using ok known that by (auto simp: peer_ok_def)
  with assms dropped ping_inv_process [OF dropped, of p] show ?thesis
    by (auto simp: on_stream_data_known [OF assms peer known] Let_def no_panic_def
        protocol_violation_def ping_frame)
qed

lemma ping_inv_remote_write_closed:
  assumes "ping_inv s"
  shows "ping_inv (fst (on_stream_remote_write_closed p sid s))"
proof (cases "bt_get (ping_peers s) p")
  case (Some peer)
  have ok: "peer_ok peer" using assms Some by (rule ping_inv_peer)
  have quiet: "peer\<lparr> outbound_stream := None \<rparr> = peer\<lparr> in_flight := None, outbound_stream := None \<rparr>"
    if "in_flight peer = None"
    using that by simp
  show ?thesis
    using assms ping_inv_set_peer [OF assms peer_ok_drop_inbound [OF ok], of p sid]
      ping_inv_set_peer [OF assms peer_ok_close_outbound [OF ok], of sid p]
    by (cases "in_flight peer") (simp_all add: on_stream_remote_write_closed_def Some quiet)
qed (simp add: on_stream_remote_write_closed_def assms)

lemma peer_ok_forget_outbound:
  assumes "peer_ok st" and "bt_get (recv_bufs st) sid = None" and "outbound_stream st = Some sid"
  shows "peer_ok (st\<lparr> outbound_stream := None, in_flight := None \<rparr>)"
proof -
  have "sid' \<noteq> sid" if "bt_get (recv_bufs st) sid' = Some b" for sid' b
    using that assms(2) by auto
  with assms(1,3) show ?thesis by (fastforce simp: peer_ok_def)
qed

lemma ping_inv_stream_closed:
  assumes "ping_inv s"
  shows "ping_inv (on_stream_closed p sid s)"
proof (cases "bt_get (ping_peers s) p")
  case (Some peer)
  define st where "st = drop_recv_buf sid (peer\<lparr> inbound_streams := inbound_streams peer - {sid} \<rparr>)"
  have ok: "peer_ok peer" using assms Some by (rule ping_inv_peer)
  then have st: "peer_ok st" unfolding st_def by (rule peer_ok_drop_inbound)
  have "bt_get (recv_bufs st) sid = None"
    using ok by (simp add: st_def drop_recv_buf_def peer_ok_def)
  with st have "outbound_stream st = Some sid \<Longrightarrow>
      peer_ok (st\<lparr> outbound_stream := None, in_flight := None \<rparr>)"
    by (rule peer_ok_forget_outbound)
  with assms st show ?thesis
    by (auto simp: on_stream_closed_def Some Let_def st_def [symmetric])
qed (simp add: on_stream_closed_def assms)

lemma ping_inv_remove_peer: "ping_inv s \<Longrightarrow> ping_inv (ping_remove_peer p s)"
  by (simp add: ping_inv_def ping_remove_peer_def)

lemma ping_inv_migrate_peer: "ping_inv s \<Longrightarrow> ping_inv (migrate_peer old new s)"
  by (auto simp: ping_inv_def migrate_peer_def Let_def split: option.splits)

section \<open>Timeouts\<close>

definition expired :: "u64 \<Rightarrow> u64 \<Rightarrow> peer_ping_state \<Rightarrow> bool" where
  "expired timeout now st \<longleftrightarrow>
     (\<exists>r. in_flight st = Some r \<and> timeout < u64_saturating_sub now (sent_at_ms r))"

lemma tick_peer_expired:
  "peer_ok st \<Longrightarrow> expired timeout now st \<Longrightarrow>
     \<exists>sid. outbound_stream st = Some sid \<and>
       tick_peer timeout now p st =
         (drop_recv_buf sid (st\<lparr> in_flight := None, outbound_stream := None \<rparr>),
          [PingTimeout p sid timeout, OutboundStreamClosed p sid], [PingResetStream p sid])"
  by (auto simp: tick_peer_def expired_def peer_ok_def)

lemma tick_peer_not_expired: "\<not> expired timeout now st \<Longrightarrow> tick_peer timeout now p st = (st, [], [])"
  by (auto simp: tick_peer_def expired_def split: option.splits)

lemma peer_ok_tick: "peer_ok st \<Longrightarrow> peer_ok (fst (tick_peer timeout now p st))"
  using tick_peer_expired [of st timeout now p] peer_ok_close_outbound [of st]
  by (cases "expired timeout now st") (auto simp: tick_peer_not_expired)

lemma tick_peers_unfold:
  "tick_peers timeout now m =
     (map (\<lambda>(p, st). (p, fst (tick_peer timeout now p st))) m,
      concat (map (\<lambda>(p, st). fst (snd (tick_peer timeout now p st))) m),
      concat (map (\<lambda>(p, st). snd (snd (tick_peer timeout now p st))) m))"
  by (induction m) (auto split: prod.splits)

lemma bt_get_map_values: "bt_get (map (\<lambda>(k, v). (k, f k v)) m) k = map_option (f k) (bt_get m k)"
  by (induction m) auto

lemma bt_wf_map_values: "bt_wf (map (\<lambda>(k, v). (k, f k v)) m) = bt_wf m"
  by (simp add: bt_wf_def comp_def case_prod_beta)

lemma ping_inv_on_tick: "ping_inv s \<Longrightarrow> ping_inv (fst (on_tick now s))"
  by (auto simp: ping_inv_def on_tick_def tick_peers_unfold bt_get_map_values
      bt_wf_map_values [of "\<lambda>p st. fst (tick_peer _ _ p st)"] peer_ok_tick split: prod.splits)

section \<open>Reachable states\<close>

inductive ping_reachable :: "ping_config \<Rightarrow> 'p::linorder ping_protocol \<Rightarrow> bool" for config where
  ping_start: "ping_reachable config (ping_new config)"
| ping_input: "ping_reachable config s \<Longrightarrow> ping_reachable config (fst (ping_handle_input i s))"
| ping_poll: "ping_reachable config s \<Longrightarrow> ping_reachable config (fst (ping_poll_output s))"

lemma ping_inv_queue_actions: "ping_inv (fst (queue_actions r)) = ping_inv (fst r)"
proof -
  obtain s x where r: "r = (s, x)" by force
  show ?thesis by (cases x) (simp_all add: r queue_actions_def ping_inv_def)
qed

lemma fst_sbind_push:
  "ping_inv (fst (sbind r (\<lambda>action s. (s\<lparr> ping_actions := ping_actions s @ [action] \<rparr>, Inr ())))) =
     ping_inv (fst r)"
proof -
  obtain s x where r: "r = (s, x)" by force
  show ?thesis by (cases x) (simp_all add: r ping_inv_def)
qed

lemma fst_wrappers [simp]: "fst (no_panic r) = fst r" "fst (lift_err q) = fst q"
  by (simp_all add: no_panic_def lift_err_def)

lemmas ping_inv_operations =
  ping_inv_register_outbound ping_inv_register_inbound ping_inv_send_ping
  ping_inv_remote_write_closed ping_inv_stream_closed ping_inv_remove_peer ping_inv_migrate_peer
  ping_inv_on_tick conjunct1 [OF ping_inv_on_stream_data]

lemma ping_inv_handle_input: "ping_inv s \<Longrightarrow> ping_inv (fst (ping_handle_input i s))"
  by (cases i) (simp_all add: ping_inv_queue_actions fst_sbind_push ping_inv_operations)

lemma ping_reachable_inv: "ping_reachable config s \<Longrightarrow> ping_inv s"
proof (induction rule: ping_reachable.induct)
  case (ping_poll s)
  then show ?case by (simp add: ping_inv_def ping_out.poll_core)
qed (simp_all add: ping_inv_handle_input)

lemma queue_actions_no_panic: "snd (queue_actions (no_panic r)) = Inr ()"
  by (simp add: queue_actions_def no_panic_def)

lemma lift_err_no_panic: "snd (lift_err r) \<notin> {Inl Panic, Inl Diverge}"
  by (cases "snd r") (simp_all add: lift_err_def)

lemma sbind_no_panic:
  "snd r \<notin> {Inl Panic, Inl Diverge} \<Longrightarrow>
     snd (sbind r (\<lambda>x s. (f x s, Inr ()))) \<notin> {Inl Panic, Inl Diverge}"
  by (cases r; cases "snd r") auto

lemma ping_no_panic:
  assumes "ping_inv s"
  shows "snd (ping_handle_input i s) \<notin> {Inl Panic, Inl Diverge}"
proof (cases i)
  case (PingStreamData p sid data now)
  from ping_inv_on_stream_data [OF assms, of p sid data now]
  have "snd (on_stream_data p sid data now s) \<notin> {Inl Panic, Inl Diverge}" by auto
  then show ?thesis unfolding PingStreamData ping_handle_input.simps queue_actions_def
    by (rule sbind_no_panic)
next
  case (SendPing p payload now)
  show ?thesis unfolding SendPing ping_handle_input.simps
    by (rule sbind_no_panic) (rule lift_err_no_panic)
next
  case (CloseOutboundStreamWrite p)
  show ?thesis unfolding CloseOutboundStreamWrite ping_handle_input.simps
    by (rule sbind_no_panic) (rule lift_err_no_panic)
next
  case (RegisterOutboundStream p sid)
  show ?thesis unfolding RegisterOutboundStream ping_handle_input.simps by (rule lift_err_no_panic)
qed (simp_all add: queue_actions_no_panic)

section \<open>Delivery in chunks\<close>

fun ping_deliver ::
  "'p::linorder \<Rightarrow> stream_id \<Rightarrow> (bytes \<times> u64) list \<Rightarrow> 'p ping_protocol \<Rightarrow> 'p ping_protocol"
where
  "ping_deliver p sid [] s = s"
| "ping_deliver p sid ((data, now) # chunks) s =
     ping_deliver p sid chunks (fst (ping_handle_input (PingStreamData p sid data now) s))"

lemma ping_deliver_append:
  "ping_deliver p sid (xs @ ys) s = ping_deliver p sid ys (ping_deliver p sid xs s)"
  by (induction p sid xs s rule: ping_deliver.induct) auto

definition registered :: "peer_ping_state \<Rightarrow> stream_id \<Rightarrow> bool" where
  "registered peer sid \<longleftrightarrow> outbound_stream peer = Some sid \<or> sid \<in> inbound_streams peer"

lemma buffered_insert [simp]:
  "buffered (peer\<lparr> recv_bufs := bt_insert sid buf m \<rparr>) sid = buf"
  by (simp add: buffered_def)

lemma stream_data_partial:
  assumes "ping_inv s" and "bt_get (ping_peers s) p = Some peer" and "registered peer sid"
    and "length (buffered peer sid @ data) < PING_PAYLOAD_LEN"
  shows "fst (ping_handle_input (PingStreamData p sid data now) s) =
     set_peer p (peer\<lparr> recv_bufs := bt_insert sid (buffered peer sid @ data) (recv_bufs peer) \<rparr>) s"
  using assms(4)
  by (simp add: on_stream_data_known [OF assms(1,2) assms(3) [unfolded registered_def]]
      queue_actions_def Let_def set_peer_def)

lemma ping_deliver_partial:
  assumes "ping_inv s" and "bt_get (ping_peers s) p = Some peer" and "registered peer sid"
    and "length (buffered peer sid @ concat (map fst chunks)) < PING_PAYLOAD_LEN"
  shows "\<exists>m. ping_deliver p sid chunks s = set_peer p (peer\<lparr> recv_bufs := m \<rparr>) s \<and>
           ping_inv (ping_deliver p sid chunks s) \<and>
           buffered (peer\<lparr> recv_bufs := m \<rparr>) sid = buffered peer sid @ concat (map fst chunks)"
  using assms
proof (induction chunks arbitrary: s peer)
  case Nil
  then have "set_peer p peer s = s" by (simp add: set_peer_def ping_inv_def bt_insert_same)
  with Nil show ?case by (intro exI [of _ "recv_bufs peer"]) simp
next
  case (Cons c cs)
  obtain data now where c: "c = (data, now)" by force
  define peer1 where
    "peer1 = peer\<lparr> recv_bufs := bt_insert sid (buffered peer sid @ data) (recv_bufs peer) \<rparr>"
  have s1: "fst (ping_handle_input (PingStreamData p sid data now) s) = set_peer p peer1 s"
    unfolding peer1_def using Cons.prems by (intro stream_data_partial) (auto simp: c)
  have "ping_inv (set_peer p peer1 s)"
    unfolding s1 [symmetric] using Cons.prems(1) by (rule ping_inv_handle_input)
  moreover have "bt_get (ping_peers (set_peer p peer1 s)) p = Some peer1" by (simp add: ping_frame)
  moreover have "registered peer1 sid" using Cons.prems(3) by (simp add: registered_def peer1_def)
  moreover have "length (buffered peer1 sid @ concat (map fst cs)) < PING_PAYLOAD_LEN"
    using Cons.prems(4) by (simp add: peer1_def c)
  ultimately obtain m where
    m: "ping_deliver p sid cs (set_peer p peer1 s) = set_peer p (peer1\<lparr> recv_bufs := m \<rparr>) (set_peer p peer1 s)"
      "ping_inv (ping_deliver p sid cs (set_peer p peer1 s))"
      "buffered (peer1\<lparr> recv_bufs := m \<rparr>) sid = buffered peer1 sid @ concat (map fst cs)"
    using Cons.IH by blast
  have "peer1\<lparr> recv_bufs := m \<rparr> = peer\<lparr> recv_bufs := m \<rparr>" by (simp add: peer1_def)
  moreover have "buffered peer1 sid = buffered peer sid @ data" by (simp add: peer1_def)
  moreover have "ping_deliver p sid (c # cs) s = ping_deliver p sid cs (set_peer p peer1 s)"
    using s1 by (simp add: c)
  ultimately show ?case using m by (intro exI [of _ m]) (simp add: c ping_frame)
qed

text \<open>
  A payload that arrives in pieces on a stream with an empty buffer is processed once, when
  its last byte arrives.
\<close>

lemma ping_deliver_payload:
  assumes inv: "ping_inv s" and peer: "bt_get (ping_peers s) p = Some peer"
    and reg: "registered peer sid" and "buffered peer sid = []"
    and "concat (map fst chunks) @ data = payload" and "data \<noteq> []"
    and "length payload = PING_PAYLOAD_LEN"
  shows "\<exists>m. ping_deliver p sid (chunks @ [(data, now)]) s =
    fst (queue_actions (process_complete_payload p sid payload now
      (set_peer p (peer\<lparr> recv_bufs := m \<rparr>) s))) \<and>
    ping_inv (set_peer p (peer\<lparr> recv_bufs := m \<rparr>) s)"
proof -
  from assms have "length (buffered peer sid @ concat (map fst chunks)) < PING_PAYLOAD_LEN"
    by (auto simp flip: length_greater_0_conv)
  from ping_deliver_partial [OF inv peer reg this] obtain m where
    m: "ping_deliver p sid chunks s = set_peer p (peer\<lparr> recv_bufs := m \<rparr>) s"
      "ping_inv (set_peer p (peer\<lparr> recv_bufs := m \<rparr>) s)"
      "buffered (peer\<lparr> recv_bufs := m \<rparr>) sid = concat (map fst chunks)"
    using assms(4) by auto
  let ?peer = "peer\<lparr> recv_bufs := m \<rparr>"
  have get: "bt_get (ping_peers (set_peer p ?peer s)) p = Some ?peer" by (simp add: ping_frame)
  have "registered ?peer sid" using reg by (simp add: registered_def)
  from on_stream_data_known [OF m(2) get this [unfolded registered_def], of data now] assms(5,7) m(3)
  have "on_stream_data p sid data now (set_peer p ?peer s) =
      process_complete_payload p sid payload now (set_peer p (drop_recv_buf sid ?peer) s)"
    by (simp add: ping_frame)
  moreover have "drop_recv_buf sid ?peer = peer\<lparr> recv_bufs := bt_remove sid m \<rparr>"
    by (simp add: drop_recv_buf_def)
  moreover have "ping_inv (set_peer p (drop_recv_buf sid ?peer) s)"
    using inv ping_inv_peer [OF m(2) get] by (intro ping_inv_set_peer peer_ok_drop_buf)
  ultimately show ?thesis
    by (intro exI [of _ "bt_remove sid m"]) (simp add: ping_deliver_append m(1))
qed

section \<open>Properties\<close>

text \<open>
  C27. In every reachable state each peer has at most two inbound streams, a request in
  flight only with an outbound stream, and receive buffers only for its registered
  streams, each shorter than a payload; no input makes the protocol panic.
\<close>

theorem ping_state_bounded:
  assumes "ping_reachable config s"
  shows "(\<forall>p st. bt_get (ping_peers s) p = Some st \<longrightarrow>
            card (inbound_streams st) \<le> 2 \<and>
            (in_flight st \<noteq> None \<longrightarrow> outbound_stream st \<noteq> None) \<and>
            (\<forall>sid b. bt_get (recv_bufs st) sid = Some b \<longrightarrow>
               length b < 32 \<and> (outbound_stream st = Some sid \<or> sid \<in> inbound_streams st))) \<and>
         snd (ping_handle_input i s) \<notin> {Inl Panic, Inl Diverge}"
proof -
  have inv: "ping_inv s" using assms by (rule ping_reachable_inv)
  then show ?thesis
    using ping_no_panic [OF inv, of i]
    by (auto simp: ping_inv_def peer_ok_def MAX_INBOUND_STREAMS_def PING_PAYLOAD_LEN_def)
qed

theorem ping_state_bounded_witness:
  "snd (ping_handle_input (PingStreamData 3 5 [1, 2] 7)
     (fst (ping_handle_input (RegisterInboundStream (3 :: nat) 5) (ping_new ping_config_default))))
   \<notin> {Inl Panic, Inl Diverge}"
  by (rule conjunct2 [OF ping_state_bounded [OF ping_reachable.ping_input [OF ping_reachable.ping_start]]])

text \<open>
  C26. A ping that is echoed measures the round trip. When one side sends a payload on its
  idle outbound stream, the other side, receiving these bytes in any chunks, answers with
  exactly the same payload; and the sender, receiving that answer in any chunks, reports
  exactly one round-trip time, the last chunk's arrival minus the sending time, and can
  send again.
\<close>

theorem ping_round_trip:
  assumes "ping_reachable ca a" and "ping_reachable cb b"
    and "bt_get (ping_peers a) pb = Some sa" and "outbound_stream sa = Some x"
    and "in_flight sa = None" and "buffered sa x = []"
    and "bt_get (ping_peers b) pa = Some sb" and "y \<in> inbound_streams sb"
    and "outbound_stream sb \<noteq> Some y" and "buffered sb y = []"
    and "length payload = 32"
    and "concat (map fst there) @ last_there = payload" and "last_there \<noteq> []"
    and "concat (map fst back) @ last_back = payload" and "last_back \<noteq> []"
  shows "\<exists>a1 b1 a2 sa2.
     ping_handle_input (SendPing pb payload t0) a = (a1, Inr ()) \<and>
     ping_actions a1 = ping_actions a @ [PingSend pb x payload] \<and>
     ping_deliver pa y (there @ [(last_there, u)]) b = b1 \<and>
     ping_actions b1 = ping_actions b @ [PingSend pa y payload] \<and> ping_events b1 = ping_events b \<and>
     ping_deliver pb x (back @ [(last_back, t1)]) a1 = a2 \<and>
     ping_actions a2 = ping_actions a1 \<and>
     ping_events a2 = ping_events a @ [RttMeasured pb x (u64_saturating_sub t1 t0)] \<and>
     bt_get (ping_peers a2) pb = Some sa2 \<and> outbound_stream sa2 = Some x \<and> in_flight sa2 = None"
proof -
  have inv: "ping_inv a" "ping_inv b" using assms(1,2) by (auto dest: ping_reachable_inv)
  have len: "length payload = PING_PAYLOAD_LEN" using assms(11) by (simp add: PING_PAYLOAD_LEN_def)
  let ?sent = "sa\<lparr> in_flight := Some \<lparr> ping_payload = payload, sent_at_ms = t0 \<rparr> \<rparr>"
  let ?a1 = "(set_peer pb ?sent a)\<lparr> ping_actions := ping_actions a @ [PingSend pb x payload] \<rparr>"
  have send: "ping_handle_input (SendPing pb payload t0) a = (?a1, Inr ())"
    by (simp add: send_ping_def assms(3-5) len lift_err_def ping_frame)
  from ping_inv_handle_input [OF inv(1), of "SendPing pb payload t0"] send
  have inv1: "ping_inv ?a1" by simp
  have "registered sb y" using assms(8) by (simp add: registered_def)
  from ping_deliver_payload [OF inv(2) assms(7) this assms(10,12,13) len, of u] obtain m where
    echo: "ping_deliver pa y (there @ [(last_there, u)]) b =
      fst (queue_actions (process_complete_payload pa y payload u (set_peer pa (sb\<lparr> recv_bufs := m \<rparr>) b)))"
    by blast
  have get1: "bt_get (ping_peers ?a1) pb = Some ?sent" by (simp add: set_peer_def)
  have "registered ?sent x" "buffered ?sent x = []"
    using assms(4,6) by (simp_all add: registered_def buffered_def)
  from ping_deliver_payload [OF inv1 get1 this assms(14,15) len, of t1] obtain n where
    answer: "ping_deliver pb x (back @ [(last_back, t1)]) ?a1 =
      fst (queue_actions (process_complete_payload pb x payload t1 (set_peer pb (?sent\<lparr> recv_bufs := n \<rparr>) ?a1)))"
    by blast
  have "ping_actions (ping_deliver pa y (there @ [(last_there, u)]) b) =
      ping_actions b @ [PingSend pa y payload]"
    "ping_events (ping_deliver pa y (there @ [(last_there, u)]) b) = ping_events b"
    using assms(8,9) by (simp_all add: echo process_complete_payload_def queue_actions_def ping_frame)
  moreover have "ping_actions (ping_deliver pb x (back @ [(last_back, t1)]) ?a1) = ping_actions ?a1"
    "ping_events (ping_deliver pb x (back @ [(last_back, t1)]) ?a1) =
      ping_events a @ [RttMeasured pb x (u64_saturating_sub t1 t0)]"
    "bt_get (ping_peers (ping_deliver pb x (back @ [(last_back, t1)]) ?a1)) pb =
      Some (sa\<lparr> in_flight := None, recv_bufs := n \<rparr>)"
    using assms(4) by (simp_all add: answer process_complete_payload_def queue_actions_def ping_frame)
  ultimately show ?thesis
    using send assms(4) by (intro exI conjI) (assumption | simp add: ping_frame)+
qed

theorem ping_round_trip_witness:
  "\<exists>a1 b1 a2. ping_handle_input (SendPing 2 (replicate 32 7) 100)
       (fst (ping_handle_input (RegisterOutboundStream (2 :: nat) 4) (ping_new ping_config_default))) = (a1, Inr ()) \<and>
     ping_deliver 1 8 ([(replicate 20 7, 150)] @ [(replicate 12 7, 160)])
       (fst (ping_handle_input (RegisterInboundStream (1 :: nat) 8) (ping_new ping_config_default))) = b1 \<and>
     ping_actions b1 = [PingSend 1 8 (replicate 32 7)] \<and>
     ping_deliver 2 4 ([] @ [(replicate 32 7, 130)]) a1 = a2 \<and>
     ping_events a2 = [OutboundStreamRegistered 2 4, RttMeasured 2 4 30]"
proof -
  let ?a = "fst (ping_handle_input (RegisterOutboundStream (2 :: nat) 4) (ping_new ping_config_default))"
  let ?b = "fst (ping_handle_input (RegisterInboundStream (1 :: nat) 8) (ping_new ping_config_default))"
  note eval = register_outbound_stream_def register_inbound_stream_def Let_def lift_err_def
    no_panic_def queue_actions_def ping_new_def set_peer_def push_event_def peer_or_default_def
    peer_ping_default_def MAX_INBOUND_STREAMS_def buffered_def
  have a: "bt_get (ping_peers ?a) 2 = Some (peer_ping_default\<lparr> outbound_stream := Some 4 \<rparr>)"
    "ping_events ?a = [OutboundStreamRegistered 2 4]" "ping_actions ?a = []"
    by (simp_all add: eval)
  have b: "bt_get (ping_peers ?b) 1 = Some (peer_ping_default\<lparr> inbound_streams := {8} \<rparr>)" "ping_actions ?b = []"
    by (simp_all add: eval)
  have cut: "concat (map fst [(replicate 20 7, 150)]) @ replicate 12 7 = (replicate 32 7 :: bytes)"
    by (simp flip: replicate_add)
  have rtt: "u64_saturating_sub 130 100 = 30" by (simp add: u64_saturating_sub_def)
  have "\<exists>a1 b1 a2 sa2.
     ping_handle_input (SendPing 2 (replicate 32 7) 100) ?a = (a1, Inr ()) \<and>
     ping_actions a1 = ping_actions ?a @ [PingSend 2 4 (replicate 32 7)] \<and>
     ping_deliver 1 8 ([(replicate 20 7, 150)] @ [(replicate 12 7, 160)]) ?b = b1 \<and>
     ping_actions b1 = ping_actions ?b @ [PingSend 1 8 (replicate 32 7)] \<and> ping_events b1 = ping_events ?b \<and>
     ping_deliver 2 4 ([] @ [(replicate 32 7, 130)]) a1 = a2 \<and>
     ping_actions a2 = ping_actions a1 \<and>
     ping_events a2 = ping_events ?a @ [RttMeasured 2 4 (u64_saturating_sub 130 100)] \<and>
     bt_get (ping_peers a2) 2 = Some sa2 \<and> outbound_stream sa2 = Some 4 \<and> in_flight sa2 = None"
    by (rule ping_round_trip [OF ping_reachable.ping_input [OF ping_reachable.ping_start]
          ping_reachable.ping_input [OF ping_reachable.ping_start] a(1) _ _ _ b(1) _ _ _ _ cut])
      (simp_all add: eval)
  then show ?thesis unfolding a b rtt by auto
qed

text \<open>
  C28. A tick ends exactly the requests that have waited longer than the configured
  timeout: for each of these peers, in key order, it reports the timeout and the closing of
  the stream, queues one reset, and forgets request, stream and receive buffer; every other
  peer keeps its state.
\<close>

theorem ping_tick_exact:
  assumes "ping_reachable config s" and T: "T = request_timeout_ms (ping_cfg s)"
  shows "\<exists>s'. ping_handle_input (PingTick now) s = (s', Inr ()) \<and>
    ping_events s' = ping_events s @ concat (map (\<lambda>(p, st).
       [PingTimeout p (the (outbound_stream st)) T, OutboundStreamClosed p (the (outbound_stream st))])
       (filter (expired T now \<circ> snd) (ping_peers s))) \<and>
    ping_actions s' = ping_actions s @
      map (\<lambda>(p, st). PingResetStream p (the (outbound_stream st))) (filter (expired T now \<circ> snd) (ping_peers s)) \<and>
    bt_get (ping_peers s') p = map_option (\<lambda>st.
      if expired T now st
      then st\<lparr> in_flight := None, outbound_stream := None,
               recv_bufs := bt_remove (the (outbound_stream st)) (recv_bufs st) \<rparr>
      else st) (bt_get (ping_peers s) p)"
proof -
  have inv: "ping_inv s" using assms(1) by (rule ping_reachable_inv)
  have tick: "tick_peer T now q st =
      (if expired T now st
       then (st\<lparr> in_flight := None, outbound_stream := None,
               recv_bufs := bt_remove (the (outbound_stream st)) (recv_bufs st) \<rparr>,
             [PingTimeout q (the (outbound_stream st)) T, OutboundStreamClosed q (the (outbound_stream st))],
             [PingResetStream q (the (outbound_stream st))])
       else (st, [], []))" if "(q, st) \<in> set (ping_peers s)" for q st
  proof -
    have "peer_ok st" using inv that by (auto simp: ping_inv_def bt_mem_iff)
    then show ?thesis
      using tick_peer_expired [of st T now q] tick_peer_not_expired [of T now st q]
      by (auto simp: drop_recv_buf_def)
  qed
  have evs: "concat (map (\<lambda>(q, st). fst (snd (tick_peer T now q st))) m) = concat (map (\<lambda>(p, st).
       [PingTimeout p (the (outbound_stream st)) T, OutboundStreamClosed p (the (outbound_stream st))])
       (filter (expired T now \<circ> snd) m))"
    and acts: "concat (map (\<lambda>(q, st). snd (snd (tick_peer T now q st))) m) =
      map (\<lambda>(p, st). PingResetStream p (the (outbound_stream st))) (filter (expired T now \<circ> snd) m)"
    if "set m \<subseteq> set (ping_peers s)" for m
    using that by (induction m) (auto simp: tick)
  have get: "map_option (\<lambda>st. fst (tick_peer T now p st)) (bt_get (ping_peers s) p) =
     map_option (\<lambda>st. if expired T now st
      then st\<lparr> in_flight := None, outbound_stream := None,
               recv_bufs := bt_remove (the (outbound_stream st)) (recv_bufs st) \<rparr>
      else st) (bt_get (ping_peers s) p)"
    using tick [of p] inv by (cases "bt_get (ping_peers s) p") (auto simp: ping_inv_def bt_mem_iff)
  show ?thesis
    by (simp add: on_tick_def tick_peers_unfold T [symmetric] queue_actions_def no_panic_def
        evs [OF order_refl] acts [OF order_refl] bt_get_map_values get)
qed

theorem ping_tick_exact_witness:
  "\<exists>s'. ping_handle_input (PingTick 20000)
      (fst (ping_handle_input (RegisterOutboundStream (3 :: nat) 5) (ping_new ping_config_default))) =
      (s', Inr ()) \<and> ping_actions s' = []"
  using ping_tick_exact [OF ping_reachable.ping_input [OF ping_reachable.ping_start] refl,
      of 20000 "RegisterOutboundStream (3 :: nat) 5" ping_config_default 3]
  by (auto simp: register_outbound_stream_def Let_def lift_err_def ping_new_def set_peer_def
      push_event_def peer_or_default_def peer_ping_default_def expired_def)

end
