(* ===== verification/Protobuf.thy ===== *)
theory Protobuf
  imports Varint
begin

text \<open>
  The protobuf wire format as the message codecs of the relay, DCUtR, identify and pubsub
  crates read it. Each crate has its own copies of \<open>read_tag\<close>, \<open>read_len_delimited\<close>,
  \<open>read_varint_value\<close>, \<open>advance\<close> and \<open>skip_unknown_field\<close>, which differ in their error
  values; they are modelled once, with the error constructors as a record. A
  decoder is the loop over tags with a table that says, for a field number and a wire type,
  how the value is read and what it does to the message; anything else is skipped.

  The locale \<open>wire_reader_laws\<close> is the contract of the readers. Its lemmas say, for every
  table, that decoding the encoding of a list of fields applies the fields in order, and
  that whatever is accepted is such an encoding.
\<close>

section \<open>Fields\<close>

datatype wire_value = VarintV u64 | I64V bytes | LenV bytes | I32V bytes

fun wire_type :: "wire_value \<Rightarrow> u8" where
  "wire_type (VarintV _) = 0"
| "wire_type (I64V _) = 1"
| "wire_type (LenV _) = 2"
| "wire_type (I32V _) = 5"

fun value_ok :: "wire_value \<Rightarrow> bool" where
  "value_ok (VarintV _) \<longleftrightarrow> True"
| "value_ok (I64V bs) \<longleftrightarrow> length bs = 8"
| "value_ok (LenV bs) \<longleftrightarrow> length bs \<le> usize_max"
| "value_ok (I32V bs) \<longleftrightarrow> length bs = 4"

fun enc_value :: "wire_value \<Rightarrow> bytes" where
  "enc_value (VarintV v) = write_uvarint v []"
| "enc_value (I64V bs) = bs"
| "enc_value (LenV bs) = write_uvarint (word_of_nat (length bs)) [] @ bs"
| "enc_value (I32V bs) = bs"

definition enc_tag :: "u64 \<Rightarrow> u8 \<Rightarrow> bytes" where
  "enc_tag f wt = write_uvarint (push_bit 3 f OR ucast wt) []"

definition field_number_ok :: "u64 \<Rightarrow> bool" where
  "field_number_ok f \<longleftrightarrow> f < 2 ^ 61"

definition enc_field :: "u64 \<times> wire_value \<Rightarrow> bytes" where
  "enc_field fv = enc_tag (fst fv) (wire_type (snd fv)) @ enc_value (snd fv)"

definition enc_fields :: "(u64 \<times> wire_value) list \<Rightarrow> bytes" where
  "enc_fields fs = concat (map enc_field fs)"

section \<open>Readers\<close>

record 'e pb_errors =
  err_tail :: "nat \<Rightarrow> 'e"
  err_varint :: "varint_error \<Rightarrow> 'e"
  err_overflow :: "nat \<Rightarrow> nat \<Rightarrow> nat \<Rightarrow> 'e"
  err_wire :: "u8 \<Rightarrow> nat \<Rightarrow> 'e"

definition pb_advance :: "'e pb_errors \<Rightarrow> bytes \<Rightarrow> nat \<Rightarrow> nat \<Rightarrow> 'e + nat" where
  "pb_advance E input idx len =
     (case usize_checked_add idx len of
        Some stop \<Rightarrow>
          if stop \<le> length input then Inr stop
          else Inl (err_overflow E idx len (length input - idx))
      | None \<Rightarrow> Inl (err_overflow E idx len (length input - idx)))"

definition pb_varint :: "'e pb_errors \<Rightarrow> bytes \<Rightarrow> nat \<Rightarrow> 'e + (u64 \<times> nat)" where
  "pb_varint E input idx =
     rbind (ok_or (slice_from input idx) (err_tail E idx)) (\<lambda>remaining.
     rbind (map_err (err_varint E) (read_uvarint remaining)) (\<lambda>(value, used).
     rbind (pb_advance E input idx used) (\<lambda>idx'. Inr (value, idx'))))"

definition pb_tag :: "'e pb_errors \<Rightarrow> bytes \<Rightarrow> nat \<Rightarrow> 'e + ((u64 \<times> u8) \<times> nat) option" where
  "pb_tag E input idx =
     (if length input \<le> idx then Inr None
      else rbind (pb_varint E input idx) (\<lambda>(tag_value, idx').
        Inr (Some ((drop_bit 3 tag_value, ucast (tag_value AND 7)), idx'))))"

definition pb_len :: "'e pb_errors \<Rightarrow> bytes \<Rightarrow> nat \<Rightarrow> 'e + (bytes \<times> nat)" where
  "pb_len E input idx =
     rbind (pb_varint E input idx) (\<lambda>(length_u64, idx).
       let len = unat length_u64; remaining = length input - idx in
       if remaining < len then Inl (err_overflow E idx len remaining)
       else rbind (ok_or (usize_checked_add idx len) (err_overflow E idx len remaining)) (\<lambda>stop.
            rbind (ok_or (slice_get input idx stop) (err_overflow E idx len remaining)) (\<lambda>value.
            Inr (value, stop))))"

definition pb_skip :: "'e pb_errors \<Rightarrow> bytes \<Rightarrow> nat \<Rightarrow> u8 \<Rightarrow> 'e + nat" where
  "pb_skip E input idx wt =
     (if wt = 0 then rbind (pb_varint E input idx) (\<lambda>(_, idx'). Inr idx')
      else if wt = 2 then rbind (pb_len E input idx) (\<lambda>(_, idx'). Inr idx')
      else if wt = 5 then pb_advance E input idx 4
      else if wt = 1 then pb_advance E input idx 8
      else Inl (err_wire E wt idx))"

section \<open>Table-driven decoding\<close>

record 'e wire_reader =
  rd_tag :: "bytes \<Rightarrow> nat \<Rightarrow> 'e + ((u64 \<times> u8) \<times> nat) option"
  rd_varint :: "bytes \<Rightarrow> nat \<Rightarrow> 'e + (u64 \<times> nat)"
  rd_len :: "bytes \<Rightarrow> nat \<Rightarrow> 'e + (bytes \<times> nat)"
  rd_skip :: "bytes \<Rightarrow> nat \<Rightarrow> u8 \<Rightarrow> 'e + nat"

definition pb_reader :: "'e pb_errors \<Rightarrow> 'e wire_reader" where
  "pb_reader E = \<lparr> rd_tag = pb_tag E, rd_varint = pb_varint E, rd_len = pb_len E, rd_skip = pb_skip E \<rparr>"

text \<open>
  What a known field does with its value: the offset is the position behind the tag.
\<close>

datatype ('e, 'm) on_field =
    OnVarint "nat \<Rightarrow> u64 \<Rightarrow> 'm \<Rightarrow> 'e fault + 'm"
  | OnLen "nat \<Rightarrow> bytes \<Rightarrow> 'm \<Rightarrow> 'e fault + 'm"

type_synonym ('e, 'm) field_table = "u64 \<Rightarrow> u8 \<Rightarrow> ('e, 'm) on_field option"

definition pb_field ::
  "'e wire_reader \<Rightarrow> ('e, 'm) field_table \<Rightarrow> bytes \<Rightarrow> nat \<Rightarrow> u64 \<Rightarrow> u8 \<Rightarrow> 'm \<Rightarrow> 'e fault + (nat \<times> 'm)"
where
  "pb_field R table input idx f wt m =
     (case table f wt of
        Some (OnVarint g) \<Rightarrow>
          rbind (map_err Err (rd_varint R input idx)) (\<lambda>(v, idx'). rbind (g idx v m) (\<lambda>m'. Inr (idx', m')))
      | Some (OnLen g) \<Rightarrow>
          rbind (map_err Err (rd_len R input idx)) (\<lambda>(v, idx'). rbind (g idx v m) (\<lambda>m'. Inr (idx', m')))
      | None \<Rightarrow> rbind (map_err Err (rd_skip R input idx wt)) (\<lambda>idx'. Inr (idx', m)))"

text \<open>
  The loop over the fields. A turn that does not move the cursor would repeat for ever;
  this is the value \<open>Diverge\<close>.
\<close>

function pb_loop ::
  "'e wire_reader \<Rightarrow> ('e, 'm) field_table \<Rightarrow> bytes \<Rightarrow> nat \<Rightarrow> 'm \<Rightarrow> 'e fault + 'm"
where
  "pb_loop R table input idx m =
     (case rd_tag R input idx of
        Inl e \<Rightarrow> Inl (Err e)
      | Inr None \<Rightarrow> Inr m
      | Inr (Some ((f, wt), idx1)) \<Rightarrow>
          (case pb_field R table input idx1 f wt m of
             Inl e \<Rightarrow> Inl e
           | Inr (idx2, m') \<Rightarrow>
               if idx < idx2 \<and> idx < length input then pb_loop R table input idx2 m'
               else Inl Diverge))"
  by pat_completeness auto
termination
  by (relation "measure (\<lambda>(R, table, input, idx, m). length input - idx)") auto

declare pb_loop.simps [simp del]

definition pb_decode :: "'e wire_reader \<Rightarrow> ('e, 'm) field_table \<Rightarrow> 'm \<Rightarrow> bytes \<Rightarrow> 'e fault + 'm" where
  "pb_decode R table m input = pb_loop R table input 0 m"

text \<open>What a list of fields means for a table: apply one field after the other.\<close>

fun apply_field :: "('e, 'm) field_table \<Rightarrow> nat \<Rightarrow> u64 \<times> wire_value \<Rightarrow> 'm \<Rightarrow> 'e fault + 'm" where
  "apply_field table off (f, v) m =
     (case (table f (wire_type v), v) of
        (Some (OnVarint g), VarintV w) \<Rightarrow> g off w m
      | (Some (OnLen g), LenV bs) \<Rightarrow> g off bs m
      | _ \<Rightarrow> Inr m)"

fun apply_fields :: "('e, 'm) field_table \<Rightarrow> nat \<Rightarrow> (u64 \<times> wire_value) list \<Rightarrow> 'm \<Rightarrow> 'e fault + 'm" where
  "apply_fields table off [] m = Inr m"
| "apply_fields table off (fv # fs) m =
     rbind (apply_field table (off + length (enc_tag (fst fv) (wire_type (snd fv)))) fv m)
       (apply_fields table (off + length (enc_field fv)) fs)"

definition fields_ok :: "(u64 \<Rightarrow> bool) \<Rightarrow> (u64 \<times> wire_value) list \<Rightarrow> bool" where
  "fields_ok legal fs \<longleftrightarrow> (\<forall>(f, v) \<in> set fs. legal f \<and> field_number_ok f \<and> value_ok v)"

definition table_ok :: "('e, 'm) field_table \<Rightarrow> bool" where
  "table_ok table \<longleftrightarrow>
     (\<forall>f wt g. table f wt = Some (OnVarint g) \<longrightarrow> wt = 0) \<and>
     (\<forall>f wt g. table f wt = Some (OnLen g) \<longrightarrow> wt = 2)"

section \<open>Positions\<close>

text \<open>\<open>reads input idx bs idx'\<close>: at \<open>idx\<close> the input has the bytes \<open>bs\<close>, ending at \<open>idx'\<close>.\<close>

definition reads :: "bytes \<Rightarrow> nat \<Rightarrow> bytes \<Rightarrow> nat \<Rightarrow> bool" where
  "reads input idx bs idx' \<longleftrightarrow>
     idx \<le> length input \<and> idx' = idx + length bs \<and> (\<exists>rest. drop idx input = bs @ rest)"

lemma drop_add: "drop (m + n) xs = drop n (drop m xs)"
  by (simp add: add.commute)

lemma reads_split:
  "reads input idx bs idx' \<Longrightarrow> drop idx input = bs @ drop idx' input"
  by (auto simp: reads_def drop_add simp del: drop_drop)

lemma reads_le: "reads input idx bs idx' \<Longrightarrow> idx' \<le> length input"
proof -
  assume a: "reads input idx bs idx'"
  then have "length (drop idx input) = length bs + length (drop idx' input)"
    using reads_split by (metis length_append)
  with a show ?thesis by (auto simp: reads_def)
qed

lemma reads_append: "reads (pre @ bs @ post) (length pre) bs (length pre + length bs)"
  by (simp add: reads_def)

lemma reads_concat:
  "reads input idx (bs @ cs) idx' \<longleftrightarrow>
     reads input idx bs (idx + length bs) \<and> reads input (idx + length bs) cs idx'"
proof
  assume a: "reads input idx (bs @ cs) idx'"
  then obtain rest where rest: "drop idx input = bs @ cs @ rest" by (auto simp: reads_def)
  with a have b: "reads input idx bs (idx + length bs)" by (auto simp: reads_def)
  from rest have "drop (idx + length bs) input = cs @ rest"
    by (simp add: drop_add del: drop_drop)
  with a reads_le [OF b] b show "reads input idx bs (idx + length bs) \<and>
      reads input (idx + length bs) cs idx'"
    by (auto simp: reads_def)
next
  assume "reads input idx bs (idx + length bs) \<and> reads input (idx + length bs) cs idx'"
  then show "reads input idx (bs @ cs) idx'"
    using reads_split [of input idx bs "idx + length bs"] by (auto simp: reads_def)
qed

lemma reads_slice:
  assumes "idx \<le> length input"
  shows "slice_get input idx (idx + length v) = Some v \<longleftrightarrow> reads input idx v (idx + length v)"
proof
  assume "reads input idx v (idx + length v)"
  with reads_le [OF this] show "slice_get input idx (idx + length v) = Some v"
    by (auto simp: slice_get_def reads_def)
next
  assume "slice_get input idx (idx + length v) = Some v"
  then have "take (length v) (drop idx input) = v" by (auto simp: slice_get_def split: if_splits)
  then have "drop idx input = v @ drop (length v) (drop idx input)"
    by (metis append_take_drop_id)
  with assms show "reads input idx v (idx + length v)" by (auto simp: reads_def)
qed

section \<open>The shared readers\<close>

lemma read_uvarint_at:
  assumes "idx \<le> length input"
  shows "read_uvarint (drop idx input) = Inr (v, n) \<longleftrightarrow>
     n = uvarint_len v \<and> reads input idx (write_uvarint v []) (idx + n)"
  using assms by (auto simp: read_uvarint_iff reads_def length_write_uvarint)

lemma pb_advance_iff:
  assumes "length input \<le> usize_max"
  shows "pb_advance E input idx n = Inr idx' \<longleftrightarrow> idx' = idx + n \<and> idx' \<le> length input"
  using assms by (auto simp: pb_advance_def usize_checked_add_def)

lemma pb_varint_iff:
  assumes "length input \<le> usize_max"
  shows "pb_varint E input idx = Inr (v, idx') \<longleftrightarrow> reads input idx (enc_value (VarintV v)) idx'"
proof (cases "idx \<le> length input")
  case True
  have "pb_varint E input idx = Inr (v, idx') \<longleftrightarrow>
      (\<exists>n. read_uvarint (drop idx input) = Inr (v, n) \<and> idx' = idx + n \<and> idx' \<le> length input)"
    using True by (auto simp: pb_varint_def slice_from_def result_simps pb_advance_iff [OF assms])
  also have "\<dots> \<longleftrightarrow> reads input idx (enc_value (VarintV v)) idx'"
    using reads_le [of input idx "write_uvarint v []"]
    by (auto simp: read_uvarint_at [OF True] reads_def length_write_uvarint)
  finally show ?thesis .
qed (auto simp: pb_varint_def slice_from_def reads_def)

lemma unat_word_of_length: "n \<le> usize_max \<Longrightarrow> unat (word_of_nat n :: u64) = n"
  by (rule unat_word_of_nat) (simp add: usize_max_def)

lemma pb_len_iff:
  assumes "length input \<le> usize_max"
  shows "pb_len E input idx = Inr (bs, idx') \<longleftrightarrow> reads input idx (enc_value (LenV bs)) idx'"
proof
  assume "pb_len E input idx = Inr (bs, idx')"
  then obtain len i where v: "pb_varint E input idx = Inr (len, i)"
    and "unat len \<le> length input - i" "slice_get input i (i + unat len) = Some bs"
    and stop: "idx' = i + unat len"
    by (auto simp: pb_len_def result_simps Let_def usize_checked_add_def split: if_splits)
  from v have r: "reads input idx (write_uvarint len []) i" by (simp add: pb_varint_iff [OF assms])
  have i: "i \<le> length input" using r by (rule reads_le)
  with \<open>slice_get input i (i + unat len) = Some bs\<close> have len: "length bs = unat len"
    by (auto simp: slice_get_def split: if_splits)
  then have "slice_get input i (i + length bs) = Some bs"
    using \<open>slice_get input i (i + unat len) = Some bs\<close> by (simp only:)
  with reads_slice [OF i] have "reads input i bs (i + length bs)" by blast
  then have "reads input i bs idx'" by (simp only: stop len)
  moreover have "word_of_nat (length bs) = len" by (simp add: len)
  moreover have "i = idx + length (write_uvarint len [])" using r by (simp add: reads_def)
  ultimately show "reads input idx (enc_value (LenV bs)) idx'"
    using r by (simp add: reads_concat)
next
  assume r: "reads input idx (enc_value (LenV bs)) idx'"
  define len :: u64 where "len = word_of_nat (length bs)"
  define i where "i = idx + length (write_uvarint len [])"
  from r have v: "reads input idx (write_uvarint len []) i" and b: "reads input i bs idx'"
    by (simp_all add: reads_concat len_def i_def)
  have stop: "idx' = i + length bs" "idx' \<le> length input"
    using b reads_le [OF b] by (auto simp: reads_def)
  with assms have len: "unat len = length bs" unfolding len_def
    by (intro unat_word_of_length) linarith
  have "slice_get input i idx' = Some bs"
    using b stop reads_slice [of i input bs] by (auto simp: reads_def)
  with stop len assms v show "pb_len E input idx = Inr (bs, idx')"
    by (simp add: pb_len_def pb_varint_iff [OF assms, THEN iffD2] Let_def usize_checked_add_def)
qed

lemma reads_fixed:
  assumes "idx \<le> length input"
  shows "idx + n \<le> length input \<longleftrightarrow> (\<exists>bs. length bs = n \<and> reads input idx bs (idx + n))"
proof
  assume "idx + n \<le> length input"
  then have "length (take n (drop idx input)) = n" "reads input idx (take n (drop idx input)) (idx + n)"
    using assms append_take_drop_id [of n "drop idx input"] by (auto simp: reads_def) metis
  then show "\<exists>bs. length bs = n \<and> reads input idx bs (idx + n)" by blast
qed (auto dest: reads_le)

lemma pb_skip_iff:
  assumes "length input \<le> usize_max" and "idx \<le> length input"
  shows "pb_skip E input idx wt = Inr idx' \<longleftrightarrow>
     (\<exists>v. wire_type v = wt \<and> value_ok v \<and> reads input idx (enc_value v) idx')"
proof -
  have len: "length bs \<le> usize_max" if "reads input idx (enc_value (LenV bs)) idx'" for bs
    using reads_le [OF that] that assms(1) by (auto simp: reads_def)
  have fixed: "pb_advance E input idx n = Inr idx' \<longleftrightarrow> (\<exists>bs. length bs = n \<and> reads input idx bs idx')" for n
    using reads_fixed [OF assms(2), of n] by (auto simp: pb_advance_iff [OF assms(1)] reads_def)
  have ex: "(\<exists>v. P v) \<longleftrightarrow> (\<exists>w. P (VarintV w)) \<or> (\<exists>bs. P (I64V bs)) \<or> (\<exists>bs. P (LenV bs)) \<or> (\<exists>bs. P (I32V bs))"
    for P by (metis wire_value.exhaust)
  consider "wt = 0" | "wt = 2" | "wt = 5" | "wt = 1" | "wt \<notin> {0, 1, 2, 5}" by auto
  then show ?thesis
  proof cases
    case 1
    then show ?thesis unfolding ex
      by (auto simp: pb_skip_def result_simps pb_varint_iff [OF assms(1)])
  next
    case 2
    then show ?thesis unfolding ex
      using len by (auto simp: pb_skip_def result_simps pb_len_iff [OF assms(1)])
  next
    case 3
    then show ?thesis unfolding ex by (auto simp: pb_skip_def fixed)
  next
    case 4
    then show ?thesis unfolding ex by (auto simp: pb_skip_def fixed)
  next
    case 5
    then show ?thesis unfolding ex by (auto simp: pb_skip_def)
  qed
qed

text \<open>A tag splits into field number and wire type without loss.\<close>

lemma tag_join: "push_bit 3 (drop_bit 3 t) OR ucast (ucast (t AND 7) :: u8) = t" for t :: u64
proof (rule bit_word_eqI)
  fix n assume "n < LENGTH(64)"
  have m: "t AND 7 = take_bit 3 t" by (simp add: take_bit_eq_mask mask_eq_exp_minus_1)
  show "bit (push_bit 3 (drop_bit 3 t) OR ucast (ucast (t AND 7) :: u8)) n = bit t n"
    unfolding m using \<open>n < LENGTH(64)\<close> by (cases "n < 3") (auto simp: bit_simps)
qed

lemma field_number_split: "field_number_ok (drop_bit 3 t)"
  using unat_u64_less [of t]
  by (simp add: field_number_ok_def word_less_nat_alt unat_drop_bit_word less_mult_imp_div_less)

lemma tag_wire_type_less: "(ucast (t AND 7 :: u64) :: u8) < 8"
proof -
  have "unat (t AND 7) = unat t mod 8"
    using unat_take_bit_word [of 3 t] by (simp add: take_bit_eq_mask mask_eq_exp_minus_1)
  then have "unat (t AND 7) < 8" by simp
  then show ?thesis by (simp add: word_less_nat_alt unat_ucast_mod)
qed

lemma not_bit_above: "unat w < 2 ^ n \<Longrightarrow> \<not> bit w n" for w :: "'a::len word"
  using bit_iff_odd [of "unat w" n] by (simp add: bit_unsigned_iff)

lemma tag_split:
  fixes f :: u64 and wt :: u8
  assumes "field_number_ok f" and "wt < 8"
  shows "drop_bit 3 (push_bit 3 f OR ucast wt) = f" "ucast ((push_bit 3 f OR ucast wt) AND 7) = wt"
proof -
  have f: "\<not> bit f n" if "61 \<le> n" for n
    using assms(1) that power_increasing [of 61 n "2 :: nat"]
    by (intro not_bit_above) (simp add: field_number_ok_def word_less_nat_alt)
  have wt: "\<not> bit wt n" if "3 \<le> n" for n
    using assms(2) that power_increasing [of 3 n "2 :: nat"]
    by (intro not_bit_above) (simp add: word_less_nat_alt)
  have f': "n < 61" if "bit f n" for n using f [of n] that by linarith
  have wt': "n < 3" if "bit wt n" for n using wt [of n] that by linarith
  show "drop_bit 3 (push_bit 3 f OR ucast wt) = f"
    by (rule bit_word_eqI) (auto simp: bit_simps dest: f' wt')
  have m: "x AND 7 = take_bit 3 x" for x :: u64 by (simp add: take_bit_eq_mask mask_eq_exp_minus_1)
  show "ucast ((push_bit 3 f OR ucast wt) AND 7) = wt"
    unfolding m by (rule bit_word_eqI) (auto simp: bit_simps dest: wt')
qed

lemma pb_tag_end: "length input \<le> idx \<Longrightarrow> pb_tag E input idx = Inr None"
  by (simp add: pb_tag_def)

lemma pb_tag_iff:
  assumes "length input \<le> usize_max"
  shows "pb_tag E input idx = Inr (Some ((f, wt), idx')) \<longleftrightarrow>
     field_number_ok f \<and> wt < 8 \<and> reads input idx (enc_tag f wt) idx'"
proof
  assume "pb_tag E input idx = Inr (Some ((f, wt), idx'))"
  then obtain t where "pb_varint E input idx = Inr (t, idx')"
    and "f = drop_bit 3 t" "wt = ucast (t AND 7)"
    by (auto simp: pb_tag_def result_simps split: if_splits)
  then show "field_number_ok f \<and> wt < 8 \<and> reads input idx (enc_tag f wt) idx'"
    by (simp add: pb_varint_iff [OF assms] enc_tag_def tag_join field_number_split tag_wire_type_less)
next
  assume a: "field_number_ok f \<and> wt < 8 \<and> reads input idx (enc_tag f wt) idx'"
  then have "pb_varint E input idx = Inr (push_bit 3 f OR ucast wt, idx')"
    by (simp add: pb_varint_iff [OF assms] enc_tag_def)
  moreover have "0 < length (enc_tag f wt)" by (simp add: enc_tag_def)
  then have "idx < length input"
    using a reads_le [of input idx "enc_tag f wt" idx'] by (auto simp: reads_def simp del: length_greater_0_conv)
  ultimately show "pb_tag E input idx = Inr (Some ((f, wt), idx'))"
    using tag_split [of f wt] a by (simp only: pb_tag_def rbind.simps prod.case not_le [symmetric] if_False simp_thms)
qed

text \<open>Optional and repeated fields of a message.\<close>

definition opt_field :: "u64 \<Rightarrow> ('a \<Rightarrow> wire_value) \<Rightarrow> 'a option \<Rightarrow> (u64 \<times> wire_value) list" where
  "opt_field f v x = (case x of None \<Rightarrow> [] | Some y \<Rightarrow> [(f, v y)])"

definition rep_field :: "u64 \<Rightarrow> ('a \<Rightarrow> wire_value) \<Rightarrow> 'a list \<Rightarrow> (u64 \<times> wire_value) list" where
  "rep_field f v xs = map (\<lambda>x. (f, v x)) xs"

text \<open>The fields of an encoding that fits in memory are well formed.\<close>

lemma value_ok_LenV:
  assumes "(f, LenV bs) \<in> set fs" and "length (enc_fields fs) \<le> usize_max"
  shows "length bs \<le> usize_max"
proof -
  have "length bs \<le> length (enc_field (f, LenV bs))" by (simp add: enc_field_def)
  also have "\<dots> \<le> length (enc_fields fs)"
    using assms(1) by (auto simp: enc_fields_def length_concat intro!: member_le_sum_list)
  finally show ?thesis using assms(2) by simp
qed

definition plain_fields :: "(u64 \<Rightarrow> bool) \<Rightarrow> (u64 \<times> wire_value) list \<Rightarrow> bool" where
  "plain_fields legal fs \<longleftrightarrow>
     (\<forall>(f, v) \<in> set fs. legal f \<and> field_number_ok f \<and> wire_type v \<in> {0, 2})"

lemma plain_fields_simps [simp]:
  "plain_fields legal []"
  "plain_fields legal ((f, v) # fs) \<longleftrightarrow>
     legal f \<and> field_number_ok f \<and> wire_type v \<in> {0, 2} \<and> plain_fields legal fs"
  "plain_fields legal (xs @ ys) \<longleftrightarrow> plain_fields legal xs \<and> plain_fields legal ys"
  "plain_fields legal (opt_field f w x) \<longleftrightarrow>
     (\<forall>y. x = Some y \<longrightarrow> legal f \<and> field_number_ok f \<and> wire_type (w y) \<in> {0, 2})"
  "plain_fields legal (rep_field f w zs) \<longleftrightarrow>
     (\<forall>y \<in> set zs. legal f \<and> field_number_ok f \<and> wire_type (w y) \<in> {0, 2})"
  by (auto simp: plain_fields_def opt_field_def rep_field_def split: option.splits)

lemma fields_fit:
  assumes "plain_fields legal fs" and "length (enc_fields fs) \<le> usize_max"
  shows "fields_ok legal fs"
proof -
  have "value_ok v" if "(f, v) \<in> set fs" "wire_type v \<in> {0, 2}" for f v
    using value_ok_LenV [of f _ fs] that assms(2) by (cases v) auto
  with assms(1) show ?thesis by (fastforce simp: plain_fields_def fields_ok_def)
qed

section \<open>The contract of the readers\<close>

text \<open>The reader gets past every occurrence of a value in an unknown field.\<close>

definition skips :: "'e wire_reader \<Rightarrow> wire_value \<Rightarrow> bool" where
  "skips R v \<longleftrightarrow>
     (\<forall>input idx idx'. length input \<le> usize_max \<longrightarrow> reads input idx (enc_value v) idx' \<longrightarrow>
        rd_skip R input idx (wire_type v) = Inr idx')"

text \<open>
  All readers skip unknown varints and byte strings; some also skip the fixed-width types,
  which the second locale adds.
\<close>

locale wire_reader_base =
  fixes R :: "'e wire_reader" and legal :: "u64 \<Rightarrow> bool"
  assumes tag_end: "length input \<le> idx \<Longrightarrow> rd_tag R input idx = Inr None"
    and tag_none: "rd_tag R input idx = Inr None \<Longrightarrow> length input \<le> idx"
    and tag_iff: "length input \<le> usize_max \<Longrightarrow>
      rd_tag R input idx = Inr (Some ((f, wt), idx')) \<longleftrightarrow>
        legal f \<and> field_number_ok f \<and> wt < 8 \<and> reads input idx (enc_tag f wt) idx'"
    and varint_iff: "length input \<le> usize_max \<Longrightarrow>
      rd_varint R input idx = Inr (v, idx') \<longleftrightarrow> reads input idx (enc_value (VarintV v)) idx'"
    and len_iff: "length input \<le> usize_max \<Longrightarrow>
      rd_len R input idx = Inr (bs, idx') \<longleftrightarrow> reads input idx (enc_value (LenV bs)) idx'"
    and skip_sound: "length input \<le> usize_max \<Longrightarrow> idx \<le> length input \<Longrightarrow>
      rd_skip R input idx wt = Inr idx' \<Longrightarrow>
        \<exists>v. wire_type v = wt \<and> value_ok v \<and> reads input idx (enc_value v) idx'"
    and skip_plain: "value_ok x \<Longrightarrow> wire_type x \<in> {0, 2} \<Longrightarrow> skips R x"
begin

lemma field_forward:
  assumes "length input \<le> usize_max" and "table_ok table" and "skips R v"
    and "reads input idx (enc_value v) idx'"
  shows "pb_field R table input idx f (wire_type v) m =
     rbind (apply_field table idx (f, v) m) (\<lambda>m'. Inr (idx', m'))"
proof (cases "table f (wire_type v)")
  case None
  have "rd_skip R input idx (wire_type v) = Inr idx'"
    using assms by (simp add: skips_def)
  then show ?thesis by (simp add: pb_field_def None)
next
  case (Some g)
  show ?thesis
  proof (cases g)
    case (OnVarint h)
    with Some assms(2) have "wire_type v = 0" by (auto simp: table_ok_def)
    then obtain w where v: "v = VarintV w" by (cases v) auto
    with assms(4) have "rd_varint R input idx = Inr (w, idx')" by (simp add: varint_iff [OF assms(1)])
    with Some OnVarint v show ?thesis by (simp add: pb_field_def)
  next
    case (OnLen h)
    with Some assms(2) have "wire_type v = 2" unfolding table_ok_def by blast
    then obtain bs where v: "v = LenV bs" by (cases v) auto
    with assms(4) have "rd_len R input idx = Inr (bs, idx')" by (simp add: len_iff [OF assms(1)])
    with Some OnLen v show ?thesis by (simp add: pb_field_def)
  qed
qed

text \<open>Every value that a known or skipped field consumes is a well-formed value.\<close>

lemma field_backward:
  assumes "length input \<le> usize_max" and "table_ok table" and "idx \<le> length input"
    and "pb_field R table input idx f wt m = Inr (idx', m')"
  shows "\<exists>v. wire_type v = wt \<and> value_ok v \<and> reads input idx (enc_value v) idx' \<and>
           apply_field table idx (f, v) m = Inr m'"
proof (cases "table f wt")
  case None
  with assms(4) have "rd_skip R input idx wt = Inr idx'" "m' = m"
    by (auto simp: pb_field_def result_simps)
  with None show ?thesis
    using skip_sound [OF assms(1,3), of wt idx'] by (auto split: wire_value.splits)
next
  case (Some g)
  show ?thesis
  proof (cases g)
    case (OnVarint h)
    with Some assms(4) obtain w where "rd_varint R input idx = Inr (w, idx')" "h idx w m = Inr m'"
      by (auto simp: pb_field_def result_simps)
    moreover have "wt = 0" using Some OnVarint assms(2) by (auto simp: table_ok_def)
    ultimately show ?thesis
      using Some OnVarint by (intro exI [of _ "VarintV w"]) (simp add: varint_iff [OF assms(1)])
  next
    case (OnLen h)
    with Some assms(4) obtain bs where bs: "rd_len R input idx = Inr (bs, idx')" "h idx bs m = Inr m'"
      by (auto simp: pb_field_def result_simps)
    moreover have "wt = 2" using Some OnLen assms(2) unfolding table_ok_def by blast
    moreover have "length bs \<le> usize_max"
      using bs(1) reads_le [of input idx "enc_value (LenV bs)" idx'] assms(1)
      by (auto simp: len_iff [OF assms(1)] reads_def)
    ultimately show ?thesis
      using Some OnLen by (intro exI [of _ "LenV bs"]) (simp add: len_iff [OF assms(1)])
  qed
qed

lemma wire_type_less: "wire_type v < 8"
  by (cases v) simp_all

lemma enc_field_not_nil: "enc_field fv \<noteq> []"
  by (simp add: enc_field_def enc_tag_def)

lemma loop_forward:
  assumes "table_ok table" and "length (pre @ enc_fields fs) \<le> usize_max" and "fields_ok legal fs"
    and "\<forall>(f, v) \<in> set fs. skips R v"
  shows "pb_loop R table (pre @ enc_fields fs) (length pre) m = apply_fields table (length pre) fs m"
  using assms(2,3,4)
proof (induction fs arbitrary: pre m)
  case Nil
  then show ?case by (subst pb_loop.simps) (simp add: enc_fields_def tag_end)
next
  case (Cons fv fs)
  obtain f v where fv: "fv = (f, v)" by force
  let ?input = "pre @ enc_fields (fv # fs)" and ?n = "length pre + length (enc_tag f (wire_type v))"
  have input: "?input = pre @ enc_tag f (wire_type v) @ (enc_value v @ enc_fields fs)"
    by (simp add: enc_fields_def enc_field_def fv)
  have size: "length ?input \<le> usize_max" using Cons.prems(1) .
  have ok: "legal f" "field_number_ok f" "skips R v" "fields_ok legal fs"
    using Cons.prems(2,3) by (auto simp: fields_ok_def fv)
  have tag: "rd_tag R ?input (length pre) = Inr (Some ((f, wire_type v), ?n))"
    unfolding tag_iff [OF size] using ok wire_type_less [of v] reads_append by (simp add: input)
  have "reads ?input ?n (enc_value v) (?n + length (enc_value v))"
    using reads_append [of "pre @ enc_tag f (wire_type v)" "enc_value v" "enc_fields fs"]
    by (simp add: input)
  from field_forward [OF size assms(1) ok(3) this, of f m]
  have field: "pb_field R table ?input ?n f (wire_type v) m =
      rbind (apply_field table ?n (f, v) m) (\<lambda>m'. Inr (?n + length (enc_value v), m'))" .
  have stop: "?n + length (enc_value v) = length (pre @ enc_field fv)" by (simp add: enc_field_def fv)
  have less: "length pre < length (pre @ enc_field fv)" "length pre < length ?input"
    using enc_field_not_nil [of fv] by (simp_all add: enc_fields_def)
  have "pb_loop R table ?input (length pre) m =
      rbind (apply_field table ?n (f, v) m) (\<lambda>m'. pb_loop R table ?input (length (pre @ enc_field fv)) m')"
    using less by (subst pb_loop.simps) (cases "apply_field table ?n (f, v) m"; simp add: tag field stop)
  also have "\<dots> = rbind (apply_field table ?n (f, v) m)
      (\<lambda>m'. apply_fields table (length (pre @ enc_field fv)) fs m')"
    using Cons.IH [of "pre @ enc_field fv"] size ok(4) Cons.prems(3) by (simp add: enc_fields_def)
  finally show ?case by (simp add: fv)
qed

lemma loop_backward:
  assumes "table_ok table" and "length input \<le> usize_max" and "idx \<le> length input"
    and "pb_loop R table input idx m = Inr m'"
  shows "\<exists>fs. fields_ok legal fs \<and> drop idx input = enc_fields fs \<and> apply_fields table idx fs m = Inr m'"
  using assms(3,4)
proof (induction "length input - idx" arbitrary: idx m rule: less_induct)
  case less
  show ?case
  proof (cases "rd_tag R input idx")
    case (Inl e)
    with less.prems show ?thesis by (subst (asm) pb_loop.simps) simp
  next
    case (Inr t)
    show ?thesis
    proof (cases t)
      case None
      with Inr less.prems have "m' = m" "drop idx input = []"
        using tag_none [of input idx] by (auto simp: pb_loop.simps [of R table input idx])
      then show ?thesis by (intro exI [of _ "[]"]) (simp add: fields_ok_def enc_fields_def)
    next
      case (Some p)
      obtain f wt i where p: "p = ((f, wt), i)" by (cases p) force
      have tag: "legal f" "field_number_ok f" "reads input idx (enc_tag f wt) i"
        using Inr Some p tag_iff [OF assms(2)] by auto
      from less.prems(2) Inr Some p obtain j m1 where
        field: "pb_field R table input i f wt m = Inr (j, m1)" and j: "idx < j" "idx < length input"
        and loop: "pb_loop R table input j m1 = Inr m'"
        by (subst (asm) pb_loop.simps) (auto split: sum.splits if_splits)
      from field_backward [OF assms(2,1) reads_le [OF tag(3)] field] obtain v where
        v: "wire_type v = wt" "value_ok v" "reads input i (enc_value v) j"
          "apply_field table i (f, v) m = Inr m1" by blast
      have "length input - j < length input - idx" using j by linarith
      from less.hyps [OF this reads_le [OF v(3)] loop] obtain fs where
        fs: "fields_ok legal fs" "drop j input = enc_fields fs" "apply_fields table j fs m1 = Inr m'" by blast
      have i: "i = idx + length (enc_tag f wt)" and "j = i + length (enc_value v)"
        using tag(3) v(3) by (auto simp: reads_def)
      moreover have "drop idx input = enc_tag f wt @ enc_value v @ enc_fields fs"
        using reads_split [OF tag(3)] reads_split [OF v(3)] fs(2) by simp
      ultimately show ?thesis
        using fs tag v by (intro exI [of _ "(f, v) # fs"])
          (auto simp: fields_ok_def enc_fields_def enc_field_def add.assoc)
    qed
  qed
qed

text \<open>
  Decoding an encoding applies the fields in order; whatever is accepted is the encoding of
  a list of well-formed fields; and the loop always ends.
\<close>

lemma decode_skipped_fields:
  assumes "table_ok table" and "length (enc_fields fs) \<le> usize_max" and "fields_ok legal fs"
    and "\<forall>(f, v) \<in> set fs. skips R v"
  shows "pb_decode R table m (enc_fields fs) = apply_fields table 0 fs m"
  using loop_forward [of table "[]" fs m] assms by (simp add: pb_decode_def)

lemma decode_plain_fields:
  assumes "table_ok table" and "length (enc_fields fs) \<le> usize_max" and "plain_fields legal fs"
  shows "pb_decode R table m (enc_fields fs) = apply_fields table 0 fs m"
proof (rule decode_skipped_fields [OF assms(1,2) fields_fit [OF assms(3,2)]])
  show "\<forall>(f, v) \<in> set fs. skips R v"
    using assms(3) fields_fit [OF assms(3,2)] skip_plain by (fastforce simp: plain_fields_def fields_ok_def)
qed

lemma decode_accepts:
  assumes "table_ok table" and "length input \<le> usize_max" and "pb_decode R table m input = Inr m'"
  shows "\<exists>fs. fields_ok legal fs \<and> input = enc_fields fs \<and> apply_fields table 0 fs m = Inr m'"
  using loop_backward [of table input 0 m m'] assms by (simp add: pb_decode_def)

lemma field_no_fault:
  assumes "table_ok table" and "length input \<le> usize_max"
    and x: "\<And>e. x \<noteq> Err e"
    and varint: "\<And>f wt g off v m. table f wt = Some (OnVarint g) \<Longrightarrow> g off v m \<noteq> Inl x"
    and len: "\<And>f wt g off v m. table f wt = Some (OnLen g) \<Longrightarrow> length v \<le> usize_max \<Longrightarrow>
      g off v m \<noteq> Inl x"
  shows "pb_field R table input idx f wt m \<noteq> Inl x"
proof (cases "table f wt")
  case (Some g)
  show ?thesis
  proof (cases g)
    case (OnVarint h)
    have "\<forall>e. x \<noteq> Err e" using x by simp
    with Some OnVarint varint show ?thesis
      by (cases "rd_varint R input idx") (auto simp: pb_field_def result_simps)
  next
    case (OnLen h)
    have "length v \<le> usize_max" if "rd_len R input idx = Inr (v, j)" for v j
      using that reads_le [of input idx "enc_value (LenV v)" j] assms(2)
      by (auto simp: len_iff [OF assms(2)] reads_def)
    moreover have "\<forall>e. x \<noteq> Err e" using x by simp
    ultimately show ?thesis
      using Some OnLen len by (cases "rd_len R input idx") (auto simp: pb_field_def result_simps)
  qed
qed (cases "rd_skip R input idx wt"; use x in \<open>auto simp: pb_field_def\<close>)

text \<open>The loop ends without a panic on every input when the actions of the table do.\<close>

lemma loop_no_fault:
  assumes "table_ok table" and "length input \<le> usize_max"
    and x: "\<And>e. x \<noteq> Err e"
    and varint: "\<And>f wt g off v m. table f wt = Some (OnVarint g) \<Longrightarrow> g off v m \<noteq> Inl x"
    and len: "\<And>f wt g off v m. table f wt = Some (OnLen g) \<Longrightarrow> length v \<le> usize_max \<Longrightarrow>
      g off v m \<noteq> Inl x"
  shows "pb_loop R table input idx m \<noteq> Inl x"
proof (induction "length input - idx" arbitrary: idx m rule: less_induct)
  case less
  show ?case
  proof (cases "rd_tag R input idx")
    case (Inr t)
    show ?thesis
    proof (cases t)
      case (Some p)
      obtain f wt i where p: "p = ((f, wt), i)" by (cases p) force
      have tag: "reads input idx (enc_tag f wt) i" using Inr Some p tag_iff [OF assms(2)] by auto
      have i: "idx < i" "i \<le> length input"
        using tag reads_le [OF tag] by (auto simp: reads_def enc_tag_def)
      have field: "pb_field R table input i f wt m \<noteq> Inl x"
        using assms by (rule field_no_fault)
      have "pb_loop R table input j m1 \<noteq> Inl x" "idx < j" "idx < length input"
        if "pb_field R table input i f wt m = Inr (j, m1)" for j m1
      proof -
        from field_backward [OF assms(2,1) i(2) that] have "i \<le> j" by (auto simp: reads_def)
        with i show "idx < j" "idx < length input" by auto
        then show "pb_loop R table input j m1 \<noteq> Inl x" by (intro less) linarith
      qed
      with field Inr Some p show ?thesis
        by (subst pb_loop.simps) (auto split: sum.splits)
    qed (subst pb_loop.simps, simp add: Inr)
  next
    case (Inl e)
    then show ?thesis using x [of e] by (subst pb_loop.simps) auto
  qed
qed

text \<open>What every action of the table keeps, a decoded message has.\<close>

lemma decode_keeps:
  assumes "table_ok table" and "length input \<le> usize_max" and "pb_decode R table m input = Inr m'"
    and "P m"
    and varint: "\<And>f wt g off v m m'. table f wt = Some (OnVarint g) \<Longrightarrow> g off v m = Inr m' \<Longrightarrow> P m \<Longrightarrow> P m'"
    and len: "\<And>f wt g off v m m'. table f wt = Some (OnLen g) \<Longrightarrow> length v \<le> usize_max \<Longrightarrow>
      g off v m = Inr m' \<Longrightarrow> P m \<Longrightarrow> P m'"
  shows "P m'"
proof -
  have field: "P m'" if "apply_field table off (f, v) m = Inr m'" "value_ok v" "P m" for off f v m m'
    using that varint [of f "wire_type v"] len [of f "wire_type v"]
    by (cases v; cases "table f (wire_type v)") (auto simp: split: on_field.splits)
  have fields: "P m'" if "apply_fields table off fs m = Inr m'" "fields_ok legal fs" "P m" for off fs m m'
    using that by (induction fs arbitrary: off m) (auto simp: result_simps fields_ok_def dest: field)
  from decode_accepts [OF assms(1-3)] fields \<open>P m\<close> show ?thesis by blast
qed

end

locale wire_reader_laws = wire_reader_base +
  assumes skip_all: "value_ok x \<Longrightarrow> skips R x"
begin

lemma decode_fields:
  assumes "table_ok table" and "length (enc_fields fs) \<le> usize_max" and "fields_ok legal fs"
  shows "pb_decode R table m (enc_fields fs) = apply_fields table 0 fs m"
  using assms skip_all by (intro decode_skipped_fields) (auto simp: fields_ok_def)

lemma decode_accepts_iff:
  assumes "table_ok table" and "length input \<le> usize_max"
  shows "pb_decode R table m input = Inr m' \<longleftrightarrow>
     (\<exists>fs. fields_ok legal fs \<and> input = enc_fields fs \<and> apply_fields table 0 fs m = Inr m')"
  using decode_fields [OF assms(1)] decode_accepts [OF assms] assms(2) by auto

end

text \<open>The shared readers keep the contract, whatever their error values are.\<close>

lemma pb_skips:
  assumes "value_ok v" and "\<And>input idx wt. length input \<le> usize_max \<Longrightarrow> rd_skip R input idx wt = pb_skip E input idx wt"
  shows "skips R v"
  unfolding skips_def
proof (intro allI impI)
  fix input idx idx'
  assume a: "length input \<le> usize_max" "reads input idx (enc_value v) idx'"
  then have "idx \<le> length input" by (auto simp: reads_def)
  with a assms show "rd_skip R input idx (wire_type v) = Inr idx'" by (auto simp: pb_skip_iff)
qed

lemma pb_reader_laws: "wire_reader_laws (pb_reader E) (\<lambda>_. True)"
proof
  show "length input \<le> idx" if "rd_tag (pb_reader E) input idx = Inr None" for input idx
    using that by (auto simp: pb_reader_def pb_tag_def result_simps split: if_splits)
qed (simp_all add: pb_reader_def pb_tag_end pb_tag_iff pb_varint_iff pb_len_iff pb_skip_iff
    pb_skips [where E = E] del: enc_value.simps)

section \<open>Writers\<close>

definition tag_byte :: "u8 \<Rightarrow> u8 \<Rightarrow> u8" where
  "tag_byte field wt = push_bit 3 field OR wt"

definition encode_varint_field :: "bytes \<Rightarrow> u8 \<Rightarrow> u64 \<Rightarrow> bytes" where
  "encode_varint_field out tag value = write_uvarint value (out @ [tag])"

definition encode_bytes_field :: "bytes \<Rightarrow> u8 \<Rightarrow> bytes \<Rightarrow> bytes" where
  "encode_bytes_field out tag data =
     write_uvarint (word_of_nat (length data)) (out @ [tag]) @ data"

lemma tag_byte_enc:
  assumes "f < 16" and "wt < 8"
  shows "enc_tag (ucast f) wt = [tag_byte f wt]"
proof -
  have f: "n < 4" if "bit f n" for n
    using not_bit_above [of f n] that assms(1) power_increasing [of 4 n "2 :: nat"]
    by (cases "n < 4") (auto simp: word_less_nat_alt)
  have wt: "n < 3" if "bit wt n" for n
    using not_bit_above [of wt n] that assms(2) power_increasing [of 3 n "2 :: nat"]
    by (cases "n < 3") (auto simp: word_less_nat_alt)
  have tag: "push_bit 3 (ucast f) OR ucast wt = (ucast (tag_byte f wt) :: u64)"
    unfolding tag_byte_def by (rule bit_word_eqI) (auto simp: bit_simps dest: f wt)
  have "\<not> bit (tag_byte f wt) 7"
    unfolding tag_byte_def by (auto simp: bit_simps dest: f wt)
  then have "unat (tag_byte f wt) < 128" by (simp add: bit_7_u8)
  then have "unat (ucast (tag_byte f wt) :: u64) < 128" by (simp add: unat_ucast_mod)
  then show ?thesis unfolding enc_tag_def tag by (simp add: write_uvarint_nil)
qed

lemma encode_varint_field_enc:
  "f < 16 \<Longrightarrow> encode_varint_field out (tag_byte f 0) v = out @ enc_field (ucast f, VarintV v)"
  using tag_byte_enc [of f 0]
  by (simp add: encode_varint_field_def enc_field_def write_uvarint_acc [of v "out @ [tag_byte f 0]"])

lemma encode_bytes_field_enc:
  "f < 16 \<Longrightarrow> encode_bytes_field out (tag_byte f 2) bs = out @ enc_field (ucast f, LenV bs)"
  using tag_byte_enc [of f 2]
  by (simp add: encode_bytes_field_def enc_field_def
      write_uvarint_acc [of "word_of_nat (length bs)" "out @ [tag_byte f 2]"])

named_theorems pb_enc "encoders as lists of fields"

lemma enc_fields_nil [pb_enc]: "enc_fields [] = []"
  by (simp add: enc_fields_def)

lemma enc_fields_append [pb_enc]: "enc_fields (xs @ ys) = enc_fields xs @ enc_fields ys"
  by (simp add: enc_fields_def)

lemma enc_fields_cons [pb_enc]: "enc_fields (fv # fs) = enc_field fv @ enc_fields fs"
  by (simp add: enc_fields_def)

lemma enc_opt_field [pb_enc]:
  "enc_fields (opt_field f v x) = (case x of None \<Rightarrow> [] | Some y \<Rightarrow> enc_field (f, v y))"
  by (simp add: enc_fields_def opt_field_def split: option.splits)

lemma foldl_rep_field [pb_enc]:
  "foldl (\<lambda>out x. out @ enc_field (f, v x)) out xs = out @ enc_fields (rep_field f v xs)"
  by (induction xs arbitrary: out) (simp_all add: enc_fields_def rep_field_def)

named_theorems pb_apply "effect of lists of fields"

lemma apply_fields_append [pb_apply]:
  "apply_fields table off (xs @ ys) m =
     rbind (apply_fields table off xs m) (apply_fields table (off + length (enc_fields xs)) ys)"
proof (induction xs arbitrary: off m)
  case (Cons fv xs)
  then show ?case
    by (cases "apply_field table (off + length (enc_tag (fst fv) (wire_type (snd fv)))) fv m")
      (simp_all add: enc_fields_def add.assoc)
qed (simp add: enc_fields_def)

lemma apply_opt_field [pb_apply]:
  "apply_fields table off (opt_field f v x) m =
     (case x of None \<Rightarrow> Inr m
      | Some y \<Rightarrow> apply_field table (off + length (enc_tag f (wire_type (v y)))) (f, v y) m)"
proof (cases x)
  case (Some y)
  have "rbind r (apply_fields table off' []) = r" for r off' by (cases r) simp_all
  then show ?thesis by (simp add: opt_field_def Some del: apply_field.simps)
qed (simp add: opt_field_def)

declare apply_field.simps [simp del]
declare apply_field.simps [pb_apply]

lemma apply_rep_field:
  assumes "\<And>off x m. x \<in> set xs \<Longrightarrow> apply_field table off (f, v x) m = Inr (push x m)"
  shows "apply_fields table off (rep_field f v xs) m = Inr (fold push xs m)"
  using assms by (induction xs arbitrary: off m) (simp_all add: rep_field_def)

lemma fields_ok_simps [simp]:
  "fields_ok legal []"
  "fields_ok legal ((f, v) # fs) \<longleftrightarrow> legal f \<and> field_number_ok f \<and> value_ok v \<and> fields_ok legal fs"
  "fields_ok legal (xs @ ys) \<longleftrightarrow> fields_ok legal xs \<and> fields_ok legal ys"
  "fields_ok legal (opt_field f w x) \<longleftrightarrow>
     (\<forall>y. x = Some y \<longrightarrow> legal f \<and> field_number_ok f \<and> value_ok (w y))"
  "fields_ok legal (rep_field f w zs) \<longleftrightarrow>
     (\<forall>y \<in> set zs. legal f \<and> field_number_ok f \<and> value_ok (w y))"
  by (auto simp: fields_ok_def opt_field_def rep_field_def split: option.splits)

lemma small_field_number [simp]: "field_number_ok 1" "field_number_ok (numeral k) \<longleftrightarrow> numeral k < (2 ^ 61 :: u64)"
  by (simp_all add: field_number_ok_def)

end
