(* ===== verification/Relay_Message.thy ===== *)
theory Relay_Message
  imports Protobuf Frame_Codec Rust_Str
begin

text \<open>
  The Circuit Relay v2 messages, \<open>crates/relay/src/message.rs\<close>: hop and stop messages with
  their nested peer, reservation and limit messages. A decoder is a field table for the
  loop of \<open>Protobuf\<close>; the fields a decoder has seen so far are a record.
\<close>

section \<open>Model\<close>

datatype hop_message_type = HopReserve | HopConnect | HopStatus

fun hop_type_code :: "hop_message_type \<Rightarrow> u64" where
  "hop_type_code HopReserve = 0"
| "hop_type_code HopConnect = 1"
| "hop_type_code HopStatus = 2"

definition hop_type_from_u64 :: "u64 \<Rightarrow> hop_message_type option" where
  "hop_type_from_u64 v =
     (if v = 0 then Some HopReserve else if v = 1 then Some HopConnect
      else if v = 2 then Some HopStatus else None)"

datatype stop_message_type = StopConnect | StopStatus

fun stop_type_code :: "stop_message_type \<Rightarrow> u64" where
  "stop_type_code StopConnect = 0"
| "stop_type_code StopStatus = 1"

definition stop_type_from_u64 :: "u64 \<Rightarrow> stop_message_type option" where
  "stop_type_from_u64 v = (if v = 0 then Some StopConnect else if v = 1 then Some StopStatus else None)"

datatype status =
    Unused
  | StatusOk
  | ReservationRefused
  | ResourceLimitExceeded
  | PermissionDenied
  | ConnectionFailed
  | NoReservation
  | MalformedMessage
  | UnexpectedMessage
  | Unknown u64

definition status_from_u64 :: "u64 \<Rightarrow> status" where
  "status_from_u64 v =
     (if v = 100 then StatusOk
      else if v = 200 then ReservationRefused
      else if v = 201 then ResourceLimitExceeded
      else if v = 202 then PermissionDenied
      else if v = 203 then ConnectionFailed
      else if v = 204 then NoReservation
      else if v = 400 then MalformedMessage
      else if v = 401 then UnexpectedMessage
      else if v = 0 then Unused
      else Unknown v)"

fun status_to_u64 :: "status \<Rightarrow> u64" where
  "status_to_u64 Unused = 0"
| "status_to_u64 StatusOk = 100"
| "status_to_u64 ReservationRefused = 200"
| "status_to_u64 ResourceLimitExceeded = 201"
| "status_to_u64 PermissionDenied = 202"
| "status_to_u64 ConnectionFailed = 203"
| "status_to_u64 NoReservation = 204"
| "status_to_u64 MalformedMessage = 400"
| "status_to_u64 UnexpectedMessage = 401"
| "status_to_u64 (Unknown v) = v"

record relay_peer =
  rp_id :: bytes
  rp_addrs :: "bytes list"

record reservation =
  expire :: "u64 option"
  res_addrs :: "bytes list"
  voucher :: "bytes option"

record limit =
  duration :: "u32 option"
  limit_data :: "u64 option"

record hop_message =
  hop_kind :: hop_message_type
  hop_peer :: "relay_peer option"
  hop_reservation :: "reservation option"
  hop_limit :: "limit option"
  hop_status :: "status option"

record stop_message =
  stop_kind :: stop_message_type
  stop_peer :: "relay_peer option"
  stop_limit :: "limit option"
  stop_status :: "status option"

datatype relay_message_error =
    RelayVarint varint_error
  | RelayFieldOverflow nat nat nat
  | RelayUnsupportedWireType u8 nat
  | RelayMissingType
  | RelayInvalidMessageType u64

definition relay_errors :: "relay_message_error pb_errors" where
  "relay_errors =
     \<lparr> err_tail = (\<lambda>_. RelayVarint BufferTooShort), err_varint = RelayVarint,
       err_overflow = RelayFieldOverflow, err_wire = RelayUnsupportedWireType \<rparr>"

definition relay_reader :: "relay_message_error wire_reader" where
  "relay_reader = pb_reader relay_errors"

definition peer_encode :: "relay_peer \<Rightarrow> bytes" where
  "peer_encode p =
     (let out = [];
          out = (if rp_id p = [] then out else encode_bytes_field out (tag_byte 1 2) (rp_id p))
      in foldl (\<lambda>out addr. encode_bytes_field out (tag_byte 2 2) addr) out (rp_addrs p))"

definition peer_table :: "(relay_message_error, relay_peer) field_table" where
  "peer_table f wt =
     (if f = 1 \<and> wt = 2 then Some (OnLen (\<lambda>_ v m. Inr (m\<lparr> rp_id := v \<rparr>)))
      else if f = 2 \<and> wt = 2 then Some (OnLen (\<lambda>_ v m. Inr (m\<lparr> rp_addrs := rp_addrs m @ [v] \<rparr>)))
      else None)"

definition peer_decode :: "bytes \<Rightarrow> relay_message_error fault + relay_peer" where
  "peer_decode input = pb_decode relay_reader peer_table \<lparr> rp_id = [], rp_addrs = [] \<rparr> input"

definition reservation_encode :: "reservation \<Rightarrow> bytes" where
  "reservation_encode r =
     (let out = (case expire r of None \<Rightarrow> [] | Some t \<Rightarrow> encode_varint_field [] (tag_byte 1 0) t);
          out = foldl (\<lambda>out addr. encode_bytes_field out (tag_byte 2 2) addr) out (res_addrs r)
      in case voucher r of None \<Rightarrow> out | Some v \<Rightarrow> encode_bytes_field out (tag_byte 3 2) v)"

definition reservation_table :: "(relay_message_error, reservation) field_table" where
  "reservation_table f wt =
     (if f = 1 \<and> wt = 0 then Some (OnVarint (\<lambda>_ v m. Inr (m\<lparr> expire := Some v \<rparr>)))
      else if f = 2 \<and> wt = 2 then Some (OnLen (\<lambda>_ v m. Inr (m\<lparr> res_addrs := res_addrs m @ [v] \<rparr>)))
      else if f = 3 \<and> wt = 2 then Some (OnLen (\<lambda>_ v m. Inr (m\<lparr> voucher := Some v \<rparr>)))
      else None)"

definition reservation_decode :: "bytes \<Rightarrow> relay_message_error fault + reservation" where
  "reservation_decode input =
     pb_decode relay_reader reservation_table \<lparr> expire = None, res_addrs = [], voucher = None \<rparr> input"

definition limit_encode :: "limit \<Rightarrow> bytes" where
  "limit_encode l =
     (let out = (case duration l of None \<Rightarrow> [] | Some d \<Rightarrow> encode_varint_field [] (tag_byte 1 0) (ucast d))
      in case limit_data l of None \<Rightarrow> out | Some d \<Rightarrow> encode_varint_field out (tag_byte 2 0) d)"

definition limit_table :: "(relay_message_error, limit) field_table" where
  "limit_table f wt =
     (if f = 1 \<and> wt = 0 then Some (OnVarint (\<lambda>_ v m. Inr (m\<lparr> duration := Some (ucast v) \<rparr>)))
      else if f = 2 \<and> wt = 0 then Some (OnVarint (\<lambda>_ v m. Inr (m\<lparr> limit_data := Some v \<rparr>)))
      else None)"

definition limit_decode :: "bytes \<Rightarrow> relay_message_error fault + limit" where
  "limit_decode input = pb_decode relay_reader limit_table \<lparr> duration = None, limit_data = None \<rparr> input"

definition hop_encode :: "hop_message \<Rightarrow> bytes" where
  "hop_encode h =
     (let out = encode_varint_field [] (tag_byte 1 0) (hop_type_code (hop_kind h));
          out = (case hop_peer h of None \<Rightarrow> out
                 | Some p \<Rightarrow> encode_bytes_field out (tag_byte 2 2) (peer_encode p));
          out = (case hop_reservation h of None \<Rightarrow> out
                 | Some r \<Rightarrow> encode_bytes_field out (tag_byte 3 2) (reservation_encode r));
          out = (case hop_limit h of None \<Rightarrow> out
                 | Some l \<Rightarrow> encode_bytes_field out (tag_byte 4 2) (limit_encode l))
      in case hop_status h of None \<Rightarrow> out
         | Some s \<Rightarrow> encode_varint_field out (tag_byte 5 0) (status_to_u64 s))"

record hop_seen =
  seen_hop_kind :: "hop_message_type option"
  seen_hop_peer :: "relay_peer option"
  seen_hop_reservation :: "reservation option"
  seen_hop_limit :: "limit option"
  seen_hop_status :: "status option"

definition hop_table :: "(relay_message_error, hop_seen) field_table" where
  "hop_table f wt =
     (if f = 1 \<and> wt = 0 then
        Some (OnVarint (\<lambda>_ v m.
          rbind (ok_or (hop_type_from_u64 v) (Err (RelayInvalidMessageType v))) (\<lambda>k.
          Inr (m\<lparr> seen_hop_kind := Some k \<rparr>))))
      else if f = 2 \<and> wt = 2 then
        Some (OnLen (\<lambda>_ v m. rbind (peer_decode v) (\<lambda>p. Inr (m\<lparr> seen_hop_peer := Some p \<rparr>))))
      else if f = 3 \<and> wt = 2 then
        Some (OnLen (\<lambda>_ v m. rbind (reservation_decode v) (\<lambda>r. Inr (m\<lparr> seen_hop_reservation := Some r \<rparr>))))
      else if f = 4 \<and> wt = 2 then
        Some (OnLen (\<lambda>_ v m. rbind (limit_decode v) (\<lambda>l. Inr (m\<lparr> seen_hop_limit := Some l \<rparr>))))
      else if f = 5 \<and> wt = 0 then
        Some (OnVarint (\<lambda>_ v m. Inr (m\<lparr> seen_hop_status := Some (status_from_u64 v) \<rparr>)))
      else None)"

definition hop_decode :: "bytes \<Rightarrow> relay_message_error fault + hop_message" where
  "hop_decode input =
     rbind (pb_decode relay_reader hop_table
       \<lparr> seen_hop_kind = None, seen_hop_peer = None, seen_hop_reservation = None,
         seen_hop_limit = None, seen_hop_status = None \<rparr> input) (\<lambda>m.
     rbind (ok_or (seen_hop_kind m) (Err RelayMissingType)) (\<lambda>kind.
     Inr \<lparr> hop_kind = kind, hop_peer = seen_hop_peer m, hop_reservation = seen_hop_reservation m,
           hop_limit = seen_hop_limit m, hop_status = seen_hop_status m \<rparr>))"

definition stop_encode :: "stop_message \<Rightarrow> bytes" where
  "stop_encode s =
     (let out = encode_varint_field [] (tag_byte 1 0) (stop_type_code (stop_kind s));
          out = (case stop_peer s of None \<Rightarrow> out
                 | Some p \<Rightarrow> encode_bytes_field out (tag_byte 2 2) (peer_encode p));
          out = (case stop_limit s of None \<Rightarrow> out
                 | Some l \<Rightarrow> encode_bytes_field out (tag_byte 3 2) (limit_encode l))
      in case stop_status s of None \<Rightarrow> out
         | Some st \<Rightarrow> encode_varint_field out (tag_byte 4 0) (status_to_u64 st))"

record stop_seen =
  seen_stop_kind :: "stop_message_type option"
  seen_stop_peer :: "relay_peer option"
  seen_stop_limit :: "limit option"
  seen_stop_status :: "status option"

definition stop_table :: "(relay_message_error, stop_seen) field_table" where
  "stop_table f wt =
     (if f = 1 \<and> wt = 0 then
        Some (OnVarint (\<lambda>_ v m.
          rbind (ok_or (stop_type_from_u64 v) (Err (RelayInvalidMessageType v))) (\<lambda>k.
          Inr (m\<lparr> seen_stop_kind := Some k \<rparr>))))
      else if f = 2 \<and> wt = 2 then
        Some (OnLen (\<lambda>_ v m. rbind (peer_decode v) (\<lambda>p. Inr (m\<lparr> seen_stop_peer := Some p \<rparr>))))
      else if f = 3 \<and> wt = 2 then
        Some (OnLen (\<lambda>_ v m. rbind (limit_decode v) (\<lambda>l. Inr (m\<lparr> seen_stop_limit := Some l \<rparr>))))
      else if f = 4 \<and> wt = 0 then
        Some (OnVarint (\<lambda>_ v m. Inr (m\<lparr> seen_stop_status := Some (status_from_u64 v) \<rparr>)))
      else None)"

definition stop_decode :: "bytes \<Rightarrow> relay_message_error fault + stop_message" where
  "stop_decode input =
     rbind (pb_decode relay_reader stop_table
       \<lparr> seen_stop_kind = None, seen_stop_peer = None, seen_stop_limit = None,
         seen_stop_status = None \<rparr> input) (\<lambda>m.
     rbind (ok_or (seen_stop_kind m) (Err RelayMissingType)) (\<lambda>kind.
     Inr \<lparr> stop_kind = kind, stop_peer = seen_stop_peer m, stop_limit = seen_stop_limit m,
           stop_status = seen_stop_status m \<rparr>))"

fun status_name :: "status \<Rightarrow> str" where
  "status_name Unused = str_lit ''UNUSED''"
| "status_name StatusOk = str_lit ''OK''"
| "status_name ReservationRefused = str_lit ''RESERVATION_REFUSED''"
| "status_name ResourceLimitExceeded = str_lit ''RESOURCE_LIMIT_EXCEEDED''"
| "status_name PermissionDenied = str_lit ''PERMISSION_DENIED''"
| "status_name ConnectionFailed = str_lit ''CONNECTION_FAILED''"
| "status_name NoReservation = str_lit ''NO_RESERVATION''"
| "status_name MalformedMessage = str_lit ''MALFORMED_MESSAGE''"
| "status_name UnexpectedMessage = str_lit ''UNEXPECTED_MESSAGE''"
| "status_name (Unknown _) = str_lit ''UNKNOWN''"

definition describe_status :: "status \<Rightarrow> str" where
  "describe_status s =
     (if s = StatusOk then str_lit ''OK''
      else status_name s @ str_lit '' ('' @ show_nat (unat (status_to_u64 s)) @ str_lit '')'')"

section \<open>Encoders as lists of fields\<close>

interpretation relay_wire: wire_reader_laws relay_reader "\<lambda>_. True"
  unfolding relay_reader_def by (rule pb_reader_laws)

lemma table_oks [simp]:
  "table_ok peer_table" "table_ok reservation_table" "table_ok limit_table" "table_ok hop_table"
  "table_ok stop_table"
  by (auto simp: table_ok_def peer_table_def reservation_table_def limit_table_def hop_table_def
      stop_table_def split: if_splits)

definition peer_fields :: "relay_peer \<Rightarrow> (u64 \<times> wire_value) list" where
  "peer_fields p =
     opt_field 1 LenV (if rp_id p = [] then None else Some (rp_id p)) @ rep_field 2 LenV (rp_addrs p)"

definition reservation_fields :: "reservation \<Rightarrow> (u64 \<times> wire_value) list" where
  "reservation_fields r =
     opt_field 1 VarintV (expire r) @ rep_field 2 LenV (res_addrs r) @ opt_field 3 LenV (voucher r)"

definition limit_fields :: "limit \<Rightarrow> (u64 \<times> wire_value) list" where
  "limit_fields l = opt_field 1 (VarintV \<circ> ucast) (duration l) @ opt_field 2 VarintV (limit_data l)"

definition hop_fields :: "hop_message \<Rightarrow> (u64 \<times> wire_value) list" where
  "hop_fields h =
     (1, VarintV (hop_type_code (hop_kind h))) # opt_field 2 (LenV \<circ> peer_encode) (hop_peer h) @
     opt_field 3 (LenV \<circ> reservation_encode) (hop_reservation h) @
     opt_field 4 (LenV \<circ> limit_encode) (hop_limit h) @ opt_field 5 (VarintV \<circ> status_to_u64) (hop_status h)"

definition stop_fields :: "stop_message \<Rightarrow> (u64 \<times> wire_value) list" where
  "stop_fields s =
     (1, VarintV (stop_type_code (stop_kind s))) # opt_field 2 (LenV \<circ> peer_encode) (stop_peer s) @
     opt_field 3 (LenV \<circ> limit_encode) (stop_limit s) @ opt_field 4 (VarintV \<circ> status_to_u64) (stop_status s)"

lemmas put_field = encode_varint_field_enc encode_bytes_field_enc

lemma peer_encode_fields: "peer_encode p = enc_fields (peer_fields p)"
  by (simp add: peer_encode_def peer_fields_def put_field pb_enc)

lemma reservation_encode_fields: "reservation_encode r = enc_fields (reservation_fields r)"
  by (simp add: reservation_encode_def reservation_fields_def put_field pb_enc split: option.splits)

lemma limit_encode_fields: "limit_encode l = enc_fields (limit_fields l)"
  by (simp add: limit_encode_def limit_fields_def put_field pb_enc split: option.splits)

lemma hop_encode_fields: "hop_encode h = enc_fields (hop_fields h)"
  by (simp add: hop_encode_def hop_fields_def Let_def put_field pb_enc split: option.splits)

lemma stop_encode_fields: "stop_encode s = enc_fields (stop_fields s)"
  by (simp add: stop_encode_def stop_fields_def Let_def put_field pb_enc split: option.splits)

section \<open>Round trips\<close>

lemma fold_peer_addrs:
  "fold (\<lambda>a m. m\<lparr> rp_addrs := rp_addrs m @ [a] \<rparr>) xs m = m\<lparr> rp_addrs := rp_addrs m @ xs \<rparr>"
  by (induction xs arbitrary: m) simp_all

lemma fold_res_addrs:
  "fold (\<lambda>a m. m\<lparr> res_addrs := res_addrs m @ [a] \<rparr>) xs m = m\<lparr> res_addrs := res_addrs m @ xs \<rparr>"
  by (induction xs arbitrary: m) simp_all

lemma peer_round_trip:
  assumes "length (peer_encode p) \<le> usize_max"
  shows "peer_decode (peer_encode p) = Inr p"
proof -
  have ok: "fields_ok (\<lambda>_. True) (peer_fields p)"
    using assms by (intro fields_fit) (simp add: peer_fields_def, simp add: peer_encode_fields)
  have rep: "apply_fields peer_table off (rep_field 2 LenV xs) m =
      Inr (fold (\<lambda>a m. m\<lparr> rp_addrs := rp_addrs m @ [a] \<rparr>) xs m)" for off xs m
    by (rule apply_rep_field) (simp add: pb_apply peer_table_def)
  have "apply_fields peer_table 0 (peer_fields p) \<lparr> rp_id = [], rp_addrs = [] \<rparr> = Inr p"
    by (simp add: peer_fields_def pb_apply rep fold_peer_addrs peer_table_def)
  with ok assms show ?thesis
    by (simp add: peer_decode_def peer_encode_fields relay_wire.decode_fields)
qed

lemma reservation_round_trip:
  assumes "length (reservation_encode r) \<le> usize_max"
  shows "reservation_decode (reservation_encode r) = Inr r"
proof -
  have ok: "fields_ok (\<lambda>_. True) (reservation_fields r)"
    using assms by (intro fields_fit) (simp add: reservation_fields_def, simp add: reservation_encode_fields)
  have rep: "apply_fields reservation_table off (rep_field 2 LenV xs) m =
      Inr (fold (\<lambda>a m. m\<lparr> res_addrs := res_addrs m @ [a] \<rparr>) xs m)" for off xs m
    by (rule apply_rep_field) (simp add: pb_apply reservation_table_def)
  have "apply_fields reservation_table 0 (reservation_fields r)
      \<lparr> expire = None, res_addrs = [], voucher = None \<rparr> = Inr r"
    by (cases "expire r"; cases "voucher r")
      (simp_all add: reservation_fields_def pb_apply rep fold_res_addrs reservation_table_def)
  with ok assms show ?thesis
    by (simp add: reservation_decode_def reservation_encode_fields relay_wire.decode_fields)
qed

lemma ucast_ucast_u32 [simp]: "ucast (ucast (d :: u32) :: u64) = d"
  by (rule bit_word_eqI) (simp add: bit_simps)

lemma limit_round_trip:
  assumes "length (limit_encode l) \<le> usize_max"
  shows "limit_decode (limit_encode l) = Inr l"
proof -
  have ok: "fields_ok (\<lambda>_. True) (limit_fields l)"
    using assms by (intro fields_fit) (simp add: limit_fields_def, simp add: limit_encode_fields)
  have "apply_fields limit_table 0 (limit_fields l) \<lparr> duration = None, limit_data = None \<rparr> = Inr l"
    by (cases "duration l"; cases "limit_data l") (simp_all add: limit_fields_def pb_apply limit_table_def)
  with ok assms show ?thesis
    by (simp add: limit_decode_def limit_encode_fields relay_wire.decode_fields)
qed

definition status_wf :: "status \<Rightarrow> bool" where
  "status_wf s \<longleftrightarrow> status_from_u64 (status_to_u64 s) = s"

lemma status_wf_known [simp]: "(\<And>v. s \<noteq> Unknown v) \<Longrightarrow> status_wf s"
  by (cases s) (simp_all add: status_wf_def status_from_u64_def)

lemma kind_round_trips [simp]:
  "hop_type_from_u64 (hop_type_code k) = Some k" "stop_type_from_u64 (stop_type_code j) = Some j"
  by (cases k; simp add: hop_type_from_u64_def) (cases j; simp add: stop_type_from_u64_def)

lemma hop_round_trip:
  assumes "length (hop_encode h) \<le> usize_max" and "\<forall>s. hop_status h = Some s \<longrightarrow> status_wf s"
  shows "hop_decode (hop_encode h) = Inr h"
proof -
  have nested: "length bs \<le> usize_max" if "(f, LenV bs) \<in> set (hop_fields h)" for f bs
    using value_ok_LenV [OF that] assms(1) by (simp add: hop_encode_fields)
  have ok: "fields_ok (\<lambda>_. True) (hop_fields h)"
    using assms(1) by (intro fields_fit) (simp add: hop_fields_def, simp add: hop_encode_fields)
  have peer: "peer_decode (peer_encode p) = Inr p" if "hop_peer h = Some p" for p
    using nested [of 2] that by (intro peer_round_trip) (simp add: hop_fields_def opt_field_def)
  have res: "reservation_decode (reservation_encode r) = Inr r" if "hop_reservation h = Some r" for r
    using nested [of 3] that by (intro reservation_round_trip) (simp add: hop_fields_def opt_field_def)
  have lim: "limit_decode (limit_encode l) = Inr l" if "hop_limit h = Some l" for l
    using nested [of 4] that by (intro limit_round_trip) (simp add: hop_fields_def opt_field_def)
  have "apply_fields hop_table 0 (hop_fields h)
      \<lparr> seen_hop_kind = None, seen_hop_peer = None, seen_hop_reservation = None,
        seen_hop_limit = None, seen_hop_status = None \<rparr> =
      Inr \<lparr> seen_hop_kind = Some (hop_kind h), seen_hop_peer = hop_peer h,
            seen_hop_reservation = hop_reservation h, seen_hop_limit = hop_limit h,
            seen_hop_status = hop_status h \<rparr>"
    using assms(2)
    by (cases "hop_peer h"; cases "hop_reservation h"; cases "hop_limit h"; cases "hop_status h")
      (simp_all add: hop_fields_def pb_apply hop_table_def peer res lim status_wf_def)
  with ok assms(1) show ?thesis
    by (simp add: hop_decode_def hop_encode_fields relay_wire.decode_fields)
qed

lemma stop_round_trip:
  assumes "length (stop_encode s) \<le> usize_max" and "\<forall>st. stop_status s = Some st \<longrightarrow> status_wf st"
  shows "stop_decode (stop_encode s) = Inr s"
proof -
  have nested: "length bs \<le> usize_max" if "(f, LenV bs) \<in> set (stop_fields s)" for f bs
    using value_ok_LenV [OF that] assms(1) by (simp add: stop_encode_fields)
  have ok: "fields_ok (\<lambda>_. True) (stop_fields s)"
    using assms(1) by (intro fields_fit) (simp add: stop_fields_def, simp add: stop_encode_fields)
  have peer: "peer_decode (peer_encode p) = Inr p" if "stop_peer s = Some p" for p
    using nested [of 2] that by (intro peer_round_trip) (simp add: stop_fields_def opt_field_def)
  have lim: "limit_decode (limit_encode l) = Inr l" if "stop_limit s = Some l" for l
    using nested [of 3] that by (intro limit_round_trip) (simp add: stop_fields_def opt_field_def)
  have "apply_fields stop_table 0 (stop_fields s)
      \<lparr> seen_stop_kind = None, seen_stop_peer = None, seen_stop_limit = None, seen_stop_status = None \<rparr> =
      Inr \<lparr> seen_stop_kind = Some (stop_kind s), seen_stop_peer = stop_peer s,
            seen_stop_limit = stop_limit s, seen_stop_status = stop_status s \<rparr>"
    using assms(2)
    by (cases "stop_peer s"; cases "stop_limit s"; cases "stop_status s")
      (simp_all add: stop_fields_def pb_apply stop_table_def peer lim status_wf_def)
  with ok assms(1) show ?thesis
    by (simp add: stop_decode_def stop_encode_fields relay_wire.decode_fields)
qed

section \<open>Every input is answered\<close>

lemma nested_no_fault:
  assumes "length input \<le> usize_max" and "\<And>e. x \<noteq> Err e"
  shows "peer_decode input \<noteq> Inl x" "reservation_decode input \<noteq> Inl x" "limit_decode input \<noteq> Inl x"
  unfolding peer_decode_def reservation_decode_def limit_decode_def pb_decode_def
  by (rule relay_wire.loop_no_fault [OF _ assms(1)];
      auto simp: assms(2) peer_table_def reservation_table_def limit_table_def split: if_splits)+

lemma hop_no_fault:
  assumes "length input \<le> usize_max" and "\<And>e. x \<noteq> Err e"
  shows "hop_decode input \<noteq> Inl x"
proof -
  have "pb_decode relay_reader hop_table m input \<noteq> Inl x" for m
    unfolding pb_decode_def using nested_no_fault [OF _ assms(2)]
    by (intro relay_wire.loop_no_fault [OF _ assms(1)])
      (auto simp: assms(2) hop_table_def result_simps split: if_splits)
  then show ?thesis by (auto simp: hop_decode_def result_simps assms(2))
qed

lemma stop_no_fault:
  assumes "length input \<le> usize_max" and "\<And>e. x \<noteq> Err e"
  shows "stop_decode input \<noteq> Inl x"
proof -
  have "pb_decode relay_reader stop_table m input \<noteq> Inl x" for m
    unfolding pb_decode_def using nested_no_fault [OF _ assms(2)]
    by (intro relay_wire.loop_no_fault [OF _ assms(1)])
      (auto simp: assms(2) stop_table_def result_simps split: if_splits)
  then show ?thesis by (auto simp: stop_decode_def result_simps assms(2))
qed

section \<open>Properties\<close>

text \<open>
  C29. The relay message codec. Encoding and then decoding a hop or a stop message gives the
  message back, nested messages included, when the status is one the decoder can name;
  bytes that are accepted are a sequence of well-formed protobuf fields; and every input is
  answered with a message or an error, never with a panic or an endless loop.
\<close>

theorem relay_message_codec:
  assumes "length input \<le> usize_max"
  shows "(length (hop_encode h) \<le> usize_max \<and>
            (\<forall>s. hop_status h = Some s \<longrightarrow> status_from_u64 (status_to_u64 s) = s) \<longrightarrow>
          hop_decode (hop_encode h) = Inr h) \<and>
         (length (stop_encode t) \<le> usize_max \<and>
            (\<forall>s. stop_status t = Some s \<longrightarrow> status_from_u64 (status_to_u64 s) = s) \<longrightarrow>
          stop_decode (stop_encode t) = Inr t) \<and>
         (hop_decode input = Inr h' \<or> stop_decode input = Inr t' \<longrightarrow>
          (\<exists>fs. fields_ok (\<lambda>_. True) fs \<and> input = enc_fields fs)) \<and>
         hop_decode input \<notin> {Inl Panic, Inl Diverge} \<and> stop_decode input \<notin> {Inl Panic, Inl Diverge}"
proof (intro conjI impI)
  assume "hop_decode input = Inr h' \<or> stop_decode input = Inr t'"
  then show "\<exists>fs. fields_ok (\<lambda>_. True) fs \<and> input = enc_fields fs"
  proof
    assume "hop_decode input = Inr h'"
    then obtain m m' where "pb_decode relay_reader hop_table m input = Inr m'"
      by (auto simp: hop_decode_def result_simps)
    from relay_wire.decode_accepts [OF _ assms this] show ?thesis by auto
  next
    assume "stop_decode input = Inr t'"
    then obtain m m' where "pb_decode relay_reader stop_table m input = Inr m'"
      by (auto simp: stop_decode_def result_simps)
    from relay_wire.decode_accepts [OF _ assms this] show ?thesis by auto
  qed
qed (use hop_round_trip [of h] stop_round_trip [of t] hop_no_fault [OF assms] stop_no_fault [OF assms]
    in \<open>auto simp: status_wf_def\<close>)

theorem relay_message_codec_witness:
  "hop_decode (hop_encode \<lparr> hop_kind = HopStatus, hop_peer = Some \<lparr> rp_id = [1, 2], rp_addrs = [[], [3]] \<rparr>,
       hop_reservation = Some \<lparr> expire = Some 1000, res_addrs = [[4]], voucher = None \<rparr>,
       hop_limit = Some \<lparr> duration = Some 120, limit_data = None \<rparr>, hop_status = Some StatusOk \<rparr>) =
     Inr \<lparr> hop_kind = HopStatus, hop_peer = Some \<lparr> rp_id = [1, 2], rp_addrs = [[], [3]] \<rparr>,
       hop_reservation = Some \<lparr> expire = Some 1000, res_addrs = [[4]], voucher = None \<rparr>,
       hop_limit = Some \<lparr> duration = Some 120, limit_data = None \<rparr>, hop_status = Some StatusOk \<rparr>"
  (is "hop_decode (hop_encode ?h) = Inr ?h")
proof -
  have "length (hop_encode ?h) \<le> usize_max"
    by (simp add: hop_encode_def peer_encode_def reservation_encode_def limit_encode_def
        encode_varint_field_def encode_bytes_field_def write_uvarint_acc [of _ "_ @ _"]
        write_uvarint_acc [of _ "_ # _"] length_write_uvarint usize_max_def uvarint_len_unfold)
  then show ?thesis
    using relay_message_codec [of "[]" ?h] by (simp add: status_from_u64_def)
qed

end
