(* ===== verification/Identify_Message.thy ===== *)
theory Identify_Message
  imports Protobuf Varint_Text
begin

text \<open>
  The identify message, \<open>crates/identify/src/message.rs\<close>: six length-delimited fields,
  three of them strings that must be UTF-8.
\<close>

section \<open>Model\<close>

record identify_message =
  im_public_key :: "bytes option"
  im_listen_addrs :: "bytes list"
  im_protocols :: "str list"
  im_observed_addr :: "bytes option"
  im_protocol_version :: "str option"
  im_agent_version :: "str option"

definition identify_message_default :: identify_message where
  "identify_message_default =
     \<lparr> im_public_key = None, im_listen_addrs = [], im_protocols = [], im_observed_addr = None,
       im_protocol_version = None, im_agent_version = None \<rparr>"

datatype identify_message_error =
    IdVarint varint_error
  | IdFieldOverflow nat u64 nat
  | IdInvalidUtf8 u64
  | IdUnsupportedWireType u8 nat

fun identify_message_error_to_string :: "identify_message_error \<Rightarrow> str" where
  "identify_message_error_to_string (IdVarint e) = str_lit ''varint error: '' @ varint_error_to_string e"
| "identify_message_error_to_string (IdFieldOverflow offset len remaining) =
     str_lit ''field at offset '' @ show_nat offset @ str_lit '' has length '' @ show_nat (unat len) @
     str_lit '' but only '' @ show_nat remaining @ str_lit '' bytes remain''"
| "identify_message_error_to_string (IdInvalidUtf8 field_number) =
     str_lit ''invalid UTF-8 in field '' @ show_nat (unat field_number)"
| "identify_message_error_to_string (IdUnsupportedWireType wt offset) =
     str_lit ''unsupported wire type '' @ show_nat (unat wt) @ str_lit '' at offset '' @ show_nat offset"

definition identify_errors :: "identify_message_error pb_errors" where
  "identify_errors =
     \<lparr> err_tail = (\<lambda>idx. IdFieldOverflow idx 0 0), err_varint = IdVarint,
       err_overflow = (\<lambda>offset len remaining. IdFieldOverflow offset (word_of_nat len) remaining),
       err_wire = IdUnsupportedWireType \<rparr>"

definition identify_reader :: "identify_message_error wire_reader" where
  "identify_reader = pb_reader identify_errors"

definition identify_encode :: "identify_message \<Rightarrow> bytes" where
  "identify_encode m =
     (let out = (case im_public_key m of None \<Rightarrow> [] | Some key \<Rightarrow> encode_bytes_field [] (tag_byte 1 2) key);
          out = foldl (\<lambda>out addr. encode_bytes_field out (tag_byte 2 2) addr) out (im_listen_addrs m);
          out = foldl (\<lambda>out proto. encode_bytes_field out (tag_byte 3 2) proto) out (im_protocols m);
          out = (case im_observed_addr m of None \<Rightarrow> out | Some addr \<Rightarrow> encode_bytes_field out (tag_byte 4 2) addr);
          out = (case im_protocol_version m of None \<Rightarrow> out | Some ver \<Rightarrow> encode_bytes_field out (tag_byte 5 2) ver)
      in case im_agent_version m of None \<Rightarrow> out | Some ver \<Rightarrow> encode_bytes_field out (tag_byte 6 2) ver)"

definition utf8_field :: "u64 \<Rightarrow> bytes \<Rightarrow> identify_message_error fault + str" where
  "utf8_field field_number v = (if utf8_valid v then Inr v else Inl (Err (IdInvalidUtf8 field_number)))"

definition identify_table :: "(identify_message_error, identify_message) field_table" where
  "identify_table f wt =
     (if wt \<noteq> 2 then None
      else if f = 1 then Some (OnLen (\<lambda>_ v m. Inr (m\<lparr> im_public_key := Some v \<rparr>)))
      else if f = 2 then Some (OnLen (\<lambda>_ v m. Inr (m\<lparr> im_listen_addrs := im_listen_addrs m @ [v] \<rparr>)))
      else if f = 3 then
        Some (OnLen (\<lambda>_ v m. rbind (utf8_field f v) (\<lambda>s. Inr (m\<lparr> im_protocols := im_protocols m @ [s] \<rparr>))))
      else if f = 4 then Some (OnLen (\<lambda>_ v m. Inr (m\<lparr> im_observed_addr := Some v \<rparr>)))
      else if f = 5 then
        Some (OnLen (\<lambda>_ v m. rbind (utf8_field f v) (\<lambda>s. Inr (m\<lparr> im_protocol_version := Some s \<rparr>))))
      else if f = 6 then
        Some (OnLen (\<lambda>_ v m. rbind (utf8_field f v) (\<lambda>s. Inr (m\<lparr> im_agent_version := Some s \<rparr>))))
      else None)"

definition identify_decode :: "bytes \<Rightarrow> identify_message_error fault + identify_message" where
  "identify_decode input = pb_decode identify_reader identify_table identify_message_default input"

section \<open>Round trip\<close>

interpretation identify_wire: wire_reader_laws identify_reader "\<lambda>_. True"
  unfolding identify_reader_def by (rule pb_reader_laws)

lemma identify_table_ok [simp]: "table_ok identify_table"
  by (auto simp: table_ok_def identify_table_def split: if_splits)

definition identify_fields :: "identify_message \<Rightarrow> (u64 \<times> wire_value) list" where
  "identify_fields m =
     opt_field 1 LenV (im_public_key m) @ rep_field 2 LenV (im_listen_addrs m) @
     rep_field 3 LenV (im_protocols m) @ opt_field 4 LenV (im_observed_addr m) @
     opt_field 5 LenV (im_protocol_version m) @ opt_field 6 LenV (im_agent_version m)"

lemma identify_encode_fields: "identify_encode m = enc_fields (identify_fields m)"
  by (simp add: identify_encode_def identify_fields_def Let_def encode_bytes_field_enc pb_enc
      split: option.splits)

text \<open>The strings of a message are Rust strings.\<close>

definition identify_message_wf :: "identify_message \<Rightarrow> bool" where
  "identify_message_wf m \<longleftrightarrow>
     (\<forall>p \<in> set (im_protocols m). utf8_valid p) \<and>
     (\<forall>v. im_protocol_version m = Some v \<longrightarrow> utf8_valid v) \<and>
     (\<forall>v. im_agent_version m = Some v \<longrightarrow> utf8_valid v)"

lemma fold_listen_addrs:
  "fold (\<lambda>a m. m\<lparr> im_listen_addrs := im_listen_addrs m @ [a] \<rparr>) xs m =
     m\<lparr> im_listen_addrs := im_listen_addrs m @ xs \<rparr>"
  by (induction xs arbitrary: m) simp_all

lemma fold_protocols:
  "fold (\<lambda>a m. m\<lparr> im_protocols := im_protocols m @ [a] \<rparr>) xs m =
     m\<lparr> im_protocols := im_protocols m @ xs \<rparr>"
  by (induction xs arbitrary: m) simp_all

lemma identify_round_trip:
  assumes "length (identify_encode m) \<le> usize_max" and "identify_message_wf m"
  shows "identify_decode (identify_encode m) = Inr m"
proof -
  have ok: "fields_ok (\<lambda>_. True) (identify_fields m)"
    using assms(1) by (intro fields_fit) (simp add: identify_fields_def, simp add: identify_encode_fields)
  have addrs: "apply_fields identify_table off (rep_field 2 LenV xs) x =
      Inr (fold (\<lambda>a m. m\<lparr> im_listen_addrs := im_listen_addrs m @ [a] \<rparr>) xs x)" for off xs x
    by (rule apply_rep_field) (simp add: pb_apply identify_table_def)
  have protos: "apply_fields identify_table off (rep_field 3 LenV (im_protocols m)) x =
      Inr (fold (\<lambda>a m. m\<lparr> im_protocols := im_protocols m @ [a] \<rparr>) (im_protocols m) x)" for off x
    using assms(2)
    by (intro apply_rep_field) (simp add: pb_apply identify_table_def utf8_field_def identify_message_wf_def)
  have "apply_fields identify_table 0 (identify_fields m) identify_message_default = Inr m"
    using assms(2)
    by (cases "im_public_key m"; cases "im_observed_addr m"; cases "im_protocol_version m";
        cases "im_agent_version m")
      (simp_all add: identify_fields_def pb_apply addrs protos fold_listen_addrs fold_protocols
        identify_table_def identify_message_default_def utf8_field_def identify_message_wf_def)
  with ok assms(1) show ?thesis
    by (simp add: identify_decode_def identify_encode_fields identify_wire.decode_fields)
qed

lemma identify_no_fault:
  assumes "length input \<le> usize_max" and "\<And>e. x \<noteq> Err e"
  shows "identify_decode input \<noteq> Inl x"
  unfolding identify_decode_def pb_decode_def
  by (rule identify_wire.loop_no_fault [OF _ assms(1)])
    (auto simp: assms(2) identify_table_def utf8_field_def result_simps split: if_splits)

text \<open>Whatever is decoded holds Rust strings.\<close>

lemma identify_decode_wf:
  assumes "length input \<le> usize_max" and "identify_decode input = Inr m"
  shows "identify_message_wf m"
  using assms(2) unfolding identify_decode_def
  by (rule identify_wire.decode_keeps [OF identify_table_ok assms(1)])
    (auto simp: identify_table_def utf8_field_def identify_message_wf_def identify_message_default_def
      result_simps split: if_splits)

end
