(* ===== verification/Identify.thy ===== *)
theory Identify
  imports Identify_Message Multiaddr Sans_Io Btree_Map
begin

text \<open>
  The identify protocol, \<open>crates/identify/src/lib.rs\<close>: the responder sends one framed
  message and closes; the initiator buffers until the remote closes and decodes. Peer
  identifiers of the map are only compared and are an ordered type parameter; the
  multiaddresses of the advertised sets are those of \<open>Multiaddr\<close>.
\<close>

section \<open>Model\<close>

type_synonym id_stream = u64

definition IDENTIFY_MAX_MESSAGE_SIZE :: nat where
  "IDENTIFY_MAX_MESSAGE_SIZE = 8192"

record identify_config =
  cfg_protocol_version :: str
  cfg_agent_version :: str
  cfg_protocols :: "str list"
  cfg_public_key :: bytes

datatype 'p identify_action =
    IdSend 'p id_stream bytes
  | IdCloseStreamWrite 'p id_stream

datatype 'p identify_event =
    IdReceived 'p identify_message
  | IdErrorEvent 'p id_stream str

datatype ('p, 'mh) identify_input =
    IdRegisterOutbound 'p id_stream "'mh multiaddr option" "'mh multiaddr list"
  | IdRegisterInbound 'p id_stream
  | IdStreamData 'p id_stream bytes
  | IdRemoteWriteClosed 'p id_stream
  | IdStreamClosed 'p id_stream
  | IdRemovePeer 'p
  | IdMigratePeer 'p 'p

datatype 'p identify_output = IdAction "'p identify_action" | IdEvent "'p identify_event"

datatype 'p identify_error = StreamAlreadyRegistered 'p

record peer_identify_state =
  id_outbound :: "id_stream option"
  id_inbound :: "(id_stream, bytes) btree"

definition peer_identify_default :: peer_identify_state where
  "peer_identify_default = \<lparr> id_outbound = None, id_inbound = [] \<rparr>"

record 'p identify_protocol =
  id_peers :: "('p, peer_identify_state) btree"
  id_events :: "'p identify_event list"
  id_actions :: "'p identify_action list"
  id_config :: identify_config

definition identify_new :: "identify_config \<Rightarrow> 'p identify_protocol" where
  "identify_new config = \<lparr> id_peers = [], id_events = [], id_actions = [], id_config = config \<rparr>"

definition add_protocol :: "str \<Rightarrow> 'p identify_protocol \<Rightarrow> 'p identify_protocol" where
  "add_protocol pid s =
     (if pid \<in> set (cfg_protocols (id_config s)) then s
      else s\<lparr> id_config := (id_config s)\<lparr> cfg_protocols := cfg_protocols (id_config s) @ [pid] \<rparr> \<rparr>)"

definition encode_length_prefixed :: "bytes \<Rightarrow> bytes" where
  "encode_length_prefixed payload = write_uvarint (word_of_nat (length payload)) [] @ payload"

definition decode_length_prefixed :: "bytes \<Rightarrow> identify_message_error + bytes" where
  "decode_length_prefixed buf =
     rbind (map_err IdVarint (read_uvarint buf)) (\<lambda>(len, consumed).
     rbind (ok_or (slice_from buf consumed) (IdFieldOverflow consumed len 0)) (\<lambda>body.
       let remaining = length body in
       if remaining < unat len then Inl (IdFieldOverflow consumed len remaining)
       else rbind (ok_or (usize_checked_add consumed (unat len)) (IdFieldOverflow consumed len remaining)) (\<lambda>stop.
            ok_or (slice_get buf consumed stop) (IdFieldOverflow consumed len remaining))))"

definition id_peer_or_default :: "('p, peer_identify_state) btree \<Rightarrow> 'p \<Rightarrow> peer_identify_state" where
  "id_peer_or_default m p = (case bt_get m p of Some st \<Rightarrow> st | None \<Rightarrow> peer_identify_default)"

definition id_set_peer ::
  "'p::linorder \<Rightarrow> peer_identify_state \<Rightarrow> 'p identify_protocol \<Rightarrow> 'p identify_protocol"
where
  "id_set_peer p st s = s\<lparr> id_peers := bt_insert p st (id_peers s) \<rparr>"

definition own_message ::
  "'mh multihash_ops \<Rightarrow> identify_config \<Rightarrow> 'mh multiaddr option \<Rightarrow> 'mh multiaddr list \<Rightarrow> identify_message"
where
  "own_message mh config observed listen =
     \<lparr> im_public_key = Some (cfg_public_key config),
       im_listen_addrs = map (multiaddr_to_bytes mh) listen,
       im_protocols = cfg_protocols config,
       im_observed_addr = map_option (multiaddr_to_bytes mh) observed,
       im_protocol_version = Some (cfg_protocol_version config),
       im_agent_version = Some (cfg_agent_version config) \<rparr>"

definition id_register_outbound ::
  "'mh multihash_ops \<Rightarrow> 'p::linorder \<Rightarrow> id_stream \<Rightarrow> 'mh multiaddr option \<Rightarrow> 'mh multiaddr list \<Rightarrow>
     'p identify_protocol \<Rightarrow> 'p identify_protocol \<times> ('p identify_error + 'p identify_action list)"
where
  "id_register_outbound mh p sid observed listen s =
     (let st = id_peer_or_default (id_peers s) p;
          s = id_set_peer p st s
      in if id_outbound st \<noteq> None then (s, Inl (StreamAlreadyRegistered p))
         else
           let s = id_set_peer p (st\<lparr> id_outbound := Some sid \<rparr>) s;
               encoded = identify_encode (own_message mh (id_config s) observed listen);
               data = encode_length_prefixed encoded
           in (s, Inr [IdSend p sid data, IdCloseStreamWrite p sid]))"

definition id_register_inbound :: "'p::linorder \<Rightarrow> id_stream \<Rightarrow> 'p identify_protocol \<Rightarrow> 'p identify_protocol" where
  "id_register_inbound p sid s =
     (let st = id_peer_or_default (id_peers s) p;
          buf = (case bt_get (id_inbound st) sid of None \<Rightarrow> [] | Some b \<Rightarrow> b)
      in id_set_peer p (st\<lparr> id_inbound := bt_insert sid buf (id_inbound st) \<rparr>) s)"

definition id_on_stream_data ::
  "'p::linorder \<Rightarrow> id_stream \<Rightarrow> bytes \<Rightarrow> 'p identify_protocol \<Rightarrow> 'p identify_protocol"
where
  "id_on_stream_data p sid data s =
     (case bt_get (id_peers s) p of
        None \<Rightarrow> s
      | Some st \<Rightarrow>
          (case bt_get (id_inbound st) sid of
             None \<Rightarrow> s
           | Some old \<Rightarrow>
               let buf = old @ data in
               if IDENTIFY_MAX_MESSAGE_SIZE < length buf then
                 id_set_peer p (st\<lparr> id_inbound := bt_remove sid (id_inbound st) \<rparr>)
                   (s\<lparr> id_events := id_events s @
                      [IdErrorEvent p sid (str_lit ''identify message exceeds maximum size ('' @
                         show_nat (length buf) @ str_lit '' > '' @ show_nat IDENTIFY_MAX_MESSAGE_SIZE @
                         str_lit '')'')] \<rparr>)
               else id_set_peer p (st\<lparr> id_inbound := bt_insert sid buf (id_inbound st) \<rparr>) s))"

definition id_on_remote_write_closed ::
  "'p::linorder \<Rightarrow> id_stream \<Rightarrow> 'p identify_protocol \<Rightarrow>
     'p identify_protocol \<times> ('p identify_error fault + 'p identify_action list)"
where
  "id_on_remote_write_closed p sid s =
     (case bt_get (id_peers s) p of
        None \<Rightarrow> (s, Inr [])
      | Some st \<Rightarrow>
          (case bt_get (id_inbound st) sid of
             None \<Rightarrow> (s, Inr [])
           | Some buf \<Rightarrow>
               let s = id_set_peer p (st\<lparr> id_inbound := bt_remove sid (id_inbound st) \<rparr>) s in
               (case rbind (map_err Err (decode_length_prefixed buf)) identify_decode of
                  Inr info \<Rightarrow>
                    (s\<lparr> id_events := id_events s @ [IdReceived p info] \<rparr>, Inr [IdCloseStreamWrite p sid])
                | Inl (Err e) \<Rightarrow>
                    (s\<lparr> id_events := id_events s @
                       [IdErrorEvent p sid (str_lit ''failed to decode identify message: '' @
                          identify_message_error_to_string e)] \<rparr>, Inr [IdCloseStreamWrite p sid])
                | Inl Panic \<Rightarrow> (s, Inl Panic)
                | Inl Diverge \<Rightarrow> (s, Inl Diverge))))"

definition id_on_stream_closed :: "'p::linorder \<Rightarrow> id_stream \<Rightarrow> 'p identify_protocol \<Rightarrow> 'p identify_protocol" where
  "id_on_stream_closed p sid s =
     (case bt_get (id_peers s) p of
        None \<Rightarrow> s
      | Some st \<Rightarrow>
          let st = (if id_outbound st = Some sid then st\<lparr> id_outbound := None \<rparr> else st);
              st = st\<lparr> id_inbound := bt_remove sid (id_inbound st) \<rparr>
          in if id_outbound st = None \<and> id_inbound st = [] then s\<lparr> id_peers := bt_remove p (id_peers s) \<rparr>
             else id_set_peer p st s)"

definition id_remove_peer :: "'p::linorder \<Rightarrow> 'p identify_protocol \<Rightarrow> 'p identify_protocol" where
  "id_remove_peer p s = s\<lparr> id_peers := bt_remove p (id_peers s) \<rparr>"

fun id_rekey_event :: "'p \<Rightarrow> 'p \<Rightarrow> 'p identify_event \<Rightarrow> 'p identify_event" where
  "id_rekey_event old new (IdReceived p info) = IdReceived (if p = old then new else p) info"
| "id_rekey_event old new (IdErrorEvent p sid e) = IdErrorEvent (if p = old then new else p) sid e"

definition id_migrate_peer :: "'p::linorder \<Rightarrow> 'p \<Rightarrow> 'p identify_protocol \<Rightarrow> 'p identify_protocol" where
  "id_migrate_peer old new s =
     (if old = new then s
      else
        let s = (case bt_get (id_peers s) old of
                   None \<Rightarrow> s
                 | Some st \<Rightarrow> s\<lparr> id_peers := bt_insert new st (bt_remove old (id_peers s)) \<rparr>)
        in s\<lparr> id_events := map (id_rekey_event old new) (id_events s) \<rparr>)"

definition id_queue ::
  "'p identify_protocol \<times> ('p identify_error fault + 'p identify_action list) \<Rightarrow>
     'p identify_protocol \<times> ('p identify_error fault + unit)"
where
  "id_queue r = sbind r (\<lambda>actions s. (s\<lparr> id_actions := id_actions s @ actions \<rparr>, Inr ()))"

fun identify_handle_input ::
  "'mh multihash_ops \<Rightarrow> ('p::linorder, 'mh) identify_input \<Rightarrow> 'p identify_protocol \<Rightarrow>
     'p identify_protocol \<times> ('p identify_error fault + unit)"
where
  "identify_handle_input mh (IdRegisterOutbound p sid observed listen) s =
     (case id_register_outbound mh p sid observed listen s of
        (s', r) \<Rightarrow> id_queue (s', map_err Err r))"
| "identify_handle_input mh (IdRegisterInbound p sid) s = (id_register_inbound p sid s, Inr ())"
| "identify_handle_input mh (IdStreamData p sid data) s = id_queue (id_on_stream_data p sid data s, Inr [])"
| "identify_handle_input mh (IdRemoteWriteClosed p sid) s = id_queue (id_on_remote_write_closed p sid s)"
| "identify_handle_input mh (IdStreamClosed p sid) s = (id_on_stream_closed p sid s, Inr ())"
| "identify_handle_input mh (IdRemovePeer p) s = (id_remove_peer p s, Inr ())"
| "identify_handle_input mh (IdMigratePeer old new) s = (id_migrate_peer old new s, Inr ())"

definition identify_poll_output :: "'p identify_protocol \<Rightarrow> 'p identify_protocol \<times> 'p identify_output option" where
  "identify_poll_output s =
     (case id_actions s of
        action # rest \<Rightarrow> (s\<lparr> id_actions := rest \<rparr>, Some (IdAction action))
      | [] \<Rightarrow>
          (case id_events s of
             event # rest \<Rightarrow> (s\<lparr> id_events := rest \<rparr>, Some (IdEvent event))
           | [] \<Rightarrow> (s, None)))"

definition identify_is_idle :: "'p identify_protocol \<Rightarrow> bool" where
  "identify_is_idle s \<longleftrightarrow> id_actions s = [] \<and> id_events s = []"

section \<open>Outputs\<close>

definition identify_pending :: "'p identify_protocol \<Rightarrow> 'p identify_output list" where
  "identify_pending s = map IdAction (id_actions s) @ map IdEvent (id_events s)"

interpretation identify_out:
  sans_io_outputs identify_poll_output identify_is_idle identify_pending "\<lambda>s. (id_peers s, id_config s)"
  by unfold_locales
    (auto simp: identify_poll_output_def identify_pending_def identify_is_idle_def split: list.splits)

section \<open>Framing\<close>

lemma decode_length_prefixed_encode:
  assumes "length (encode_length_prefixed payload) \<le> usize_max"
  shows "decode_length_prefixed (encode_length_prefixed payload @ extra) = Inr payload"
proof -
  define len :: u64 where "len = word_of_nat (length payload)"
  have buf: "encode_length_prefixed payload @ extra = write_uvarint len [] @ payload @ extra"
    by (simp add: encode_length_prefixed_def len_def)
  have len: "unat len = length payload"
    unfolding len_def using assms by (intro unat_word_of_length) (simp add: encode_length_prefixed_def)
  have read: "read_uvarint (write_uvarint len [] @ payload @ extra) = Inr (len, uvarint_len len)"
    by (auto simp: read_uvarint_iff)
  have fits: "uvarint_len len + length payload \<le> usize_max"
    using assms by (simp add: encode_length_prefixed_def length_write_uvarint len_def [symmetric])
  have "slice_get (write_uvarint len [] @ payload @ extra) (uvarint_len len) (uvarint_len len + length payload) =
      Some payload"
    using slice_get_append [of "write_uvarint len []" payload extra] by (simp add: length_write_uvarint)
  with read fits show ?thesis
    by (simp add: decode_length_prefixed_def buf slice_from_def length_write_uvarint Let_def len usize_checked_add_def)
qed

lemma decode_length_prefixed_length:
  "decode_length_prefixed buf = Inr body \<Longrightarrow> length body \<le> length buf"
  by (auto simp: decode_length_prefixed_def result_simps Let_def slice_get_def split: if_splits)

section \<open>Bounded state\<close>

definition id_inv :: "'p::linorder identify_protocol \<Rightarrow> bool" where
  "id_inv s \<longleftrightarrow> bt_wf (id_peers s) \<and>
     (\<forall>p st. bt_get (id_peers s) p = Some st \<longrightarrow> bt_wf (id_inbound st) \<and>
        (\<forall>sid b. bt_get (id_inbound st) sid = Some b \<longrightarrow> length b \<le> IDENTIFY_MAX_MESSAGE_SIZE))"

definition id_peer_ok :: "peer_identify_state \<Rightarrow> bool" where
  "id_peer_ok st \<longleftrightarrow> bt_wf (id_inbound st) \<and>
     (\<forall>sid b. bt_get (id_inbound st) sid = Some b \<longrightarrow> length b \<le> IDENTIFY_MAX_MESSAGE_SIZE)"

lemma id_inv_alt:
  "id_inv s \<longleftrightarrow> bt_wf (id_peers s) \<and> (\<forall>p st. bt_get (id_peers s) p = Some st \<longrightarrow> id_peer_ok st)"
  by (simp add: id_inv_def id_peer_ok_def)

lemma id_inv_set_peer: "id_inv s \<Longrightarrow> id_peer_ok st \<Longrightarrow> id_inv (id_set_peer p st s)"
  by (simp add: id_inv_alt id_set_peer_def)

lemma id_peer_ok_default: "id_inv s \<Longrightarrow> id_peer_ok (id_peer_or_default (id_peers s) p)"
  by (auto simp: id_inv_alt id_peer_or_default_def peer_identify_default_def id_peer_ok_def split: option.splits)

lemma id_peer_ok_simps [simp]:
  "id_peer_ok (st\<lparr> id_outbound := x \<rparr>) = id_peer_ok st"
  "id_peer_ok st \<Longrightarrow> id_peer_ok (st\<lparr> id_inbound := bt_remove sid (id_inbound st) \<rparr>)"
  "id_peer_ok st \<Longrightarrow> id_peer_ok (st\<lparr> id_outbound := x, id_inbound := bt_remove sid (id_inbound st) \<rparr>)"
  "id_peer_ok st \<Longrightarrow> length buf \<le> IDENTIFY_MAX_MESSAGE_SIZE \<Longrightarrow>
     id_peer_ok (st\<lparr> id_inbound := bt_insert sid buf (id_inbound st) \<rparr>)"
  by (auto simp: id_peer_ok_def)

lemma id_inv_frame [simp]:
  "id_inv (s\<lparr> id_events := e \<rparr>) = id_inv s" "id_inv (s\<lparr> id_actions := a \<rparr>) = id_inv s"
  by (simp_all add: id_inv_def)

lemma id_inv_register_outbound: "id_inv s \<Longrightarrow> id_inv (fst (id_register_outbound mh p sid observed listen s))"
  by (auto simp: id_register_outbound_def Let_def intro!: id_inv_set_peer simp: id_peer_ok_default)

lemma id_inv_register_inbound: "id_inv s \<Longrightarrow> id_inv (id_register_inbound p sid s)"
proof -
  assume inv: "id_inv s"
  define st where "st = id_peer_or_default (id_peers s) p"
  have st: "id_peer_ok st" unfolding st_def using inv by (rule id_peer_ok_default)
  then have "length (case bt_get (id_inbound st) sid of None \<Rightarrow> [] | Some b \<Rightarrow> b) \<le> IDENTIFY_MAX_MESSAGE_SIZE"
    by (auto simp: id_peer_ok_def split: option.splits)
  with inv st show ?thesis
    unfolding id_register_inbound_def Let_def st_def [symmetric] by (intro id_inv_set_peer) auto
qed

lemma id_inv_peer: "id_inv s \<Longrightarrow> bt_get (id_peers s) p = Some st \<Longrightarrow> id_peer_ok st"
  by (simp add: id_inv_alt)

lemma id_inv_on_stream_data: "id_inv s \<Longrightarrow> id_inv (id_on_stream_data p sid data s)"
  by (auto simp: id_on_stream_data_def Let_def intro!: id_inv_set_peer dest: id_inv_peer
      split: option.splits)

lemma id_inv_remote_write_closed:
  assumes "id_inv s"
  shows "id_inv (fst (id_on_remote_write_closed p sid s)) \<and>
         snd (id_on_remote_write_closed p sid s) \<notin> {Inl Panic, Inl Diverge}"
proof (cases "\<exists>st buf. bt_get (id_peers s) p = Some st \<and> bt_get (id_inbound st) sid = Some buf")
  case True
  then obtain st buf where st: "bt_get (id_peers s) p = Some st" "bt_get (id_inbound st) sid = Some buf"
    by blast
  have ok: "id_peer_ok st" using assms st(1) by (rule id_inv_peer)
  have inv: "id_inv (id_set_peer p (st\<lparr> id_inbound := bt_remove sid (id_inbound st) \<rparr>) s)"
    using assms ok by (intro id_inv_set_peer) auto
  have "length buf \<le> usize_max"
    using ok st(2) by (fastforce simp: id_peer_ok_def IDENTIFY_MAX_MESSAGE_SIZE_def usize_max_def)
  then have "rbind (map_err Err (decode_length_prefixed buf)) identify_decode \<noteq> Inl x"
    if "\<And>e. x \<noteq> Err e" for x
    using decode_length_prefixed_length [of buf] identify_no_fault [of _ x] that
    by (cases "decode_length_prefixed buf") (force simp: result_simps)+
  then have "rbind (map_err Err (decode_length_prefixed buf)) identify_decode \<notin> {Inl Panic, Inl Diverge}"
    by blast
  with st inv show ?thesis
    by (auto simp: id_on_remote_write_closed_def Let_def split: sum.splits fault.splits)
next
  case False
  with assms show ?thesis by (auto simp: id_on_remote_write_closed_def split: option.splits)
qed

lemma id_inv_remove: "id_inv s \<Longrightarrow> id_inv (s\<lparr> id_peers := bt_remove p (id_peers s) \<rparr>)"
  by (simp add: id_inv_alt)

lemma id_inv_stream_closed: "id_inv s \<Longrightarrow> id_inv (id_on_stream_closed p sid s)"
  by (auto simp: id_on_stream_closed_def Let_def intro!: id_inv_set_peer id_inv_remove
      dest: id_inv_peer split: option.splits)

lemma id_inv_migrate_peer: "id_inv s \<Longrightarrow> id_inv (id_migrate_peer old new s)"
  by (auto simp: id_inv_alt id_migrate_peer_def Let_def split: option.splits)

inductive identify_reachable ::
  "'mh multihash_ops \<Rightarrow> identify_config \<Rightarrow> 'p::linorder identify_protocol \<Rightarrow> bool" for mh config
where
  id_start: "identify_reachable mh config (identify_new config)"
| id_add: "identify_reachable mh config s \<Longrightarrow> identify_reachable mh config (add_protocol pid s)"
| id_input: "identify_reachable mh config s \<Longrightarrow> identify_reachable mh config (fst (identify_handle_input mh i s))"
| id_poll: "identify_reachable mh config s \<Longrightarrow> identify_reachable mh config (fst (identify_poll_output s))"

lemma id_inv_queue [simp]: "id_inv (fst (id_queue r)) = id_inv (fst r)"
  by (cases r; cases "snd r") (auto simp: id_queue_def)

lemma id_queue_result: "snd (id_queue r) = map_sum id (\<lambda>_. ()) (snd r)"
  by (cases r; cases "snd r") (auto simp: id_queue_def)

lemma id_inv_handle_input:
  assumes "id_inv s"
  shows "id_inv (fst (identify_handle_input mh i s)) \<and>
         snd (identify_handle_input mh i s) \<notin> {Inl Panic, Inl Diverge}"
proof (cases i)
  case (IdRegisterOutbound p sid observed listen)
  obtain s' r where r: "id_register_outbound mh p sid observed listen s = (s', r)" by force
  with id_inv_register_outbound [OF assms, of mh p sid observed listen] show ?thesis
    by (cases r) (simp_all add: IdRegisterOutbound id_queue_result)
next
  case (IdRemoteWriteClosed p sid)
  with id_inv_remote_write_closed [OF assms, of p sid] show ?thesis
    by (cases "snd (id_on_remote_write_closed p sid s)") (simp_all add: id_queue_result)
qed (use assms in \<open>simp_all add: id_queue_result id_inv_register_inbound id_inv_on_stream_data
    id_inv_stream_closed id_remove_peer_def id_inv_remove id_inv_migrate_peer\<close>)

lemma identify_reachable_inv: "identify_reachable mh config s \<Longrightarrow> id_inv s"
proof (induction rule: identify_reachable.induct)
  case (id_poll s)
  have "id_peers (fst (identify_poll_output s)) = id_peers s" using identify_out.poll_core [of s] by simp
  with id_poll show ?case by (simp add: id_inv_def)
qed (simp_all add: id_inv_handle_input, simp_all add: id_inv_def identify_new_def add_protocol_def)

section \<open>Delivery\<close>

fun identify_deliver ::
  "'mh multihash_ops \<Rightarrow> 'p::linorder \<Rightarrow> id_stream \<Rightarrow> bytes list \<Rightarrow> 'p identify_protocol \<Rightarrow> 'p identify_protocol"
where
  "identify_deliver mh p sid [] s = s"
| "identify_deliver mh p sid (data # chunks) s =
     identify_deliver mh p sid chunks (fst (identify_handle_input mh (IdStreamData p sid data) s))"

lemma id_data_step:
  assumes "bt_get (id_peers s) p = Some st" and "bt_get (id_inbound st) sid = Some old"
    and "length (old @ data) \<le> IDENTIFY_MAX_MESSAGE_SIZE"
  shows "fst (identify_handle_input mh (IdStreamData p sid data) s) =
     id_set_peer p (st\<lparr> id_inbound := bt_insert sid (old @ data) (id_inbound st) \<rparr>) s"
  using assms by (simp add: id_on_stream_data_def id_queue_def Let_def id_set_peer_def)

lemma identify_deliver_buffers:
  assumes "bt_get (id_peers s) p = Some st" and "bt_get (id_inbound st) sid = Some old"
    and "length (old @ concat chunks) \<le> IDENTIFY_MAX_MESSAGE_SIZE"
  shows "\<exists>st'. bt_get (id_peers (identify_deliver mh p sid chunks s)) p = Some st' \<and>
     bt_get (id_inbound st') sid = Some (old @ concat chunks) \<and>
     id_events (identify_deliver mh p sid chunks s) = id_events s \<and>
     id_actions (identify_deliver mh p sid chunks s) = id_actions s"
  using assms
proof (induction chunks arbitrary: s st old)
  case (Cons data chunks)
  define st1 where "st1 = st\<lparr> id_inbound := bt_insert sid (old @ data) (id_inbound st) \<rparr>"
  have step: "fst (identify_handle_input mh (IdStreamData p sid data) s) = id_set_peer p st1 s"
    unfolding st1_def using Cons.prems by (intro id_data_step) auto
  have "bt_get (id_peers (id_set_peer p st1 s)) p = Some st1"
    "bt_get (id_inbound st1) sid = Some (old @ data)"
    by (simp_all add: id_set_peer_def st1_def)
  from Cons.IH [OF this] Cons.prems(3) step show ?case by (auto simp: id_set_peer_def)
qed simp

section \<open>Properties\<close>

text \<open>
  C30. An identify exchange delivers the responder's information. When one side answers on a
  fresh stream with its configuration, its observed and its listen addresses, and the other
  side receives these bytes on a registered stream in any chunks and then the end of the
  stream, it reports exactly that information, once, and closes its side; the framed message
  must be within the receiver's limit.
\<close>

theorem identify_exchange:
  assumes "identify_reachable mh ca a" and "identify_reachable mh cb b"
    and "id_outbound (id_peer_or_default (id_peers b) pa) = None"
    and "bt_get (id_peers a) pb = Some sa" and "bt_get (id_inbound sa) x = Some []"
    and "\<forall>s \<in> set (cfg_protocol_version (id_config b) # cfg_agent_version (id_config b) #
             cfg_protocols (id_config b)). utf8_valid s"
    and data: "data = encode_length_prefixed (identify_encode (own_message mh (id_config b) observed listen))"
    and "length data \<le> 8192"
    and "concat chunks = data"
  shows "\<exists>b1 a1.
     identify_handle_input mh (IdRegisterOutbound pa y observed listen) b = (b1, Inr ()) \<and>
     id_actions b1 = id_actions b @ [IdSend pa y data, IdCloseStreamWrite pa y] \<and>
     identify_handle_input mh (IdRemoteWriteClosed pb x) (identify_deliver mh pb x chunks a) = (a1, Inr ()) \<and>
     id_events a1 = id_events a @ [IdReceived pb (own_message mh (id_config b) observed listen)] \<and>
     id_actions a1 = id_actions a @ [IdCloseStreamWrite pb x]"
proof -
  let ?msg = "own_message mh (id_config b) observed listen" and ?a = "identify_deliver mh pb x chunks a"
  have "length ([] @ concat chunks) \<le> IDENTIFY_MAX_MESSAGE_SIZE"
    using assms(8,9) by (simp add: IDENTIFY_MAX_MESSAGE_SIZE_def)
  from identify_deliver_buffers [OF assms(4,5) this, of mh] assms(9) obtain st where
    st: "bt_get (id_peers ?a) pb = Some st" "bt_get (id_inbound st) x = Some data"
      "id_events ?a = id_events a" "id_actions ?a = id_actions a" by auto
  have fits: "length data \<le> usize_max" using assms(8) by (simp add: usize_max_def)
  then have body: "decode_length_prefixed data = Inr (identify_encode ?msg)"
    using decode_length_prefixed_encode [of "identify_encode ?msg" "[]"] by (simp add: data)
  have "identify_message_wf ?msg"
    using assms(6) by (simp add: identify_message_wf_def own_message_def)
  moreover have "length (identify_encode ?msg) \<le> usize_max"
    using fits by (simp add: data encode_length_prefixed_def)
  ultimately have "identify_decode (identify_encode ?msg) = Inr ?msg" by (intro identify_round_trip)
  with body st have "\<exists>a1. identify_handle_input mh (IdRemoteWriteClosed pb x) ?a = (a1, Inr ()) \<and>
     id_events a1 = id_events a @ [IdReceived pb ?msg] \<and>
     id_actions a1 = id_actions a @ [IdCloseStreamWrite pb x]"
    by (simp add: id_on_remote_write_closed_def Let_def id_queue_def id_set_peer_def)
  moreover have "\<exists>b1. identify_handle_input mh (IdRegisterOutbound pa y observed listen) b = (b1, Inr ()) \<and>
     id_actions b1 = id_actions b @ [IdSend pa y data, IdCloseStreamWrite pa y]"
    using assms(3) by (simp add: id_register_outbound_def Let_def id_queue_def id_set_peer_def data)
  ultimately show ?thesis by blast
qed

text \<open>
  C31. Every reachable identify state keeps at most the message limit in each receive
  buffer, and no input makes the protocol panic or loop.
\<close>

theorem identify_bounded:
  assumes "identify_reachable mh config s"
  shows "(\<forall>p st sid b. bt_get (id_peers s) p = Some st \<and> bt_get (id_inbound st) sid = Some b \<longrightarrow>
            length b \<le> 8192) \<and>
         snd (identify_handle_input mh i s) \<notin> {Inl Panic, Inl Diverge}"
  using identify_reachable_inv [OF assms] id_inv_handle_input [of s mh i]
  by (auto simp: id_inv_def IDENTIFY_MAX_MESSAGE_SIZE_def)

theorem identify_bounded_witness:
  "snd (identify_handle_input plain_multihash (IdRemoteWriteClosed 3 5)
     (fst (identify_handle_input plain_multihash (IdStreamData 3 5 [200])
     (fst (identify_handle_input plain_multihash (IdRegisterInbound (3 :: nat) 5)
       (identify_new \<lparr> cfg_protocol_version = [], cfg_agent_version = [], cfg_protocols = [], cfg_public_key = [] \<rparr>))))))
   \<notin> {Inl Panic, Inl Diverge}"
  by (rule conjunct2 [OF identify_bounded [OF identify_reachable.id_input
        [OF identify_reachable.id_input [OF identify_reachable.id_start]]]])

theorem identify_exchange_witness:
  "\<exists>config b1 (a1 :: nat identify_protocol). config = \<lparr> cfg_protocol_version = [104], cfg_agent_version = [105], cfg_protocols = [[47]],
       cfg_public_key = [1, 2] \<rparr> \<and>
     identify_handle_input plain_multihash (IdRegisterOutbound (1 :: nat) 4 None []) (identify_new config) =
       (b1, Inr ()) \<and>
     identify_handle_input plain_multihash (IdRemoteWriteClosed 2 6)
       (identify_deliver plain_multihash 2 6
         [encode_length_prefixed (identify_encode (own_message plain_multihash config None []))]
         (fst (identify_handle_input plain_multihash (IdRegisterInbound 2 6) (identify_new config)))) = (a1, Inr ()) \<and>
     id_events a1 = [IdReceived (2 :: nat) (own_message plain_multihash config None [])]"
proof -
  let ?config = "\<lparr> cfg_protocol_version = [104], cfg_agent_version = [105], cfg_protocols = [[47]],
       cfg_public_key = [1, 2] \<rparr>"
  let ?b = "identify_new ?config :: nat identify_protocol"
  let ?a = "fst (identify_handle_input plain_multihash (IdRegisterInbound (2 :: nat) 6) ?b)"
  let ?data = "encode_length_prefixed (identify_encode (own_message plain_multihash (id_config ?b) None []))"
  have config: "id_config ?b = ?config" by (simp add: identify_new_def)
  have a: "bt_get (id_peers ?a) 2 = Some \<lparr> id_outbound = None, id_inbound = [(6, [])] \<rparr>" "id_events ?a = []"
    by (simp_all add: id_register_inbound_def Let_def id_peer_or_default_def identify_new_def
        peer_identify_default_def id_set_peer_def)
  have size: "length ?data \<le> 8192"
    unfolding config
    by (simp add: encode_length_prefixed_def identify_encode_def own_message_def Let_def encode_bytes_field_def
        write_uvarint_acc [of _ "_ @ _"] write_uvarint_acc [of _ "_ # _"] length_write_uvarint uvarint_len_unfold)
  have none: "id_outbound (id_peer_or_default (id_peers ?b) 1) = None"
    by (simp add: identify_new_def id_peer_or_default_def peer_identify_default_def)
  have empty: "bt_get (id_inbound \<lparr> id_outbound = None, id_inbound = [(6, [])] \<rparr>) 6 = Some []" by simp
  have strings: "\<forall>s \<in> set (cfg_protocol_version (id_config ?b) # cfg_agent_version (id_config ?b) #
      cfg_protocols (id_config ?b)). utf8_valid s"
    unfolding config by simp
  have chunks: "concat [?data] = ?data" by simp
  show ?thesis
    using identify_exchange [OF identify_reachable.id_input [OF identify_reachable.id_start]
        identify_reachable.id_start none a(1) empty strings refl size chunks, of 4]
    unfolding a config by auto
qed

end
