(* ===== verification/Dcutr_Message.thy ===== *)
theory Dcutr_Message
  imports Protobuf
begin

text \<open>
  The \<open>HolePunch\<close> message of DCUtR, \<open>crates/dcutr/src/message.rs\<close>: a type and a list of
  observed addresses.
\<close>

section \<open>Model\<close>

datatype hole_punch_type = HpConnect | HpSync

fun hole_punch_code :: "hole_punch_type \<Rightarrow> u64" where
  "hole_punch_code HpConnect = 100"
| "hole_punch_code HpSync = 300"

definition hole_punch_type_from_u64 :: "u64 \<Rightarrow> hole_punch_type option" where
  "hole_punch_type_from_u64 v = (if v = 100 then Some HpConnect else if v = 300 then Some HpSync else None)"

record hole_punch =
  hp_kind :: hole_punch_type
  hp_obs_addrs :: "bytes list"

datatype dcutr_message_error =
    DcVarint varint_error
  | DcFieldOverflow nat nat nat
  | DcUnsupportedWireType u8 nat
  | DcMissingType
  | DcInvalidType u64

definition dcutr_errors :: "dcutr_message_error pb_errors" where
  "dcutr_errors =
     \<lparr> err_tail = (\<lambda>_. DcVarint BufferTooShort), err_varint = DcVarint,
       err_overflow = DcFieldOverflow, err_wire = DcUnsupportedWireType \<rparr>"

definition dcutr_reader :: "dcutr_message_error wire_reader" where
  "dcutr_reader = pb_reader dcutr_errors"

definition hole_punch_encode :: "hole_punch \<Rightarrow> bytes" where
  "hole_punch_encode h =
     foldl (\<lambda>out addr. encode_bytes_field out (tag_byte 2 2) addr)
       (encode_varint_field [] (tag_byte 1 0) (hole_punch_code (hp_kind h))) (hp_obs_addrs h)"

record hole_punch_seen =
  seen_hp_kind :: "hole_punch_type option"
  seen_hp_addrs :: "bytes list"

definition hole_punch_table :: "(dcutr_message_error, hole_punch_seen) field_table" where
  "hole_punch_table f wt =
     (if f = 1 \<and> wt = 0 then
        Some (OnVarint (\<lambda>_ v m.
          rbind (ok_or (hole_punch_type_from_u64 v) (Err (DcInvalidType v))) (\<lambda>k.
          Inr (m\<lparr> seen_hp_kind := Some k \<rparr>))))
      else if f = 2 \<and> wt = 2 then
        Some (OnLen (\<lambda>_ v m. Inr (m\<lparr> seen_hp_addrs := seen_hp_addrs m @ [v] \<rparr>)))
      else None)"

definition hole_punch_decode :: "bytes \<Rightarrow> dcutr_message_error fault + hole_punch" where
  "hole_punch_decode input =
     rbind (pb_decode dcutr_reader hole_punch_table \<lparr> seen_hp_kind = None, seen_hp_addrs = [] \<rparr> input) (\<lambda>m.
     rbind (ok_or (seen_hp_kind m) (Err DcMissingType)) (\<lambda>kind.
     Inr \<lparr> hp_kind = kind, hp_obs_addrs = seen_hp_addrs m \<rparr>))"

section \<open>Round trip\<close>

interpretation dcutr_wire: wire_reader_laws dcutr_reader "\<lambda>_. True"
  unfolding dcutr_reader_def by (rule pb_reader_laws)

lemma hole_punch_table_ok [simp]: "table_ok hole_punch_table"
  by (auto simp: table_ok_def hole_punch_table_def split: if_splits)

definition hole_punch_fields :: "hole_punch \<Rightarrow> (u64 \<times> wire_value) list" where
  "hole_punch_fields h =
     (1, VarintV (hole_punch_code (hp_kind h))) # rep_field 2 LenV (hp_obs_addrs h)"

lemma hole_punch_encode_fields: "hole_punch_encode h = enc_fields (hole_punch_fields h)"
  by (simp add: hole_punch_encode_def hole_punch_fields_def encode_bytes_field_enc
      encode_varint_field_enc pb_enc)

lemma hole_punch_kind_round_trip [simp]: "hole_punch_type_from_u64 (hole_punch_code k) = Some k"
  by (cases k) (simp_all add: hole_punch_type_from_u64_def)

lemma hole_punch_kind_code: "hole_punch_type_from_u64 v = Some k \<longleftrightarrow> v = hole_punch_code k"
  by (cases k) (auto simp: hole_punch_type_from_u64_def)

lemma fold_hp_addrs:
  "fold (\<lambda>a m. m\<lparr> seen_hp_addrs := seen_hp_addrs m @ [a] \<rparr>) xs m =
     m\<lparr> seen_hp_addrs := seen_hp_addrs m @ xs \<rparr>"
  by (induction xs arbitrary: m) simp_all

lemma hole_punch_round_trip:
  assumes "length (hole_punch_encode h) \<le> usize_max"
  shows "hole_punch_decode (hole_punch_encode h) = Inr h"
proof -
  have ok: "fields_ok (\<lambda>_. True) (hole_punch_fields h)"
    using assms by (intro fields_fit) (simp add: hole_punch_fields_def, simp add: hole_punch_encode_fields)
  have addrs: "apply_fields hole_punch_table off (rep_field 2 LenV xs) x =
      Inr (fold (\<lambda>a m. m\<lparr> seen_hp_addrs := seen_hp_addrs m @ [a] \<rparr>) xs x)" for off xs x
    by (rule apply_rep_field) (simp add: pb_apply hole_punch_table_def)
  have "apply_fields hole_punch_table 0 (hole_punch_fields h) \<lparr> seen_hp_kind = None, seen_hp_addrs = [] \<rparr> =
      Inr \<lparr> seen_hp_kind = Some (hp_kind h), seen_hp_addrs = hp_obs_addrs h \<rparr>"
    by (simp add: hole_punch_fields_def pb_apply addrs fold_hp_addrs hole_punch_table_def)
  with ok assms show ?thesis
    by (simp add: hole_punch_decode_def hole_punch_encode_fields dcutr_wire.decode_fields)
qed

lemma hole_punch_no_fault:
  assumes "length input \<le> usize_max" and "\<And>e. x \<noteq> Err e"
  shows "hole_punch_decode input \<noteq> Inl x"
proof -
  have "pb_decode dcutr_reader hole_punch_table m input \<noteq> Inl x" for m
    unfolding pb_decode_def
    by (rule dcutr_wire.loop_no_fault [OF _ assms(1)])
      (auto simp: assms(2) hole_punch_table_def result_simps split: if_splits)
  then show ?thesis by (auto simp: hole_punch_decode_def result_simps assms(2))
qed

end
