(* ===== verification/Pubsub_Message.thy ===== *)
theory Pubsub_Message
  imports Protobuf Rust_Str
begin

text \<open>
  The pubsub RPC and its nested messages, \<open>crates/pubsub/src/message.rs\<close>: subscriptions,
  published messages and the gossipsub control messages. A published message keeps the bytes
  it was decoded from, so that forwarding repeats them. The tag reader refuses field number
  zero.
\<close>

section \<open>Model\<close>

record sub_opts =
  so_subscribe :: "bool option"
  so_topic_id :: "str option"

record raw_message =
  rm_raw :: bytes
  rm_from :: "bytes option"
  rm_data :: "bytes option"
  rm_seqno :: "bytes option"
  rm_topic_ids :: "str list"
  rm_signature :: "bytes option"
  rm_key :: "bytes option"

record control_ihave =
  ih_topic_id :: "str option"
  ih_message_ids :: "bytes list"

record control_iwant =
  iw_message_ids :: "bytes list"

record control_graft =
  gr_topic_id :: "str option"

record px_peer_info =
  px_peer_id :: "bytes option"
  px_signed_peer_record :: "bytes option"

record control_prune =
  pr_topic_id :: "str option"
  pr_peers :: "px_peer_info list"
  pr_backoff :: "u64 option"

record control_message =
  cm_ihave :: "control_ihave list"
  cm_iwant :: "control_iwant list"
  cm_graft :: "control_graft list"
  cm_prune :: "control_prune list"

record rpc =
  rpc_subscriptions :: "sub_opts list"
  rpc_publish :: "raw_message list"
  rpc_control :: "control_message option"

datatype pubsub_wire_error =
    PsVarint varint_error
  | PsFieldOverflow nat nat nat
  | PsUnsupportedWireType u8 nat
  | PsInvalidUtf8 nat
  | PsInvalidFieldNumber nat

definition ps_varint_tail :: "bytes \<Rightarrow> nat \<Rightarrow> pubsub_wire_error + bytes" where
  "ps_varint_tail input idx = ok_or (slice_from input idx) (PsVarint BufferTooShort)"

definition ps_read_varint :: "bytes \<Rightarrow> nat \<Rightarrow> pubsub_wire_error + (u64 \<times> nat)" where
  "ps_read_varint input idx =
     rbind (ps_varint_tail input idx) (\<lambda>remaining.
     rbind (map_err PsVarint (read_uvarint remaining)) (\<lambda>(value, used). Inr (value, idx + used)))"

definition ps_read_tag :: "bytes \<Rightarrow> nat \<Rightarrow> pubsub_wire_error + ((u64 \<times> u8) \<times> nat) option" where
  "ps_read_tag input idx =
     (if length input \<le> idx then Inr None
      else rbind (ps_read_varint input idx) (\<lambda>(tag_value, idx').
        if drop_bit 3 tag_value = 0 then Inl (PsInvalidFieldNumber idx)
        else Inr (Some ((drop_bit 3 tag_value, ucast (tag_value AND 7)), idx'))))"

definition ps_read_len :: "bytes \<Rightarrow> nat \<Rightarrow> pubsub_wire_error + (bytes \<times> nat)" where
  "ps_read_len input idx =
     rbind (ps_read_varint input idx) (\<lambda>(length_u64, idx).
       let len = unat length_u64; remaining = length input - idx in
       if remaining < len then Inl (PsFieldOverflow idx len remaining)
       else rbind (ok_or (usize_checked_add idx len) (PsFieldOverflow idx len remaining)) (\<lambda>stop.
            rbind (ok_or (slice_get input idx stop) (PsFieldOverflow idx len remaining)) (\<lambda>value.
            Inr (value, stop))))"

definition ps_skip :: "bytes \<Rightarrow> nat \<Rightarrow> u8 \<Rightarrow> pubsub_wire_error + nat" where
  "ps_skip input idx wt =
     (if wt = 0 then rbind (ps_read_varint input idx) (\<lambda>(_, idx'). Inr idx')
      else if wt = 2 then rbind (ps_read_len input idx) (\<lambda>(_, idx'). Inr idx')
      else if wt = 5 then
        (if length input < idx + 4 then Inl (PsFieldOverflow idx 4 (length input - idx)) else Inr (idx + 4))
      else if wt = 1 then
        (if length input < idx + 8 then Inl (PsFieldOverflow idx 8 (length input - idx)) else Inr (idx + 8))
      else Inl (PsUnsupportedWireType wt idx))"

definition pubsub_reader :: "pubsub_wire_error wire_reader" where
  "pubsub_reader =
     \<lparr> rd_tag = ps_read_tag, rd_varint = ps_read_varint, rd_len = ps_read_len, rd_skip = ps_skip \<rparr>"

text \<open>\<open>read_string\<close>: the bytes must be UTF-8; the error carries the offset before the length.\<close>

definition ps_string :: "nat \<Rightarrow> bytes \<Rightarrow> pubsub_wire_error fault + str" where
  "ps_string offset v = (if utf8_valid v then Inr v else Inl (Err (PsInvalidUtf8 offset)))"

definition put_opt_bytes :: "u8 \<Rightarrow> bytes option \<Rightarrow> bytes \<Rightarrow> bytes" where
  "put_opt_bytes field x out =
     (case x of None \<Rightarrow> out | Some v \<Rightarrow> encode_bytes_field out (tag_byte field 2) v)"

definition put_opt_varint :: "u8 \<Rightarrow> u64 option \<Rightarrow> bytes \<Rightarrow> bytes" where
  "put_opt_varint field x out =
     (case x of None \<Rightarrow> out | Some v \<Rightarrow> encode_varint_field out (tag_byte field 0) v)"

definition put_each :: "u8 \<Rightarrow> ('a \<Rightarrow> bytes) \<Rightarrow> 'a list \<Rightarrow> bytes \<Rightarrow> bytes" where
  "put_each field enc xs out = foldl (\<lambda>out x. encode_bytes_field out (tag_byte field 2) (enc x)) out xs"

definition sub_opts_encode :: "sub_opts \<Rightarrow> bytes" where
  "sub_opts_encode o' =
     put_opt_bytes 2 (so_topic_id o')
       (put_opt_varint 1 (map_option (\<lambda>b. if b then 1 else 0) (so_subscribe o')) [])"

definition sub_opts_table :: "(pubsub_wire_error, sub_opts) field_table" where
  "sub_opts_table f wt =
     (if f = 1 \<and> wt = 0 then Some (OnVarint (\<lambda>_ v m. Inr (m\<lparr> so_subscribe := Some (v \<noteq> 0) \<rparr>)))
      else if f = 2 \<and> wt = 2 then
        Some (OnLen (\<lambda>off v m. rbind (ps_string off v) (\<lambda>s. Inr (m\<lparr> so_topic_id := Some s \<rparr>))))
      else None)"

definition sub_opts_decode :: "bytes \<Rightarrow> pubsub_wire_error fault + sub_opts" where
  "sub_opts_decode input =
     pb_decode pubsub_reader sub_opts_table \<lparr> so_subscribe = None, so_topic_id = None \<rparr> input"

definition encode_message_fields :: "bool \<Rightarrow> raw_message \<Rightarrow> bytes" where
  "encode_message_fields include_signature m =
     (let out = put_opt_bytes 1 (rm_from m) [];
          out = put_opt_bytes 2 (rm_data m) out;
          out = put_opt_bytes 3 (rm_seqno m) out;
          out = put_each 4 (\<lambda>t. t) (rm_topic_ids m) out
      in if include_signature then put_opt_bytes 6 (rm_key m) (put_opt_bytes 5 (rm_signature m) out)
         else out)"

definition to_wire :: "raw_message \<Rightarrow> bytes" where
  "to_wire m = (if rm_raw m = [] then encode_message_fields True m else rm_raw m)"

definition raw_message_table :: "(pubsub_wire_error, raw_message) field_table" where
  "raw_message_table f wt =
     (if wt \<noteq> 2 then None
      else if f = 1 then Some (OnLen (\<lambda>_ v m. Inr (m\<lparr> rm_from := Some v \<rparr>)))
      else if f = 2 then Some (OnLen (\<lambda>_ v m. Inr (m\<lparr> rm_data := Some v \<rparr>)))
      else if f = 3 then Some (OnLen (\<lambda>_ v m. Inr (m\<lparr> rm_seqno := Some v \<rparr>)))
      else if f = 4 then
        Some (OnLen (\<lambda>off v m. rbind (ps_string off v) (\<lambda>s. Inr (m\<lparr> rm_topic_ids := rm_topic_ids m @ [s] \<rparr>))))
      else if f = 5 then Some (OnLen (\<lambda>_ v m. Inr (m\<lparr> rm_signature := Some v \<rparr>)))
      else if f = 6 then Some (OnLen (\<lambda>_ v m. Inr (m\<lparr> rm_key := Some v \<rparr>)))
      else None)"

definition raw_message_default :: raw_message where
  "raw_message_default =
     \<lparr> rm_raw = [], rm_from = None, rm_data = None, rm_seqno = None, rm_topic_ids = [],
       rm_signature = None, rm_key = None \<rparr>"

definition raw_message_decode :: "bytes \<Rightarrow> pubsub_wire_error fault + raw_message" where
  "raw_message_decode input =
     pb_decode pubsub_reader raw_message_table (raw_message_default\<lparr> rm_raw := input \<rparr>) input"

definition ihave_encode :: "control_ihave \<Rightarrow> bytes" where
  "ihave_encode c = put_each 2 (\<lambda>i. i) (ih_message_ids c) (put_opt_bytes 1 (ih_topic_id c) [])"

definition ihave_table :: "(pubsub_wire_error, control_ihave) field_table" where
  "ihave_table f wt =
     (if f = 1 \<and> wt = 2 then
        Some (OnLen (\<lambda>off v m. rbind (ps_string off v) (\<lambda>s. Inr (m\<lparr> ih_topic_id := Some s \<rparr>))))
      else if f = 2 \<and> wt = 2 then
        Some (OnLen (\<lambda>_ v m. Inr (m\<lparr> ih_message_ids := ih_message_ids m @ [v] \<rparr>)))
      else None)"

definition ihave_decode :: "bytes \<Rightarrow> pubsub_wire_error fault + control_ihave" where
  "ihave_decode input =
     pb_decode pubsub_reader ihave_table \<lparr> ih_topic_id = None, ih_message_ids = [] \<rparr> input"

definition iwant_encode :: "control_iwant \<Rightarrow> bytes" where
  "iwant_encode c = put_each 1 (\<lambda>i. i) (iw_message_ids c) []"

definition iwant_table :: "(pubsub_wire_error, control_iwant) field_table" where
  "iwant_table f wt =
     (if f = 1 \<and> wt = 2 then
        Some (OnLen (\<lambda>_ v m. Inr (m\<lparr> iw_message_ids := iw_message_ids m @ [v] \<rparr>)))
      else None)"

definition iwant_decode :: "bytes \<Rightarrow> pubsub_wire_error fault + control_iwant" where
  "iwant_decode input = pb_decode pubsub_reader iwant_table \<lparr> iw_message_ids = [] \<rparr> input"

definition graft_encode :: "control_graft \<Rightarrow> bytes" where
  "graft_encode c = put_opt_bytes 1 (gr_topic_id c) []"

definition graft_table :: "(pubsub_wire_error, control_graft) field_table" where
  "graft_table f wt =
     (if f = 1 \<and> wt = 2 then
        Some (OnLen (\<lambda>off v m. rbind (ps_string off v) (\<lambda>s. Inr (m\<lparr> gr_topic_id := Some s \<rparr>))))
      else None)"

definition graft_decode :: "bytes \<Rightarrow> pubsub_wire_error fault + control_graft" where
  "graft_decode input = pb_decode pubsub_reader graft_table \<lparr> gr_topic_id = None \<rparr> input"

definition px_encode :: "px_peer_info \<Rightarrow> bytes" where
  "px_encode p = put_opt_bytes 2 (px_signed_peer_record p) (put_opt_bytes 1 (px_peer_id p) [])"

definition px_table :: "(pubsub_wire_error, px_peer_info) field_table" where
  "px_table f wt =
     (if f = 1 \<and> wt = 2 then Some (OnLen (\<lambda>_ v m. Inr (m\<lparr> px_peer_id := Some v \<rparr>)))
      else if f = 2 \<and> wt = 2 then Some (OnLen (\<lambda>_ v m. Inr (m\<lparr> px_signed_peer_record := Some v \<rparr>)))
      else None)"

definition px_decode :: "bytes \<Rightarrow> pubsub_wire_error fault + px_peer_info" where
  "px_decode input =
     pb_decode pubsub_reader px_table \<lparr> px_peer_id = None, px_signed_peer_record = None \<rparr> input"

definition prune_encode :: "control_prune \<Rightarrow> bytes" where
  "prune_encode c =
     put_opt_varint 3 (pr_backoff c) (put_each 2 px_encode (pr_peers c) (put_opt_bytes 1 (pr_topic_id c) []))"

definition prune_table :: "(pubsub_wire_error, control_prune) field_table" where
  "prune_table f wt =
     (if f = 1 \<and> wt = 2 then
        Some (OnLen (\<lambda>off v m. rbind (ps_string off v) (\<lambda>s. Inr (m\<lparr> pr_topic_id := Some s \<rparr>))))
      else if f = 2 \<and> wt = 2 then
        Some (OnLen (\<lambda>_ v m. rbind (px_decode v) (\<lambda>p. Inr (m\<lparr> pr_peers := pr_peers m @ [p] \<rparr>))))
      else if f = 3 \<and> wt = 0 then Some (OnVarint (\<lambda>_ v m. Inr (m\<lparr> pr_backoff := Some v \<rparr>)))
      else None)"

definition prune_decode :: "bytes \<Rightarrow> pubsub_wire_error fault + control_prune" where
  "prune_decode input =
     pb_decode pubsub_reader prune_table \<lparr> pr_topic_id = None, pr_peers = [], pr_backoff = None \<rparr> input"

definition control_encode :: "control_message \<Rightarrow> bytes" where
  "control_encode c =
     put_each 4 prune_encode (cm_prune c) (put_each 3 graft_encode (cm_graft c)
       (put_each 2 iwant_encode (cm_iwant c) (put_each 1 ihave_encode (cm_ihave c) [])))"

definition control_table :: "(pubsub_wire_error, control_message) field_table" where
  "control_table f wt =
     (if wt \<noteq> 2 then None
      else if f = 1 then
        Some (OnLen (\<lambda>_ v m. rbind (ihave_decode v) (\<lambda>c. Inr (m\<lparr> cm_ihave := cm_ihave m @ [c] \<rparr>))))
      else if f = 2 then
        Some (OnLen (\<lambda>_ v m. rbind (iwant_decode v) (\<lambda>c. Inr (m\<lparr> cm_iwant := cm_iwant m @ [c] \<rparr>))))
      else if f = 3 then
        Some (OnLen (\<lambda>_ v m. rbind (graft_decode v) (\<lambda>c. Inr (m\<lparr> cm_graft := cm_graft m @ [c] \<rparr>))))
      else if f = 4 then
        Some (OnLen (\<lambda>_ v m. rbind (prune_decode v) (\<lambda>c. Inr (m\<lparr> cm_prune := cm_prune m @ [c] \<rparr>))))
      else None)"

definition control_default :: control_message where
  "control_default = \<lparr> cm_ihave = [], cm_iwant = [], cm_graft = [], cm_prune = [] \<rparr>"

definition control_merge_from :: "bytes \<Rightarrow> control_message \<Rightarrow> pubsub_wire_error fault + control_message" where
  "control_merge_from input c = pb_decode pubsub_reader control_table c input"

definition control_decode :: "bytes \<Rightarrow> pubsub_wire_error fault + control_message" where
  "control_decode input = control_merge_from input control_default"

definition rpc_encode :: "rpc \<Rightarrow> bytes" where
  "rpc_encode r =
     (let out = put_each 1 sub_opts_encode (rpc_subscriptions r) [];
          out = put_each 2 to_wire (rpc_publish r) out
      in case rpc_control r of None \<Rightarrow> out
         | Some c \<Rightarrow> encode_bytes_field out (tag_byte 3 2) (control_encode c))"

definition rpc_table :: "bool \<Rightarrow> (pubsub_wire_error, rpc) field_table" where
  "rpc_table with_control f wt =
     (if wt \<noteq> 2 then None
      else if f = 1 then
        Some (OnLen (\<lambda>_ v m.
          rbind (sub_opts_decode v) (\<lambda>s. Inr (m\<lparr> rpc_subscriptions := rpc_subscriptions m @ [s] \<rparr>))))
      else if f = 2 then
        Some (OnLen (\<lambda>_ v m.
          rbind (raw_message_decode v) (\<lambda>p. Inr (m\<lparr> rpc_publish := rpc_publish m @ [p] \<rparr>))))
      else if f = 3 then
        Some (OnLen (\<lambda>_ v m.
          if with_control then
            rbind (control_merge_from v (case rpc_control m of None \<Rightarrow> control_default | Some c \<Rightarrow> c))
              (\<lambda>c. Inr (m\<lparr> rpc_control := Some c \<rparr>))
          else Inr m))
      else None)"

definition rpc_decode_inner :: "bool \<Rightarrow> bytes \<Rightarrow> pubsub_wire_error fault + rpc" where
  "rpc_decode_inner with_control input =
     pb_decode pubsub_reader (rpc_table with_control)
       \<lparr> rpc_subscriptions = [], rpc_publish = [], rpc_control = None \<rparr> input"

definition rpc_decode :: "bytes \<Rightarrow> pubsub_wire_error fault + rpc" where
  "rpc_decode input = rpc_decode_inner True input"

definition rpc_decode_floodsub :: "bytes \<Rightarrow> pubsub_wire_error fault + rpc" where
  "rpc_decode_floodsub input = rpc_decode_inner False input"

section \<open>The readers\<close>

definition ps_errors :: "pubsub_wire_error pb_errors" where
  "ps_errors =
     \<lparr> err_tail = (\<lambda>_. PsVarint BufferTooShort), err_varint = PsVarint,
       err_overflow = PsFieldOverflow, err_wire = PsUnsupportedWireType \<rparr>"

lemma ps_errors_sel:
  "err_overflow ps_errors = PsFieldOverflow" "err_varint ps_errors = PsVarint"
  "err_wire ps_errors = PsUnsupportedWireType" "err_tail ps_errors = (\<lambda>_. PsVarint BufferTooShort)"
  by (simp_all add: ps_errors_def)

text \<open>On inputs that fit in memory the unchecked cursor arithmetic agrees with the checked one.\<close>

lemma ps_read_varint_eq:
  assumes "length input \<le> usize_max"
  shows "ps_read_varint input idx = pb_varint ps_errors input idx"
proof (cases "slice_from input idx")
  case None
  then show ?thesis by (simp add: ps_read_varint_def ps_varint_tail_def pb_varint_def ps_errors_def)
next
  case (Some rest)
  then have idx: "idx \<le> length input" "rest = drop idx input"
    by (auto simp: slice_from_def split: if_splits)
  show ?thesis
  proof (cases "read_uvarint rest")
    case (Inl e)
    with Some show ?thesis
      by (simp add: ps_read_varint_def ps_varint_tail_def pb_varint_def ps_errors_def)
  next
    case (Inr p)
    obtain v n where p: "p = (v, n)" by force
    have "idx + n \<le> length input"
      using Inr p idx read_uvarint_at [OF idx(1), of v n] by (auto dest: reads_le)
    then have "pb_advance ps_errors input idx n = Inr (idx + n)"
      by (simp add: pb_advance_iff [OF assms])
    with Some Inr p show ?thesis
      by (simp add: ps_read_varint_def ps_varint_tail_def pb_varint_def)
  qed
qed

lemma ps_read_len_eq: "length input \<le> usize_max \<Longrightarrow> ps_read_len input idx = pb_len ps_errors input idx"
  by (simp add: ps_read_len_def pb_len_def ps_read_varint_eq ps_errors_sel cong: if_cong)

lemma ps_skip_eq:
  assumes "length input \<le> usize_max"
  shows "ps_skip input idx wt = pb_skip ps_errors input idx wt"
  using assms
  by (auto simp: ps_skip_def pb_skip_def ps_read_varint_eq ps_read_len_eq pb_advance_def
      usize_checked_add_def ps_errors_def)

lemma ps_read_tag_some:
  assumes "length input \<le> usize_max"
  shows "ps_read_tag input idx = Inr (Some ((f, wt), i)) \<longleftrightarrow>
     f \<noteq> 0 \<and> pb_tag ps_errors input idx = Inr (Some ((f, wt), i))"
  using assms by (auto simp: ps_read_tag_def pb_tag_def ps_read_varint_eq result_simps split: if_splits)

interpretation pubsub_wire: wire_reader_laws pubsub_reader "\<lambda>f. f \<noteq> 0"
proof
  show "length input \<le> idx" if "rd_tag pubsub_reader input idx = Inr None" for input idx
    using that by (auto simp: pubsub_reader_def ps_read_tag_def result_simps split: if_splits)
qed (simp_all add: pubsub_reader_def ps_read_tag_some ps_read_varint_eq ps_read_len_eq ps_skip_eq
    pb_skips [where E = ps_errors] pb_tag_iff pb_varint_iff pb_len_iff pb_skip_iff del: enc_value.simps,
    simp add: ps_read_tag_def)

section \<open>Encoders as lists of fields\<close>

lemma put_enc [pb_enc]:
  "f < 16 \<Longrightarrow> put_opt_bytes f x out = out @ enc_fields (opt_field (ucast f) LenV x)"
  "f < 16 \<Longrightarrow> put_opt_varint f y out = out @ enc_fields (opt_field (ucast f) VarintV y)"
  "f < 16 \<Longrightarrow> put_each f enc xs out = out @ enc_fields (rep_field (ucast f) (\<lambda>x. LenV (enc x)) xs)"
  by (simp_all add: put_opt_bytes_def put_opt_varint_def put_each_def encode_bytes_field_enc
      encode_varint_field_enc pb_enc split: option.splits)

definition sub_opts_fields :: "sub_opts \<Rightarrow> (u64 \<times> wire_value) list" where
  "sub_opts_fields o' =
     opt_field 1 VarintV (map_option (\<lambda>b. if b then 1 else 0) (so_subscribe o')) @
     opt_field 2 LenV (so_topic_id o')"

definition raw_message_fields :: "bool \<Rightarrow> raw_message \<Rightarrow> (u64 \<times> wire_value) list" where
  "raw_message_fields include_signature m =
     opt_field 1 LenV (rm_from m) @ opt_field 2 LenV (rm_data m) @ opt_field 3 LenV (rm_seqno m) @
     rep_field 4 LenV (rm_topic_ids m) @
     (if include_signature then opt_field 5 LenV (rm_signature m) @ opt_field 6 LenV (rm_key m) else [])"

definition ihave_fields :: "control_ihave \<Rightarrow> (u64 \<times> wire_value) list" where
  "ihave_fields c = opt_field 1 LenV (ih_topic_id c) @ rep_field 2 LenV (ih_message_ids c)"

definition prune_fields :: "control_prune \<Rightarrow> (u64 \<times> wire_value) list" where
  "prune_fields c =
     opt_field 1 LenV (pr_topic_id c) @ rep_field 2 (\<lambda>p. LenV (px_encode p)) (pr_peers c) @
     opt_field 3 VarintV (pr_backoff c)"

definition control_fields :: "control_message \<Rightarrow> (u64 \<times> wire_value) list" where
  "control_fields c =
     rep_field 1 (\<lambda>x. LenV (ihave_encode x)) (cm_ihave c) @
     rep_field 2 (\<lambda>x. LenV (iwant_encode x)) (cm_iwant c) @
     rep_field 3 (\<lambda>x. LenV (graft_encode x)) (cm_graft c) @
     rep_field 4 (\<lambda>x. LenV (prune_encode x)) (cm_prune c)"

definition rpc_fields :: "rpc \<Rightarrow> (u64 \<times> wire_value) list" where
  "rpc_fields r =
     rep_field 1 (\<lambda>x. LenV (sub_opts_encode x)) (rpc_subscriptions r) @
     rep_field 2 (\<lambda>x. LenV (to_wire x)) (rpc_publish r) @
     opt_field 3 (\<lambda>c. LenV (control_encode c)) (rpc_control r)"

lemma encode_as_fields:
  "sub_opts_encode o' = enc_fields (sub_opts_fields o')"
  "encode_message_fields b m = enc_fields (raw_message_fields b m)"
  "ihave_encode c = enc_fields (ihave_fields c)"
  "iwant_encode w = enc_fields (rep_field 1 LenV (iw_message_ids w))"
  "graft_encode g = enc_fields (opt_field 1 LenV (gr_topic_id g))"
  "px_encode p = enc_fields (opt_field 1 LenV (px_peer_id p) @ opt_field 2 LenV (px_signed_peer_record p))"
  "prune_encode n = enc_fields (prune_fields n)"
  "control_encode t = enc_fields (control_fields t)"
  by (simp_all add: sub_opts_encode_def encode_message_fields_def ihave_encode_def iwant_encode_def
      graft_encode_def px_encode_def prune_encode_def control_encode_def sub_opts_fields_def
      raw_message_fields_def ihave_fields_def prune_fields_def control_fields_def pb_enc Let_def)

lemma rpc_encode_fields: "rpc_encode r = enc_fields (rpc_fields r)"
  by (simp add: rpc_encode_def rpc_fields_def pb_enc Let_def encode_bytes_field_enc split: option.splits)

lemma ps_table_ok [simp]:
  "table_ok sub_opts_table" "table_ok raw_message_table" "table_ok ihave_table" "table_ok iwant_table"
  "table_ok graft_table" "table_ok px_table" "table_ok prune_table" "table_ok control_table"
  "table_ok (rpc_table b)"
  by (auto simp: table_ok_def sub_opts_table_def raw_message_table_def ihave_table_def iwant_table_def
      graft_table_def px_table_def prune_table_def control_table_def rpc_table_def split: if_splits)

lemma ps_decode_enc:
  assumes "table_ok table" and "plain_fields (\<lambda>f. f \<noteq> 0) fs" and "length (enc_fields fs) \<le> usize_max"
  shows "pb_decode pubsub_reader table m (enc_fields fs) = apply_fields table 0 fs m"
  using assms by (simp add: pubsub_wire.decode_fields fields_fit)

text \<open>Nested encodings are no longer than the message around them.\<close>

lemma rep_field_fits:
  assumes "length (enc_fields fs) \<le> usize_max" and "set (rep_field f (\<lambda>x. LenV (enc x)) xs) \<subseteq> set fs"
    and "x \<in> set xs"
  shows "length (enc x) \<le> usize_max"
  by (rule value_ok_LenV [OF _ assms(1), of f]) (use assms(2,3) in \<open>auto simp: rep_field_def\<close>)

section \<open>Well-formed messages\<close>

text \<open>Topics are Rust strings; a publish entry is the decoding of the bytes it is sent as.\<close>

definition opt_str_ok :: "str option \<Rightarrow> bool" where
  "opt_str_ok s \<longleftrightarrow> (case s of None \<Rightarrow> True | Some v \<Rightarrow> utf8_valid v)"

definition control_wf :: "control_message \<Rightarrow> bool" where
  "control_wf c \<longleftrightarrow>
     list_all (\<lambda>x. opt_str_ok (ih_topic_id x)) (cm_ihave c) \<and>
     list_all (\<lambda>x. opt_str_ok (gr_topic_id x)) (cm_graft c) \<and>
     list_all (\<lambda>x. opt_str_ok (pr_topic_id x)) (cm_prune c)"

definition rpc_wf :: "rpc \<Rightarrow> bool" where
  "rpc_wf r \<longleftrightarrow>
     list_all (\<lambda>s. opt_str_ok (so_topic_id s)) (rpc_subscriptions r) \<and>
     list_all (\<lambda>m. raw_message_decode (to_wire m) = Inr m) (rpc_publish r) \<and>
     (case rpc_control r of None \<Rightarrow> True | Some c \<Rightarrow> control_wf c)"

section \<open>Round trips\<close>

lemma sub_opts_round_trip:
  assumes "length (sub_opts_encode s) \<le> usize_max" and "opt_str_ok (so_topic_id s)"
  shows "sub_opts_decode (sub_opts_encode s) = Inr s"
  using assms
  by (cases s; cases "so_subscribe s"; cases "so_topic_id s")
    (simp_all add: sub_opts_decode_def encode_as_fields ps_decode_enc sub_opts_fields_def pb_apply
      sub_opts_table_def ps_string_def opt_str_ok_def)

lemma fold_topic_ids:
  "fold (\<lambda>a m. m\<lparr> rm_topic_ids := rm_topic_ids m @ [a] \<rparr>) xs m = m\<lparr> rm_topic_ids := rm_topic_ids m @ xs \<rparr>"
  by (induction xs arbitrary: m) simp_all

text \<open>A fresh encoding decodes to the same fields, with the encoding kept as \<open>raw\<close>.\<close>

lemma raw_message_round_trip:
  assumes "length (encode_message_fields True m) \<le> usize_max" and "list_all utf8_valid (rm_topic_ids m)"
  shows "raw_message_decode (encode_message_fields True m) = Inr (m\<lparr> rm_raw := encode_message_fields True m \<rparr>)"
proof -
  have topics: "apply_fields raw_message_table off (rep_field 4 LenV (rm_topic_ids m)) x =
      Inr (fold (\<lambda>a m. m\<lparr> rm_topic_ids := rm_topic_ids m @ [a] \<rparr>) (rm_topic_ids m) x)" for off x
    using assms(2)
    by (intro apply_rep_field) (simp add: pb_apply raw_message_table_def ps_string_def list_all_iff)
  show ?thesis
    using assms
    by (cases "rm_from m"; cases "rm_data m"; cases "rm_seqno m"; cases "rm_signature m"; cases "rm_key m")
      (simp_all add: raw_message_decode_def encode_as_fields ps_decode_enc raw_message_fields_def pb_apply
        topics fold_topic_ids raw_message_table_def raw_message_default_def)
qed

text \<open>Forwarding: what was decoded is sent again byte for byte, whatever unknown fields it holds.\<close>

lemma raw_message_decode_raw:
  assumes "length input \<le> usize_max" and "raw_message_decode input = Inr m"
  shows "rm_raw m = input"
  using assms(2) unfolding raw_message_decode_def
  by (rule pubsub_wire.decode_keeps [where P = "\<lambda>m. rm_raw m = input", OF ps_table_ok(2) assms(1)])
    (auto simp: raw_message_table_def result_simps split: if_splits)

lemma to_wire_decode:
  assumes "length input \<le> usize_max" and "raw_message_decode input = Inr m"
  shows "to_wire m = input"
proof (cases "input = []")
  case True
  have "raw_message_decode [] = Inr raw_message_default"
    using raw_message_round_trip [of raw_message_default]
    by (simp add: encode_as_fields raw_message_fields_def raw_message_default_def pb_enc rep_field_def)
  with True assms(2) have "m = raw_message_default" by simp
  with True show ?thesis
    by (simp add: to_wire_def raw_message_default_def encode_as_fields raw_message_fields_def pb_enc rep_field_def)
qed (use raw_message_decode_raw [OF assms] in \<open>simp add: to_wire_def\<close>)

lemma fold_ihave_ids:
  "fold (\<lambda>a m. m\<lparr> ih_message_ids := ih_message_ids m @ [a] \<rparr>) xs m = m\<lparr> ih_message_ids := ih_message_ids m @ xs \<rparr>"
  by (induction xs arbitrary: m) simp_all

lemma fold_iwant_ids:
  "fold (\<lambda>a m. m\<lparr> iw_message_ids := iw_message_ids m @ [a] \<rparr>) xs m = m\<lparr> iw_message_ids := iw_message_ids m @ xs \<rparr>"
  by (induction xs arbitrary: m) simp_all

lemma fold_prune_peers:
  "fold (\<lambda>a m. m\<lparr> pr_peers := pr_peers m @ [a] \<rparr>) xs m = m\<lparr> pr_peers := pr_peers m @ xs \<rparr>"
  by (induction xs arbitrary: m) simp_all

lemma fold_control:
  "fold (\<lambda>a m. m\<lparr> cm_ihave := cm_ihave m @ [a] \<rparr>) xs1 m = m\<lparr> cm_ihave := cm_ihave m @ xs1 \<rparr>"
  "fold (\<lambda>a m. m\<lparr> cm_iwant := cm_iwant m @ [a] \<rparr>) xs2 m = m\<lparr> cm_iwant := cm_iwant m @ xs2 \<rparr>"
  "fold (\<lambda>a m. m\<lparr> cm_graft := cm_graft m @ [a] \<rparr>) xs3 m = m\<lparr> cm_graft := cm_graft m @ xs3 \<rparr>"
  "fold (\<lambda>a m. m\<lparr> cm_prune := cm_prune m @ [a] \<rparr>) xs4 m = m\<lparr> cm_prune := cm_prune m @ xs4 \<rparr>"
  subgoal by (induction xs1 arbitrary: m) simp_all
  subgoal by (induction xs2 arbitrary: m) simp_all
  subgoal by (induction xs3 arbitrary: m) simp_all
  subgoal by (induction xs4 arbitrary: m) simp_all
  done

lemma fold_rpc:
  "fold (\<lambda>a m. m\<lparr> rpc_subscriptions := rpc_subscriptions m @ [a] \<rparr>) xs1 m =
     m\<lparr> rpc_subscriptions := rpc_subscriptions m @ xs1 \<rparr>"
  "fold (\<lambda>a m. m\<lparr> rpc_publish := rpc_publish m @ [a] \<rparr>) xs2 m = m\<lparr> rpc_publish := rpc_publish m @ xs2 \<rparr>"
  subgoal by (induction xs1 arbitrary: m) simp_all
  subgoal by (induction xs2 arbitrary: m) simp_all
  done

lemma ihave_round_trip:
  assumes "length (ihave_encode c) \<le> usize_max" and "opt_str_ok (ih_topic_id c)"
  shows "ihave_decode (ihave_encode c) = Inr c"
proof -
  have ids: "apply_fields ihave_table off (rep_field 2 LenV xs) x =
      Inr (fold (\<lambda>a m. m\<lparr> ih_message_ids := ih_message_ids m @ [a] \<rparr>) xs x)" for off xs x
    by (rule apply_rep_field) (simp add: pb_apply ihave_table_def)
  show ?thesis
    using assms
    by (cases c; cases "ih_topic_id c")
      (simp_all add: ihave_decode_def encode_as_fields ps_decode_enc ihave_fields_def pb_apply ids
        fold_ihave_ids ihave_table_def ps_string_def opt_str_ok_def)
qed

lemma iwant_round_trip:
  assumes "length (iwant_encode c) \<le> usize_max"
  shows "iwant_decode (iwant_encode c) = Inr c"
proof -
  have ids: "apply_fields iwant_table off (rep_field 1 LenV xs) x =
      Inr (fold (\<lambda>a m. m\<lparr> iw_message_ids := iw_message_ids m @ [a] \<rparr>) xs x)" for off xs x
    by (rule apply_rep_field) (simp add: pb_apply iwant_table_def)
  show ?thesis
    using assms
    by (cases c) (simp add: iwant_decode_def encode_as_fields ps_decode_enc ids fold_iwant_ids)
qed

lemma graft_round_trip:
  assumes "length (graft_encode c) \<le> usize_max" and "opt_str_ok (gr_topic_id c)"
  shows "graft_decode (graft_encode c) = Inr c"
  using assms
  by (cases c; cases "gr_topic_id c")
    (simp_all add: graft_decode_def encode_as_fields ps_decode_enc pb_apply graft_table_def
      ps_string_def opt_str_ok_def)

lemma px_round_trip:
  assumes "length (px_encode p) \<le> usize_max"
  shows "px_decode (px_encode p) = Inr p"
  using assms
  by (cases p; cases "px_peer_id p"; cases "px_signed_peer_record p")
    (simp_all add: px_decode_def encode_as_fields ps_decode_enc pb_apply px_table_def)

lemma prune_round_trip:
  assumes "length (prune_encode c) \<le> usize_max" and "opt_str_ok (pr_topic_id c)"
  shows "prune_decode (prune_encode c) = Inr c"
proof -
  have "length (px_encode p) \<le> usize_max" if "p \<in> set (pr_peers c)" for p
    by (rule rep_field_fits [OF assms(1) [unfolded encode_as_fields(7)], of 2, OF _ that])
      (auto simp: prune_fields_def)
  then have peers: "apply_fields prune_table off (rep_field 2 (\<lambda>p. LenV (px_encode p)) (pr_peers c)) x =
      Inr (fold (\<lambda>a m. m\<lparr> pr_peers := pr_peers m @ [a] \<rparr>) (pr_peers c) x)" for off x
    by (intro apply_rep_field) (simp add: pb_apply prune_table_def px_round_trip)
  show ?thesis
    using assms
    by (cases "pr_topic_id c"; cases "pr_backoff c")
      (simp_all add: prune_decode_def encode_as_fields(7) ps_decode_enc prune_fields_def pb_apply
        peers fold_prune_peers prune_table_def ps_string_def opt_str_ok_def)
qed

text \<open>The repeated fields of a control message, one after the other.\<close>

lemma control_field_fits:
  assumes "length (control_encode c) \<le> usize_max"
  shows "x1 \<in> set (cm_ihave c) \<Longrightarrow> length (ihave_encode x1) \<le> usize_max"
    and "x2 \<in> set (cm_iwant c) \<Longrightarrow> length (iwant_encode x2) \<le> usize_max"
    and "x3 \<in> set (cm_graft c) \<Longrightarrow> length (graft_encode x3) \<le> usize_max"
    and "x4 \<in> set (cm_prune c) \<Longrightarrow> length (prune_encode x4) \<le> usize_max"
  using rep_field_fits [OF assms [unfolded encode_as_fields(8)], of 1 ihave_encode "cm_ihave c" x1]
    rep_field_fits [OF assms [unfolded encode_as_fields(8)], of 2 iwant_encode "cm_iwant c" x2]
    rep_field_fits [OF assms [unfolded encode_as_fields(8)], of 3 graft_encode "cm_graft c" x3]
    rep_field_fits [OF assms [unfolded encode_as_fields(8)], of 4 prune_encode "cm_prune c" x4]
  by (simp_all add: control_fields_def sup.coboundedI1 sup.coboundedI2)

lemma control_round_trip:
  assumes len: "length (control_encode c) \<le> usize_max" and wf: "control_wf c"
  shows "control_decode (control_encode c) = Inr c"
proof -
  note fits = control_field_fits [OF len]
  have "apply_fields control_table off (rep_field 1 (\<lambda>x. LenV (ihave_encode x)) (cm_ihave c)) x =
      Inr (fold (\<lambda>a m. m\<lparr> cm_ihave := cm_ihave m @ [a] \<rparr>) (cm_ihave c) x)"
    and "apply_fields control_table off (rep_field 2 (\<lambda>x. LenV (iwant_encode x)) (cm_iwant c)) x =
      Inr (fold (\<lambda>a m. m\<lparr> cm_iwant := cm_iwant m @ [a] \<rparr>) (cm_iwant c) x)"
    and "apply_fields control_table off (rep_field 3 (\<lambda>x. LenV (graft_encode x)) (cm_graft c)) x =
      Inr (fold (\<lambda>a m. m\<lparr> cm_graft := cm_graft m @ [a] \<rparr>) (cm_graft c) x)"
    and "apply_fields control_table off (rep_field 4 (\<lambda>x. LenV (prune_encode x)) (cm_prune c)) x =
      Inr (fold (\<lambda>a m. m\<lparr> cm_prune := cm_prune m @ [a] \<rparr>) (cm_prune c) x)" for off x
    using wf fits
    by - (rule apply_rep_field, simp add: pb_apply control_table_def control_wf_def list_all_iff
        ihave_round_trip iwant_round_trip graft_round_trip prune_round_trip)+
  then have "apply_fields control_table 0 (control_fields c) control_default = Inr c"
    by (simp add: control_fields_def pb_apply fold_control control_default_def)
  then show ?thesis
    using len
    by (simp add: control_decode_def control_merge_from_def encode_as_fields(8) ps_decode_enc)
      (simp add: ps_decode_enc control_fields_def)
qed

lemma rpc_round_trip:
  assumes len: "length (rpc_encode r) \<le> usize_max" and wf: "rpc_wf r"
  shows "rpc_decode (rpc_encode r) = Inr r"
proof -
  note len' = len [unfolded rpc_encode_fields]
  have subs_fit: "length (sub_opts_encode x) \<le> usize_max" if "x \<in> set (rpc_subscriptions r)" for x
    by (rule rep_field_fits [OF len', of 1, OF _ that]) (auto simp: rpc_fields_def)
  have ctl_fit: "length (control_encode c) \<le> usize_max" if "rpc_control r = Some c" for c
    by (rule value_ok_LenV [OF _ len', of 3]) (simp add: rpc_fields_def opt_field_def that)
  have subs: "apply_fields (rpc_table True) off
      (rep_field 1 (\<lambda>x. LenV (sub_opts_encode x)) (rpc_subscriptions r)) x =
      Inr (fold (\<lambda>a m. m\<lparr> rpc_subscriptions := rpc_subscriptions m @ [a] \<rparr>) (rpc_subscriptions r) x)" for off x
    using wf subs_fit
    by - (rule apply_rep_field, simp add: pb_apply rpc_table_def rpc_wf_def list_all_iff sub_opts_round_trip)
  have pubs: "apply_fields (rpc_table True) off (rep_field 2 (\<lambda>x. LenV (to_wire x)) (rpc_publish r)) x =
      Inr (fold (\<lambda>a m. m\<lparr> rpc_publish := rpc_publish m @ [a] \<rparr>) (rpc_publish r) x)" for off x
    using wf by - (rule apply_rep_field, simp add: pb_apply rpc_table_def rpc_wf_def list_all_iff)
  have "apply_fields (rpc_table True) 0 (rpc_fields r)
      \<lparr> rpc_subscriptions = [], rpc_publish = [], rpc_control = None \<rparr> = Inr r"
  proof (cases "rpc_control r")
    case None
    then show ?thesis by (simp add: rpc_fields_def pb_apply subs pubs fold_rpc)
  next
    case (Some c)
    with wf ctl_fit have "control_merge_from (control_encode c) control_default = Inr c"
      using control_round_trip [of c] by (simp add: rpc_wf_def control_decode_def)
    with Some show ?thesis by (simp add: rpc_fields_def pb_apply subs pubs fold_rpc rpc_table_def)
  qed
  then show ?thesis
    using len' by (simp add: rpc_decode_def rpc_decode_inner_def rpc_encode_fields ps_decode_enc rpc_fields_def)
qed

section \<open>Every input\<close>

lemma ps_string_keeps:
  "ps_string off v = Inr s \<longleftrightarrow> s = v \<and> utf8_valid v"
  "ps_string off v = Inl e \<longleftrightarrow> e = Err (PsInvalidUtf8 off) \<and> \<not> utf8_valid v"
  by (auto simp: ps_string_def)

lemma nested_decode_wf:
  assumes "length input \<le> usize_max"
  shows "sub_opts_decode input = Inr s \<Longrightarrow> opt_str_ok (so_topic_id s)"
    and "ihave_decode input = Inr h \<Longrightarrow> opt_str_ok (ih_topic_id h)"
    and "graft_decode input = Inr g \<Longrightarrow> opt_str_ok (gr_topic_id g)"
    and "prune_decode input = Inr n \<Longrightarrow> opt_str_ok (pr_topic_id n)"
  unfolding sub_opts_decode_def ihave_decode_def graft_decode_def prune_decode_def
  subgoal
    by (erule pubsub_wire.decode_keeps [OF ps_table_ok(1) assms])
      (auto simp: opt_str_ok_def sub_opts_table_def ps_string_keeps result_simps split: if_splits)
  subgoal
    by (erule pubsub_wire.decode_keeps [OF ps_table_ok(3) assms])
      (auto simp: opt_str_ok_def ihave_table_def ps_string_keeps result_simps split: if_splits)
  subgoal
    by (erule pubsub_wire.decode_keeps [OF ps_table_ok(5) assms])
      (auto simp: opt_str_ok_def graft_table_def ps_string_keeps result_simps split: if_splits)
  subgoal
    by (erule pubsub_wire.decode_keeps [OF ps_table_ok(7) assms])
      (auto simp: opt_str_ok_def prune_table_def ps_string_keeps result_simps split: if_splits)
  done

lemma control_merge_wf:
  assumes "length input \<le> usize_max" and "control_merge_from input c = Inr c'" and "control_wf c"
  shows "control_wf c'"
  using assms(2) unfolding control_merge_from_def
  by (rule pubsub_wire.decode_keeps [OF ps_table_ok(8) assms(1)])
    (use assms(3) in \<open>auto simp: control_wf_def control_table_def result_simps nested_decode_wf split: if_splits\<close>)

lemma rpc_decode_wf:
  assumes "length input \<le> usize_max" and "rpc_decode_inner b input = Inr r"
  shows "rpc_wf r"
  using assms(2) unfolding rpc_decode_inner_def
proof (rule pubsub_wire.decode_keeps [OF ps_table_ok(9) assms(1)])
  fix f wt g off v m m'
  assume g: "rpc_table b f wt = Some (OnLen g)" and v: "length v \<le> usize_max" "g off v m = Inr m'" "rpc_wf m"
  have default: "control_wf control_default" by (simp add: control_wf_def control_default_def)
  have merge: "control_merge_from v c = Inr c' \<Longrightarrow> control_wf c \<Longrightarrow> control_wf c'" for c c'
    using control_merge_wf v(1) by blast
  from g v default show "rpc_wf m'"
    by (auto simp: rpc_table_def rpc_wf_def result_simps nested_decode_wf to_wire_decode
        split: if_splits option.splits) (use merge in blast)+
qed (auto simp: rpc_wf_def rpc_table_def split: if_splits)

lemma ps_nested_no_fault:
  assumes "length input \<le> usize_max" and x: "\<And>e. x \<noteq> Err e"
  shows "sub_opts_decode input \<noteq> Inl x" and "raw_message_decode input \<noteq> Inl x"
    and "ihave_decode input \<noteq> Inl x" and "iwant_decode input \<noteq> Inl x" and "graft_decode input \<noteq> Inl x"
    and "px_decode input \<noteq> Inl x"
  unfolding sub_opts_decode_def raw_message_decode_def ihave_decode_def iwant_decode_def graft_decode_def
    px_decode_def pb_decode_def
  by (rule pubsub_wire.loop_no_fault [OF ps_table_ok(1) assms(1)]
      pubsub_wire.loop_no_fault [OF ps_table_ok(2) assms(1)]
      pubsub_wire.loop_no_fault [OF ps_table_ok(3) assms(1)]
      pubsub_wire.loop_no_fault [OF ps_table_ok(4) assms(1)]
      pubsub_wire.loop_no_fault [OF ps_table_ok(5) assms(1)]
      pubsub_wire.loop_no_fault [OF ps_table_ok(6) assms(1)];
      auto simp: x sub_opts_table_def raw_message_table_def ihave_table_def iwant_table_def graft_table_def
        px_table_def ps_string_keeps result_simps split: if_splits)+

lemma control_no_fault:
  assumes "length input \<le> usize_max" and x: "\<And>e. x \<noteq> Err e"
  shows "prune_decode input \<noteq> Inl x" and "control_merge_from input c \<noteq> Inl x"
proof -
  have prune: "prune_decode v \<noteq> Inl x" if "length v \<le> usize_max" for v
    unfolding prune_decode_def pb_decode_def
    by (rule pubsub_wire.loop_no_fault [OF ps_table_ok(7) that])
      (auto simp: x prune_table_def ps_string_keeps ps_nested_no_fault [OF _ x] result_simps split: if_splits)
  then show "prune_decode input \<noteq> Inl x" using assms(1) by blast
  show "control_merge_from input c \<noteq> Inl x"
    unfolding control_merge_from_def pb_decode_def
    by (rule pubsub_wire.loop_no_fault [OF ps_table_ok(8) assms(1)])
      (auto simp: x control_table_def prune ps_nested_no_fault [OF _ x] result_simps split: if_splits)
qed

lemma rpc_no_fault:
  assumes "length input \<le> usize_max" and x: "\<And>e. x \<noteq> Err e"
  shows "rpc_decode_inner b input \<noteq> Inl x"
  unfolding rpc_decode_inner_def pb_decode_def
  by (rule pubsub_wire.loop_no_fault [OF ps_table_ok(9) assms(1)])
    (auto simp: x rpc_table_def ps_nested_no_fault [OF _ x] control_no_fault [OF _ x] result_simps split: if_splits)

text \<open>
  C34. The RPC codec. On every input that fits in memory both decoders end with a message or a
  decoding error, never with a panic or an endless loop; every RPC they return is well formed,
  and its publish entries are sent again as the very bytes they were decoded from. A
  well-formed RPC, with any number of subscriptions, messages and control messages, is
  restored by encoding and decoding.
\<close>

theorem pubsub_rpc_codec:
  assumes "length input \<le> usize_max"
  shows "rpc_decode_inner b input \<noteq> Inl Panic \<and> rpc_decode_inner b input \<noteq> Inl Diverge \<and>
    (\<forall>r. rpc_decode_inner b input = Inr r \<longrightarrow> rpc_wf r) \<and>
    (\<forall>m. raw_message_decode input = Inr m \<longrightarrow> to_wire m = input) \<and>
    (\<forall>r. rpc_wf r \<longrightarrow> length (rpc_encode r) \<le> usize_max \<longrightarrow> rpc_decode (rpc_encode r) = Inr r)"
  using rpc_no_fault [OF assms, of Panic b] rpc_no_fault [OF assms, of Diverge b] rpc_decode_wf [OF assms, of b]
    to_wire_decode [OF assms] rpc_round_trip
  by simp

definition sample_rpc :: rpc where
  "sample_rpc =
     \<lparr> rpc_subscriptions = [\<lparr> so_subscribe = Some True, so_topic_id = Some [116] \<rparr>], rpc_publish = [],
       rpc_control = Some \<lparr> cm_ihave = [\<lparr> ih_topic_id = Some [116], ih_message_ids = [[1], [2]] \<rparr>], cm_iwant = [],
         cm_graft = [], cm_prune = [] \<rparr> \<rparr>"

theorem pubsub_rpc_codec_witness: "rpc_decode (rpc_encode sample_rpc) = Inr sample_rpc"
proof -
  have "rpc_wf sample_rpc" by (simp add: sample_rpc_def rpc_wf_def control_wf_def opt_str_ok_def)
  moreover have "length (rpc_encode sample_rpc) \<le> usize_max"
    by (simp add: sample_rpc_def rpc_encode_fields rpc_fields_def encode_as_fields control_fields_def
        ihave_fields_def sub_opts_fields_def opt_field_def rep_field_def enc_fields_def enc_field_def
        enc_tag_def write_uvarint_nil usize_max_def)
  ultimately show ?thesis using pubsub_rpc_codec [of "[]" True] by simp
qed

end
