(* ===== verification/Ed25519_Keypair.thy ===== *)
theory Ed25519_Keypair
  imports Peer_Id
begin

text \<open>
  Key pairs, \<open>crates/identity/src/ed25519.rs\<close>. The curve arithmetic of the \<open>ed25519-dalek\<close>
  crate is a record of operations with the laws the code relies on: a signature verifies
  under the public half of the key that made it.
\<close>

section \<open>Model\<close>

record ('sk, 'vk, 'rng) ed25519_ops =
  sk_from_bytes :: "bytes \<Rightarrow> 'sk"
  sk_to_bytes :: "'sk \<Rightarrow> bytes"
  sk_generate :: "'rng \<Rightarrow> 'sk \<times> 'rng"
  sk_verifying_key :: "'sk \<Rightarrow> bytes"
  sk_sign :: "'sk \<Rightarrow> bytes \<Rightarrow> bytes"
  vk_from_bytes :: "bytes \<Rightarrow> 'vk option"
  vk_verify_strict :: "'vk \<Rightarrow> bytes \<Rightarrow> bytes \<Rightarrow> bool"

record keypair =
  kp_secret :: bytes
  kp_public :: bytes

definition from_secret_key_bytes :: "('sk, 'vk, 'rng) ed25519_ops \<Rightarrow> bytes \<Rightarrow> keypair" where
  "from_secret_key_bytes ed secret =
     \<lparr> kp_secret = secret, kp_public = sk_verifying_key ed (sk_from_bytes ed secret) \<rparr>"

definition generate_with_rng :: "('sk, 'vk, 'rng) ed25519_ops \<Rightarrow> 'rng \<Rightarrow> keypair \<times> 'rng" where
  "generate_with_rng ed rng =
     (case sk_generate ed rng of (sk, rng') \<Rightarrow>
        (\<lparr> kp_secret = sk_to_bytes ed sk, kp_public = sk_verifying_key ed sk \<rparr>, rng'))"

definition keypair_public_key :: "keypair \<Rightarrow> public_key" where
  "keypair_public_key kp = \<lparr> pk_type = Ed25519, pk_data = kp_public kp \<rparr>"

definition keypair_peer_id ::
  "'mh multihash_ops \<Rightarrow> (bytes \<Rightarrow> bytes) \<Rightarrow> keypair \<Rightarrow> peer_id_error fault + 'mh peer_id"
where
  "keypair_peer_id mh sha256 kp = from_public_key mh sha256 (keypair_public_key kp)"

definition keypair_sign :: "('sk, 'vk, 'rng) ed25519_ops \<Rightarrow> keypair \<Rightarrow> bytes \<Rightarrow> bytes" where
  "keypair_sign ed kp message = sk_sign ed (sk_from_bytes ed (kp_secret kp)) message"

section \<open>The laws of the signature scheme\<close>

definition ed25519_laws :: "('sk, 'vk, 'rng) ed25519_ops \<Rightarrow> bool" where
  "ed25519_laws ed \<longleftrightarrow>
     (\<forall>sk. length (sk_to_bytes ed sk) = 32 \<and> sk_from_bytes ed (sk_to_bytes ed sk) = sk \<and>
        length (sk_verifying_key ed sk) = 32 \<and>
        (\<exists>vk. vk_from_bytes ed (sk_verifying_key ed sk) = Some vk \<and>
           (\<forall>msg. length (sk_sign ed sk msg) = 64 \<and> vk_verify_strict ed vk msg (sk_sign ed sk msg))))"

definition keypair_ok :: "('sk, 'vk, 'rng) ed25519_ops \<Rightarrow> keypair \<Rightarrow> bool" where
  "keypair_ok ed kp \<longleftrightarrow>
     length (kp_secret kp) = 32 \<and> kp_public kp = sk_verifying_key ed (sk_from_bytes ed (kp_secret kp))"

lemma from_secret_key_bytes_ok: "length secret = 32 \<Longrightarrow> keypair_ok ed (from_secret_key_bytes ed secret)"
  by (simp add: keypair_ok_def from_secret_key_bytes_def)

lemma generate_with_rng_ok: "ed25519_laws ed \<Longrightarrow> keypair_ok ed (fst (generate_with_rng ed rng))"
  by (simp add: keypair_ok_def generate_with_rng_def ed25519_laws_def split: prod.splits)

lemma keypair_sign_length: "ed25519_laws ed \<Longrightarrow> length (keypair_sign ed kp msg) = 64"
  by (auto simp: ed25519_laws_def keypair_sign_def)

lemma keypair_public_length: "ed25519_laws ed \<Longrightarrow> keypair_ok ed kp \<Longrightarrow> length (kp_public kp) = 32"
  by (auto simp: ed25519_laws_def keypair_ok_def)

lemma keypair_sign_verifies:
  assumes "ed25519_laws ed" and "keypair_ok ed kp"
  shows "verify (vk_from_bytes ed) (vk_verify_strict ed) (keypair_public_key kp) msg (keypair_sign ed kp msg) = Inr ()"
proof -
  from assms obtain vk where "vk_from_bytes ed (kp_public kp) = Some vk"
    "vk_verify_strict ed vk msg (keypair_sign ed kp msg)"
    unfolding ed25519_laws_def keypair_ok_def keypair_sign_def by metis
  with keypair_public_length [OF assms] show ?thesis
    by (simp add: verify_def keypair_public_key_def)
qed

text \<open>The encoded key has 36 bytes, so the peer identifier of a key pair carries the key itself.\<close>

lemma encode_ed25519_length:
  assumes "length d = 32"
  shows "length (encode_protobuf \<lparr> pk_type = Ed25519, pk_data = d \<rparr>) = 36"
  using assms by (simp add: encode_protobuf_def write_uvarint_nil)

lemma keypair_peer_id_inline:
  assumes "multihash_laws mh" and sha: "\<And>bs. length (sha256 bs) = 32"
    and "ed25519_laws ed" and "keypair_ok ed kp"
  obtains p where "keypair_peer_id mh sha256 kp = Inr p" and "peer_id_ok mh p"
    and "digest_bytes mh p = encode_protobuf (keypair_public_key kp)"
    and "decode_protobuf (digest_bytes mh p) = Inr (keypair_public_key kp)"
proof -
  let ?k = "keypair_public_key kp"
  have len: "length (encode_protobuf ?k) = 36"
    using keypair_public_length [OF assms(3,4)] by (simp add: keypair_public_key_def encode_ed25519_length)
  then have "decode_protobuf (encode_protobuf ?k) = Inr ?k"
    by (intro decode_encode_protobuf) (simp add: pk_fits_def usize_max_def)
  moreover have "\<forall>bs. length (sha256 bs) = 32" using sha by simp
  ultimately show thesis
    using from_public_key_protobuf_total [OF assms(1), of sha256 "encode_protobuf ?k"] len that
    by (auto simp: keypair_peer_id_def from_public_key_def digest_bytes_def)
qed

section \<open>An instance of the laws\<close>

text \<open>A scheme with one-byte secrets whose signatures are the padded public key.\<close>

definition plain_ed25519 :: "(u8, bytes, nat) ed25519_ops" where
  "plain_ed25519 =
     \<lparr> sk_from_bytes = (\<lambda>bs. case bs of [] \<Rightarrow> 0 | b # _ \<Rightarrow> b), sk_to_bytes = replicate 32,
       sk_generate = (\<lambda>n. (word_of_nat n, Suc n)), sk_verifying_key = replicate 32,
       sk_sign = (\<lambda>sk msg. replicate 64 sk), vk_from_bytes = Some,
       vk_verify_strict = (\<lambda>vk msg sig. sig = vk @ vk) \<rparr>"

lemma plain_ed25519_laws: "ed25519_laws plain_ed25519"
  by (simp add: ed25519_laws_def plain_ed25519_def numeral_eq_Suc)

end
