(* ===== verification/Pubsub_Sign.thy ===== *)
theory Pubsub_Sign
  imports Pubsub_Message Ed25519_Keypair Seen_Cache Frame_Codec
begin

text \<open>
  Signed pubsub messages, \<open>crates/pubsub/src/message.rs\<close>: how a message is signed, what the
  StrictSign check accepts, and the identifier under which a message counts as seen.
\<close>

section \<open>Model\<close>

definition MAX_RPC_SIZE :: nat where "MAX_RPC_SIZE = 65536"
definition MAX_TOPIC_LEN :: nat where "MAX_TOPIC_LEN = 1024"
definition MAX_SEQNO_LEN :: nat where "MAX_SEQNO_LEN = 64"
definition SIGN_PREFIX :: bytes where "SIGN_PREFIX = str_lit ''libp2p-pubsub:''"
definition SIGNATURE_LEN :: nat where "SIGNATURE_LEN = 64"

datatype message_verify_error =
    MissingFrom
  | InvalidFrom
  | InvalidSeqno
  | MissingSignature
  | KeyWithoutSignature
  | InvalidSignatureLength
  | InvalidKey
  | KeyPeerIdMismatch
  | SignatureInvalid

definition sign_bytes :: "raw_message \<Rightarrow> bytes" where
  "sign_bytes m = SIGN_PREFIX @ encode_message_fields False m"

text \<open>Deriving the peer identifier is the only step that could panic.\<close>

definition build_signed ::
  "('sk, 'vk, 'rng) ed25519_ops \<Rightarrow> 'mh multihash_ops \<Rightarrow> (bytes \<Rightarrow> bytes) \<Rightarrow> keypair \<Rightarrow> str \<Rightarrow> bytes \<Rightarrow> u64
     \<Rightarrow> peer_id_error fault + raw_message"
where
  "build_signed ed mh sha256 kp topic data seqno =
     rbind (keypair_peer_id mh sha256 kp) (\<lambda>peer.
       let message = \<lparr> rm_raw = [], rm_from = Some (to_bytes mh peer), rm_data = Some data,
                       rm_seqno = Some (u64_to_be seqno), rm_topic_ids = [topic],
                       rm_signature = None, rm_key = None \<rparr>;
           signature = keypair_sign ed kp (sign_bytes message);
           message = message\<lparr> rm_signature := Some signature \<rparr>
       in Inr (message\<lparr> rm_raw := encode_message_fields True message \<rparr>))"

definition source_and_seqno ::
  "'mh multihash_ops \<Rightarrow> raw_message \<Rightarrow> message_verify_error + ('mh peer_id \<times> bytes)"
where
  "source_and_seqno mh m =
     rbind (ok_or (rm_from m) MissingFrom) (\<lambda>from_bytes'.
     rbind (map_err (\<lambda>_. InvalidFrom) (from_bytes mh from_bytes')) (\<lambda>from.
     rbind (case rm_seqno m of
              None \<Rightarrow> Inl InvalidSeqno
            | Some s \<Rightarrow> if s \<noteq> [] \<and> length s \<le> MAX_SEQNO_LEN then Inr s else Inl InvalidSeqno) (\<lambda>seqno.
     Inr (from, seqno))))"

definition signing_key ::
  "'mh multihash_ops \<Rightarrow> raw_message \<Rightarrow> 'mh peer_id \<Rightarrow> message_verify_error + public_key"
where
  "signing_key mh m from =
     (case rm_key m of
        Some key \<Rightarrow> map_err (\<lambda>_. InvalidKey) (decode_protobuf key)
      | None \<Rightarrow> map_err (\<lambda>_. KeyPeerIdMismatch) (decode_protobuf (digest_bytes mh from)))"

definition message_verify ::
  "('sk, 'vk, 'rng) ed25519_ops \<Rightarrow> 'mh multihash_ops \<Rightarrow> (bytes \<Rightarrow> bytes) \<Rightarrow> bool \<Rightarrow> raw_message
     \<Rightarrow> message_verify_error fault + ('mh peer_id \<times> bytes \<times> bool)"
where
  "message_verify ed mh sha256 allow_unsigned m =
     rbind (map_err Err (source_and_seqno mh m)) (\<lambda>(from, seqno).
     case rm_signature m of
       None \<Rightarrow>
         if rm_key m \<noteq> None then Inl (Err KeyWithoutSignature)
         else if allow_unsigned then Inr (from, seqno, False)
         else Inl (Err MissingSignature)
     | Some signature \<Rightarrow>
         if length signature \<noteq> SIGNATURE_LEN then Inl (Err InvalidSignatureLength)
         else
           rbind (map_err Err (signing_key mh m from)) (\<lambda>public_key.
           rbind (map_err (\<lambda>_. Panic) (from_public_key mh sha256 public_key)) (\<lambda>derived.
           if derived \<noteq> from then Inl (Err KeyPeerIdMismatch)
           else
             rbind (map_err (\<lambda>_. Err SignatureInvalid)
                      (verify (vk_from_bytes ed) (vk_verify_strict ed) public_key (sign_bytes m) signature)) (\<lambda>_.
             Inr (from, seqno, True)))))"

definition pubsub_decode_frame :: "bytes \<Rightarrow> frame_decode" where
  "pubsub_decode_frame input = decode_frame input MAX_RPC_SIZE"

text \<open>The encoder of the frame has a \<open>debug_assert!\<close>, which panics in debug builds only.\<close>

definition pubsub_encode_frame :: "bool \<Rightarrow> bytes \<Rightarrow> pubsub_wire_error fault + bytes" where
  "pubsub_encode_frame debug_build payload =
     (if debug_build \<and> MAX_RPC_SIZE < length payload then Inl Panic else Inr (encode_frame payload))"

lemmas pubsub_sign_consts = MAX_RPC_SIZE_def MAX_SEQNO_LEN_def SIGNATURE_LEN_def

section \<open>The signed bytes\<close>

lemma encode_unsigned:
  "encode_message_fields False m =
     encode_message_fields True (m\<lparr> rm_signature := None, rm_key := None \<rparr>)"
  by (simp add: encode_message_fields_def put_opt_bytes_def Let_def)

text \<open>What is signed determines the publisher, the payload, the sequence number and the topics.\<close>

lemma sign_bytes_inj:
  assumes "sign_bytes m = sign_bytes m'"
    and "list_all utf8_valid (rm_topic_ids m)" and "list_all utf8_valid (rm_topic_ids m')"
    and "length (sign_bytes m) \<le> usize_max"
  shows "rm_from m = rm_from m' \<and> rm_data m = rm_data m' \<and> rm_seqno m = rm_seqno m' \<and>
    rm_topic_ids m = rm_topic_ids m'"
proof -
  let ?u = "\<lambda>m. m\<lparr> rm_signature := None, rm_key := None \<rparr>"
  have eq: "encode_message_fields True (?u m) = encode_message_fields True (?u m')"
    using assms(1) by (simp add: sign_bytes_def encode_unsigned)
  have "length (encode_message_fields True (?u m)) \<le> usize_max"
    using assms(4) by (simp add: sign_bytes_def encode_unsigned)
  then have "(?u m)\<lparr> rm_raw := encode_message_fields True (?u m) \<rparr> = (?u m')\<lparr> rm_raw := encode_message_fields True (?u m) \<rparr>"
    using raw_message_round_trip [of "?u m"] raw_message_round_trip [of "?u m'"] assms(2,3) eq by simp
  then show ?thesis by (cases m; cases m') simp
qed

section \<open>StrictSign\<close>

lemma source_and_seqno_iff:
  "source_and_seqno mh m = Inr (from, seqno) \<longleftrightarrow>
     (\<exists>f. rm_from m = Some f \<and> from_bytes mh f = Inr from) \<and>
     rm_seqno m = Some seqno \<and> 1 \<le> length seqno \<and> length seqno \<le> 64"
  by (auto simp: source_and_seqno_def result_simps pubsub_sign_consts Suc_le_eq split: option.splits if_splits)

text \<open>
  C32. What the check accepts as signed carries a 64-byte signature over its own signed bytes
  by a key whose peer identifier is the publisher named in the message, and no message with
  another publisher, payload, sequence number or topic list has the same signed bytes. What
  it accepts as unsigned has neither signature nor key, and only when unsigned messages are
  allowed.
\<close>

theorem strict_sign_sound:
  assumes "message_verify ed mh sha256 allow_unsigned m = Inr (from, seqno, is_signed)"
    and "list_all utf8_valid (rm_topic_ids m)" and "length (sign_bytes m) \<le> usize_max"
  shows "(\<exists>f. rm_from m = Some f \<and> from_bytes mh f = Inr from) \<and>
    rm_seqno m = Some seqno \<and> length seqno \<in> {1..64} \<and>
    (if is_signed
     then \<exists>k signature. rm_signature m = Some signature \<and> length signature = 64 \<and>
        from_public_key mh sha256 k = Inr from \<and>
        verify (vk_from_bytes ed) (vk_verify_strict ed) k (sign_bytes m) signature = Inr () \<and>
        (\<forall>m'. list_all utf8_valid (rm_topic_ids m') \<longrightarrow> sign_bytes m' = sign_bytes m \<longrightarrow>
           rm_from m' = rm_from m \<and> rm_data m' = rm_data m \<and> rm_seqno m' = rm_seqno m \<and>
           rm_topic_ids m' = rm_topic_ids m)
     else allow_unsigned \<and> rm_signature m = None \<and> rm_key m = None)"
proof -
  have bind: "\<forall>m'. list_all utf8_valid (rm_topic_ids m') \<longrightarrow> sign_bytes m' = sign_bytes m \<longrightarrow>
      rm_from m' = rm_from m \<and> rm_data m' = rm_data m \<and> rm_seqno m' = rm_seqno m \<and>
      rm_topic_ids m' = rm_topic_ids m"
    by (intro allI impI, rule sign_bytes_inj) (use assms(2,3) in simp_all)
  from assms(1) have src: "source_and_seqno mh m = Inr (from, seqno)"
    by (auto simp: message_verify_def result_simps split: option.splits if_splits)
  then have head: "\<exists>f. rm_from m = Some f \<and> from_bytes mh f = Inr from"
    "rm_seqno m = Some seqno" "length seqno \<in> {1..64}"
    by (simp_all add: source_and_seqno_iff)
  show ?thesis
  proof (cases "rm_signature m")
    case None
    with assms(1) src have "\<not> is_signed" "allow_unsigned" "rm_key m = None"
      by (auto simp: message_verify_def split: if_splits)
    with head None show ?thesis by simp
  next
    case (Some signature)
    with assms(1) src obtain k where k: "length signature = 64" "from_public_key mh sha256 k = Inr from"
      "verify (vk_from_bytes ed) (vk_verify_strict ed) k (sign_bytes m) signature = Inr ()" and "is_signed"
      by (auto simp: message_verify_def result_simps pubsub_sign_consts split: if_splits)
    show ?thesis
      unfolding if_P [OF \<open>is_signed\<close>]
      by (intro exI [of _ k] exI [of _ signature] conjI head Some k bind)
  qed
qed

text \<open>How long the encoding of a message with one topic and no key can be.\<close>

lemma length_put_opt_bytes:
  "length (put_opt_bytes f x out) \<le> length out + 11 + (case x of None \<Rightarrow> 0 | Some bs \<Rightarrow> length bs)"
  using uvarint_len_le_10 [of "word_of_nat (length (the x))"]
  by (cases x) (simp_all add: put_opt_bytes_def encode_bytes_field_def length_write_uvarint
      write_uvarint_acc [of _ "out @ [tag_byte f 2]"])

lemma length_encode_message_fields:
  assumes "rm_from m = Some f" and "rm_data m = Some d" and "rm_seqno m = Some q" and "rm_topic_ids m = [t]"
    and "rm_signature m = Some g" and "rm_key m = None"
  shows "length (encode_message_fields True m) \<le> 66 + length f + length d + length q + length t + length g"
proof -
  have topic: "put_each 4 (\<lambda>t. t) [t] out = put_opt_bytes 4 (Some t) out" for out
    by (simp add: put_each_def put_opt_bytes_def)
  have step: "length (put_opt_bytes n (Some bs) out) \<le> 11 + length out + length bs" for n bs out
    using length_put_opt_bytes [of n "Some bs" out] by simp
  show ?thesis
    using step [of 1 f "[]"] step [of 2 d "put_opt_bytes 1 (Some f) []"]
      step [of 3 q "put_opt_bytes 2 (Some d) (put_opt_bytes 1 (Some f) [])"]
      step [of 4 t "put_opt_bytes 3 (Some q) (put_opt_bytes 2 (Some d) (put_opt_bytes 1 (Some f) []))"]
      step [of 5 g "put_opt_bytes 4 (Some t) (put_opt_bytes 3 (Some q) (put_opt_bytes 2 (Some d)
        (put_opt_bytes 1 (Some f) [])))"]
    by (simp only: encode_message_fields_def Let_def assms topic if_True put_opt_bytes_def [of 6] option.case)
      simp
qed

lemma length_encode_unsigned: "length (encode_message_fields False m) \<le> length (encode_message_fields True m)"
  by (simp add: encode_as_fields raw_message_fields_def pb_enc)

lemma length_to_bytes:
  assumes "multihash_laws mh" and "peer_id_ok mh p"
  shows "length (to_bytes mh p) \<le> 84"
  using assms(2) uvarint_len_le_10 [of "mh_code mh (multihash p)"]
    uvarint_len_le_10 [of "word_of_nat (length (mh_digest mh (multihash p)))"]
  by (simp add: to_bytes_def multihash_lawsD(2) [OF assms(1)] length_write_uvarint peer_id_ok_def)

lemma build_signed_ok:
  assumes "multihash_laws mh" and "\<forall>bs. length (sha256 bs) = 32" and "ed25519_laws ed" and "keypair_ok ed kp"
    and "utf8_valid topic" and "length topic + length data \<le> 2 ^ 63"
  shows "\<exists>m peer. build_signed ed mh sha256 kp topic data seqno = Inr m \<and>
    keypair_peer_id mh sha256 kp = Inr peer \<and>
    raw_message_decode (to_wire m) = Inr m \<and> length (sign_bytes m) \<le> usize_max \<and>
    message_verify ed mh sha256 allow_unsigned m = Inr (peer, u64_to_be seqno, True)"
proof -
  obtain p where p: "keypair_peer_id mh sha256 kp = Inr p" "peer_id_ok mh p"
    "decode_protobuf (digest_bytes mh p) = Inr (keypair_public_key kp)"
    using keypair_peer_id_inline [OF assms(1) _ assms(3,4)] assms(2) by metis
  define m0 where "m0 = \<lparr> rm_raw = [], rm_from = Some (to_bytes mh p), rm_data = Some data,
    rm_seqno = Some (u64_to_be seqno), rm_topic_ids = [topic], rm_signature = None, rm_key = None \<rparr>"
  define m1 where "m1 = m0\<lparr> rm_signature := Some (keypair_sign ed kp (sign_bytes m0)) \<rparr>"
  define m where "m = m1\<lparr> rm_raw := encode_message_fields True m1 \<rparr>"
  have m: "build_signed ed mh sha256 kp topic data seqno = Inr m"
    by (simp add: build_signed_def p m_def m1_def m0_def Let_def)
  have enc: "encode_message_fields True m1 \<noteq> []"
    by (simp add: encode_as_fields raw_message_fields_def m1_def m0_def pb_enc pubsub_wire.enc_field_not_nil)
  have sign: "sign_bytes m = sign_bytes m0"
    by (simp add: sign_bytes_def encode_message_fields_def m_def m1_def m0_def)
  have fit: "length (encode_message_fields True m1) + 14 \<le> usize_max"
    using length_encode_message_fields [of m1 "to_bytes mh p" data "u64_to_be seqno" topic
        "keypair_sign ed kp (sign_bytes m0)"]
      length_to_bytes [OF assms(1) p(2)] assms(6) keypair_sign_length [OF assms(3), of kp "sign_bytes m0"]
    by (simp add: m1_def usize_max_def) (simp add: m0_def)
  have "to_wire m = encode_message_fields True m1"
    using enc by (simp add: to_wire_def m_def)
  moreover have "raw_message_decode (encode_message_fields True m1) = Inr m"
    using raw_message_round_trip [of m1] fit assms(5) by (simp add: m_def m1_def m0_def)
  moreover have "message_verify ed mh sha256 allow_unsigned m = Inr (p, u64_to_be seqno, True)"
  proof -
    have "source_and_seqno mh m = Inr (p, u64_to_be seqno)"
      using from_bytes_to_bytes [OF assms(1) p(2)]
      by (simp add: source_and_seqno_iff m_def m1_def m0_def)
    moreover have "rm_signature m = Some (keypair_sign ed kp (sign_bytes m))" "rm_key m = None"
      unfolding sign by (simp_all add: m_def m1_def m0_def)
    ultimately show ?thesis
      using p keypair_sign_verifies [OF assms(3,4), of "sign_bytes m"]
      by (simp add: message_verify_def signing_key_def keypair_sign_length [OF assms(3)] pubsub_sign_consts
          keypair_peer_id_def [symmetric])
  qed
  moreover have "length (sign_bytes m) \<le> usize_max"
    using fit length_encode_unsigned [of m1]
    by (simp add: sign_bytes_def SIGN_PREFIX_def encode_message_fields_def m_def)
  ultimately show ?thesis using m p(1) by auto
qed

text \<open>
  C33. A message built with a key pair is sent as bytes that decode to the same message, and
  the check of any receiver, with or without unsigned messages allowed, accepts it as signed
  by the peer identifier of that key pair, with the eight bytes of its sequence number.
\<close>

theorem build_signed_accepted:
  assumes "multihash_laws mh" and "\<forall>bs. length (sha256 bs) = 32" and "ed25519_laws ed" and "keypair_ok ed kp"
    and "utf8_valid topic" and "length topic + length data \<le> 2 ^ 63"
  shows "\<exists>m peer. build_signed ed mh sha256 kp topic data seqno = Inr m \<and>
    keypair_peer_id mh sha256 kp = Inr peer \<and>
    raw_message_decode (to_wire m) = Inr m \<and>
    message_verify ed mh sha256 allow_unsigned m = Inr (peer, u64_to_be seqno, True)"
  using build_signed_ok [OF assms] by blast

section \<open>Message identifiers\<close>

lemma to_bytes_prefix_free:
  assumes "multihash_laws mh" and "peer_id_ok mh p" and "peer_id_ok mh q"
    and "to_bytes mh p @ s = to_bytes mh q @ t"
  shows "p = q \<and> s = t"
proof -
  let ?c = "\<lambda>p. mh_code mh (multihash p)" and ?d = "\<lambda>p. mh_digest mh (multihash p)"
  have bytes: "to_bytes mh r =
      write_uvarint (?c r) [] @ write_uvarint (word_of_nat (length (?d r))) [] @ ?d r" for r
    using multihash_lawsD(2) [OF assms(1)] by (simp add: to_bytes_def)
  have len: "unat (word_of_nat (length (?d r)) :: u64) = length (?d r)" if "peer_id_ok mh r" for r
    using that by (intro unat_word_of_nat) (simp add: peer_id_ok_def)
  have cut: "a = b \<and> x = y" if "write_uvarint a [] @ x = write_uvarint b [] @ y" for a b :: u64 and x y
    using arg_cong [OF that, of read_uvarint_with_remainder] by (simp add: read_write_uvarint)
  have "write_uvarint (?c p) [] @ (write_uvarint (word_of_nat (length (?d p))) [] @ ?d p @ s) =
      write_uvarint (?c q) [] @ (write_uvarint (word_of_nat (length (?d q))) [] @ ?d q @ t)"
    using assms(4) by (simp only: bytes append_assoc)
  from cut [OF this] have c: "?c p = ?c q"
    and rest: "write_uvarint (word_of_nat (length (?d p))) [] @ (?d p @ s) =
      write_uvarint (word_of_nat (length (?d q))) [] @ (?d q @ t)"
    by blast+
  from cut [OF rest] have "length (?d p) = length (?d q)" and "?d p @ s = ?d q @ t"
    using len [OF assms(2)] len [OF assms(3)] by metis+
  then have d: "?d p = ?d q" "s = t" by (metis append_eq_append_conv)+
  with c have "to_bytes mh p = to_bytes mh q" by (simp only: bytes)
  then have "Inr p = (Inr q :: peer_id_error + 'a peer_id)"
    using from_bytes_to_bytes [OF assms(1,2)] from_bytes_to_bytes [OF assms(1,3)] by metis
  with d(2) show ?thesis by simp
qed

text \<open>
  C35. Identifiers do not collide: although an identifier is the plain concatenation of the
  publisher's bytes and the sequence number, two messages share one only if publisher,
  sequence number and signed status agree.
\<close>

theorem seen_message_id_inj:
  assumes "multihash_laws mh" and "peer_id_ok mh p" and "peer_id_ok mh q"
  shows "seen_message_id (to_bytes mh p) s a = seen_message_id (to_bytes mh q) t b \<longleftrightarrow> p = q \<and> s = t \<and> a = b"
  using to_bytes_prefix_free [OF assms, of s t]
  by (auto simp: seen_message_id_def seen_message_id_from_wire_def message_id_def)

section \<open>Witnesses\<close>

definition sample_keypair :: keypair where
  "sample_keypair = from_secret_key_bytes plain_ed25519 (replicate 32 7)"

definition sample_sha256 :: "bytes \<Rightarrow> bytes" where
  "sample_sha256 bs = replicate 32 0"

theorem build_signed_accepted_witness:
  "\<exists>m peer. build_signed plain_ed25519 plain_multihash sample_sha256 sample_keypair [116] [1, 2] 5 = Inr m \<and>
     keypair_peer_id plain_multihash sample_sha256 sample_keypair = Inr peer \<and>
     raw_message_decode (to_wire m) = Inr m \<and>
     message_verify plain_ed25519 plain_multihash sample_sha256 False m = Inr (peer, u64_to_be 5, True)"
proof -
  have "keypair_ok plain_ed25519 sample_keypair"
    unfolding sample_keypair_def by (rule from_secret_key_bytes_ok) simp
  then show ?thesis
    using build_signed_accepted [OF plain_multihash_laws _ plain_ed25519_laws, of sample_sha256 sample_keypair
        "[116]" "[1, 2]" 5 False]
    by (simp add: sample_sha256_def)
qed

theorem strict_sign_sound_witness:
  "\<exists>m peer k signature.
     message_verify plain_ed25519 plain_multihash sample_sha256 False m = Inr (peer, u64_to_be 5, True) \<and>
     rm_signature m = Some signature \<and> from_public_key plain_multihash sample_sha256 k = Inr peer \<and>
     verify (vk_from_bytes plain_ed25519) (vk_verify_strict plain_ed25519) k (sign_bytes m) signature = Inr ()"
proof -
  have "keypair_ok plain_ed25519 sample_keypair"
    unfolding sample_keypair_def by (rule from_secret_key_bytes_ok) simp
  then obtain m peer where m: "length (sign_bytes m) \<le> usize_max" "build_signed plain_ed25519 plain_multihash sample_sha256 sample_keypair [116] [1, 2] 5 = Inr m"
    "message_verify plain_ed25519 plain_multihash sample_sha256 False m = Inr (peer, u64_to_be 5, True)"
    using build_signed_ok [OF plain_multihash_laws _ plain_ed25519_laws, of sample_sha256 sample_keypair
        "[116]" "[1, 2]" 5 False]
    by (auto simp: sample_sha256_def)
  have topics: "list_all utf8_valid (rm_topic_ids m)"
    using m(2) by (auto simp: build_signed_def result_simps Let_def)
  from strict_sign_sound [OF m(3) topics m(1)] show ?thesis using m(3) by auto
qed

theorem seen_message_id_inj_witness:
  "seen_message_id (to_bytes plain_multihash \<lparr> multihash = (0, [9]) \<rparr>) [1, 2] True \<noteq>
   seen_message_id (to_bytes plain_multihash \<lparr> multihash = (0, [9, 1]) \<rparr>) [2] True"
  using seen_message_id_inj [OF plain_multihash_laws, of "\<lparr> multihash = (0, [9]) \<rparr>" "\<lparr> multihash = (0, [9, 1]) \<rparr>"]
  by (simp add: peer_id_ok_def validate_multihash_def plain_multihash_def peer_id_consts)

end
