(* ===== verification/Frame_Receiver.thy ===== *)
theory Frame_Receiver
  imports Frame_Codec Sans_Io
begin

text \<open>
  State machines that collect a length-prefixed frame from a stream: they append what
  arrives to a buffer and act once the frame is complete. The locale states what such a
  machine promises while the frame is incomplete; its lemma says that the way a transport
  cuts the frame does not matter. The DCUtR and AutoNAT roles interpret it.
\<close>

text \<open>Inputs one after the other, up to the first error.\<close>

fun deliver :: "('i \<Rightarrow> 's \<Rightarrow> 's \<times> ('e + unit)) \<Rightarrow> 'i list \<Rightarrow> 's \<Rightarrow> 's \<times> ('e + unit)" where
  "deliver h [] s = (s, Inr ())"
| "deliver h (i # is) s = sbind (h i s) (\<lambda>_. deliver h is)"

lemma deliver_append: "deliver h (is @ js) s = sbind (deliver h is s) (\<lambda>_. deliver h js)"
proof (induction "is" arbitrary: s)
  case (Cons i "is")
  obtain s1 r where h: "h i s = (s1, r)" by force
  with Cons show ?case by (cases r) simp_all
qed simp

lemma sbind_done [simp]: "sbind x (\<lambda>_. deliver h []) = x"
proof -
  obtain s r where "x = (s, r)" by force
  then show ?thesis by (cases r) simp_all
qed

locale frame_receiver =
  fixes recv :: "bytes \<Rightarrow> 's \<Rightarrow> 's \<times> ('e + unit)"
    and buf :: "'s \<Rightarrow> bytes"
    and put :: "bytes \<Rightarrow> 's \<Rightarrow> 's"
    and waiting :: "'s \<Rightarrow> bool"
    and max_len :: nat
    and limit :: nat
  assumes stall: "waiting s \<Longrightarrow> decode_frame (buf s @ data) max_len = FrameIncomplete \<Longrightarrow>
      length (buf s @ data) \<le> limit \<Longrightarrow> recv data s = (put (buf s @ data) s, Inr ())"
    and buf_put: "buf (put b s) = b"
    and put_put: "put b (put c s) = put b s"
    and put_buf: "put (buf s) s = s"
    and waiting_put: "waiting (put b s) = waiting s"
    and recv_put: "waiting s \<Longrightarrow> recv data (put b s) = recv (b @ data) (put [] s)"
begin

lemma partial_frame:
  assumes "waiting s" and "frame_valid max_len p" and "length (encode_frame p) \<le> limit"
    and "encode_frame p = buf s @ concat chunks @ rest" and "rest \<noteq> []"
  shows "deliver recv chunks s = (put (buf s @ concat chunks) s, Inr ())"
  using assms
proof (induction chunks arbitrary: s)
  case (Cons c chunks)
  have "recv c s = (put (buf s @ c) s, Inr ())"
  proof (rule stall)
    show "decode_frame (buf s @ c) max_len = FrameIncomplete"
      using Cons.prems by (intro decode_frame_prefix [of max_len p _ "concat chunks @ rest"]) simp_all
    have "length (buf s @ c) \<le> length (encode_frame p)" using Cons.prems(4) by simp
    then show "length (buf s @ c) \<le> limit" using Cons.prems(3) by simp
  qed (rule Cons.prems)
  moreover have "deliver recv chunks (put (buf s @ c) s) =
      (put (buf s @ c @ concat chunks) s, Inr ())"
    using Cons.IH [of "put (buf s @ c) s"] Cons.prems by (simp add: waiting_put buf_put put_put)
  ultimately show ?case by simp
qed (simp add: put_buf)

text \<open>Whatever follows the frame in the last chunk is part of the same call.\<close>

lemma any_chunking:
  assumes "waiting s" and "buf s = []" and "frame_valid max_len p" and "length (encode_frame p) \<le> limit"
    and "concat chunks = encode_frame p" and "[] \<notin> set chunks"
  shows "deliver recv (butlast chunks @ [last chunks @ app]) s = recv (encode_frame p @ app) s"
proof -
  have "chunks \<noteq> []" using assms(5) encode_frame_not_nil [of p] by (metis concat.simps(1))
  then have split: "chunks = butlast chunks @ [last chunks]" and "last chunks \<noteq> []"
    using assms(6) by (simp_all add: last_in_set) (metis last_in_set)
  from split assms(5) have enc: "encode_frame p = concat (butlast chunks) @ last chunks"
    by (metis append_Nil2 concat.simps concat_append)
  have "deliver recv (butlast chunks) s = (put (concat (butlast chunks)) s, Inr ())"
    using partial_frame [OF assms(1,3,4), of "butlast chunks" "last chunks"] enc assms(2) \<open>last chunks \<noteq> []\<close>
    by simp
  moreover have "put [] s = s" using put_buf [of s] assms(2) by simp
  ultimately show ?thesis
    using recv_put [OF assms(1), of "last chunks @ app" "concat (butlast chunks)"] enc
    by (simp add: deliver_append)
qed

lemma whole_frame:
  assumes "waiting s" and "buf s = []" and "frame_valid max_len p" and "length (encode_frame p) \<le> limit"
    and "concat chunks = encode_frame p" and "[] \<notin> set chunks"
  shows "deliver recv chunks s = recv (encode_frame p) s"
proof -
  have "chunks \<noteq> []" using assms(5) encode_frame_not_nil [of p] by (metis concat.simps(1))
  then show ?thesis using any_chunking [OF assms, of "[]"] by simp
qed

end

end
