(* ===== verification/Dcutr.thy ===== *)
theory Dcutr
  imports Dcutr_Message Frame_Receiver Multiaddr
begin

text \<open>
  The two roles of DCUtR, \<open>crates/dcutr/src/lib.rs\<close>: the initiator sends its addresses,
  receives those of the responder and then sends SYNC; the responder answers the addresses
  with its own and waits for SYNC. Both read length-prefixed frames from a stream that a
  transport may cut anywhere. The last section runs the two against each other.
\<close>

section \<open>Model\<close>

definition DCUTR_MAX_MESSAGE_SIZE :: nat where "DCUTR_MAX_MESSAGE_SIZE = 4096"
definition MAX_FRAME_PREFIX_LEN :: nat where "MAX_FRAME_PREFIX_LEN = 2"

lemmas dcutr_consts = DCUTR_MAX_MESSAGE_SIZE_def MAX_FRAME_PREFIX_LEN_def

datatype dcutr_error =
    DcMessageTooLarge nat
  | DcFrameTooLarge u64
  | DcMalformed dcutr_message_error
  | DcUnexpectedMessage str

datatype 'mh initiator_outcome =
    DialNow (dial_addrs: "'mh multiaddr list") (dial_bytes: "bytes list") (dial_rtt: u64)

datatype initiator_input =
    InitFlush
  | InitData bytes u64
  | InitRemoteWriteClosed
  | InitSendSync

datatype 'mh initiator_output =
    InitOutbound bytes
  | InitOutcome "'mh initiator_outcome"

datatype initiator_state = InitPending | AwaitingConnectReply | ReadyToSync | SyncPending | InitDone

record 'mh dcutr_initiator =
  in_outbound :: bytes
  in_recv_buf :: bytes
  in_state :: initiator_state
  in_outcome :: "'mh initiator_outcome option"
  in_emitted_outcome :: bool
  in_pending_error :: "dcutr_error option"

datatype 'mh responder_event =
    ConnectReceived "'mh multiaddr list" "bytes list"
  | SyncReceived

datatype responder_input =
    RespFlush
  | RespData bytes
  | RespRemoteWriteClosed

datatype 'mh responder_output =
    RespOutbound bytes
  | RespEvent "'mh responder_event"

datatype responder_state = AwaitingConnect | AwaitingSync | RespDone | RespFailed

record 'mh dcutr_responder =
  re_connect_reply :: bytes
  re_outbound :: bytes
  re_recv_buf :: bytes
  re_state :: responder_state
  re_events :: "'mh responder_event list"
  re_pending_error :: "dcutr_error option"

text \<open>The derived \<open>Debug\<close> names that the error texts quote.\<close>

fun initiator_state_debug :: "initiator_state \<Rightarrow> str" where
  "initiator_state_debug InitPending = str_lit ''Pending''"
| "initiator_state_debug AwaitingConnectReply = str_lit ''AwaitingConnectReply''"
| "initiator_state_debug ReadyToSync = str_lit ''ReadyToSync''"
| "initiator_state_debug SyncPending = str_lit ''SyncPending''"
| "initiator_state_debug InitDone = str_lit ''Done''"

fun responder_state_debug :: "responder_state \<Rightarrow> str" where
  "responder_state_debug AwaitingConnect = str_lit ''AwaitingConnect''"
| "responder_state_debug AwaitingSync = str_lit ''AwaitingSync''"
| "responder_state_debug RespDone = str_lit ''Done''"
| "responder_state_debug RespFailed = str_lit ''Failed''"

fun hole_punch_debug :: "hole_punch_type \<Rightarrow> str" where
  "hole_punch_debug HpConnect = str_lit ''Connect''"
| "hole_punch_debug HpSync = str_lit ''Sync''"

subsection \<open>Shared helpers\<close>

definition dcutr_decode_frame :: "bytes \<Rightarrow> frame_decode" where
  "dcutr_decode_frame input = decode_frame input DCUTR_MAX_MESSAGE_SIZE"

definition enforce_max_size :: "bytes \<Rightarrow> dcutr_error + unit" where
  "enforce_max_size buf =
     (if DCUTR_MAX_MESSAGE_SIZE + MAX_FRAME_PREFIX_LEN < length buf then Inl (DcMessageTooLarge (length buf))
      else Inr ())"

definition checked_outbound_frame :: "bytes \<Rightarrow> dcutr_error + bytes" where
  "checked_outbound_frame payload =
     (if DCUTR_MAX_MESSAGE_SIZE < length payload then Inl (DcMessageTooLarge (length payload))
      else Inr (encode_frame payload))"

fun decode_remote_addrs :: "'mh multihash_ops \<Rightarrow> bytes list \<Rightarrow> 'mh multiaddr list" where
  "decode_remote_addrs mh [] = []"
| "decode_remote_addrs mh (bs # raw) =
     (case multiaddr_from_bytes mh bs [] of
        Inl e \<Rightarrow> decode_remote_addrs mh raw
      | Inr a \<Rightarrow> a # decode_remote_addrs mh raw)"

definition connect_message :: "'mh multihash_ops \<Rightarrow> 'mh multiaddr list \<Rightarrow> hole_punch" where
  "connect_message mh own_addrs =
     \<lparr> hp_kind = HpConnect, hp_obs_addrs = map (multiaddr_to_bytes mh) own_addrs \<rparr>"

subsection \<open>The initiator\<close>

definition initiator_new :: "'mh multihash_ops \<Rightarrow> 'mh multiaddr list \<Rightarrow> 'mh dcutr_initiator" where
  "initiator_new mh own_addrs =
     (case checked_outbound_frame (hole_punch_encode (connect_message mh own_addrs)) of
        Inr frame \<Rightarrow>
          \<lparr> in_outbound = frame, in_recv_buf = [], in_state = InitPending, in_outcome = None,
            in_emitted_outcome = False, in_pending_error = None \<rparr>
      | Inl err \<Rightarrow>
          \<lparr> in_outbound = [], in_recv_buf = [], in_state = InitDone, in_outcome = None,
            in_emitted_outcome = False, in_pending_error = Some err \<rparr>)"

definition initiator_take_outbound :: "'mh dcutr_initiator \<Rightarrow> 'mh dcutr_initiator \<times> bytes" where
  "initiator_take_outbound s =
     (s\<lparr> in_outbound := [],
         in_state := (case in_state s of
             InitPending \<Rightarrow> AwaitingConnectReply | SyncPending \<Rightarrow> InitDone | other \<Rightarrow> other) \<rparr>,
      in_outbound s)"

definition fail_reply :: "'mh dcutr_initiator \<Rightarrow> 'mh dcutr_initiator" where
  "fail_reply s = s\<lparr> in_state := InitDone, in_recv_buf := [] \<rparr>"

definition try_decode_reply ::
  "'mh multihash_ops \<Rightarrow> u64 \<Rightarrow> 'mh dcutr_initiator \<Rightarrow> 'mh dcutr_initiator \<times> (dcutr_error fault + unit)"
where
  "try_decode_reply mh rtt_ms s =
     (if in_state s \<noteq> AwaitingConnectReply then (s, Inr ())
      else case dcutr_decode_frame (in_recv_buf s) of
        FrameComplete payload consumed \<Rightarrow>
          (case hole_punch_decode payload of
             Inl (Err e) \<Rightarrow> (fail_reply s, Inl (Err (DcMalformed e)))
           | Inl Panic \<Rightarrow> (s, Inl Panic)
           | Inl Diverge \<Rightarrow> (s, Inl Diverge)
           | Inr reply \<Rightarrow>
               let s1 = s\<lparr> in_recv_buf := drop consumed (in_recv_buf s) \<rparr> in
               if hp_kind reply \<noteq> HpConnect
               then (fail_reply s1,
                 Inl (Err (DcUnexpectedMessage
                   (str_lit ''expected HolePunch CONNECT but got '' @ hole_punch_debug (hp_kind reply)))))
               else
                 (s1\<lparr> in_state := ReadyToSync,
                      in_outcome := Some (DialNow (decode_remote_addrs mh (hp_obs_addrs reply))
                        (hp_obs_addrs reply) rtt_ms),
                      in_emitted_outcome := False \<rparr>, Inr ()))
      | FrameIncomplete \<Rightarrow>
          (case enforce_max_size (in_recv_buf s) of
             Inl e \<Rightarrow> (fail_reply s, Inl (Err e))
           | Inr _ \<Rightarrow> (s, Inr ()))
      | FrameTooLarge len \<Rightarrow> (fail_reply s, Inl (Err (DcFrameTooLarge len)))
      | FrameError e \<Rightarrow> (fail_reply s, Inl (Err (DcMalformed (DcVarint e)))))"

definition initiator_on_data ::
  "'mh multihash_ops \<Rightarrow> bytes \<Rightarrow> u64 \<Rightarrow> 'mh dcutr_initiator \<Rightarrow> 'mh dcutr_initiator \<times> (dcutr_error fault + unit)"
where
  "initiator_on_data mh data rtt_ms s =
     (if in_state s \<noteq> AwaitingConnectReply then (s, Inr ())
      else try_decode_reply mh rtt_ms (s\<lparr> in_recv_buf := in_recv_buf s @ data \<rparr>))"

definition send_sync :: "'mh dcutr_initiator \<Rightarrow> 'mh dcutr_initiator \<times> (dcutr_error fault + unit)" where
  "send_sync s =
     (if in_state s \<noteq> ReadyToSync
      then (s, Inl (Err (DcUnexpectedMessage
             (str_lit ''cannot send SYNC from state '' @ initiator_state_debug (in_state s)))))
      else case checked_outbound_frame (hole_punch_encode \<lparr> hp_kind = HpSync, hp_obs_addrs = [] \<rparr>) of
        Inl e \<Rightarrow> (s, Inl (Err e))
      | Inr frame \<Rightarrow> (s\<lparr> in_outbound := in_outbound s @ frame, in_state := SyncPending \<rparr>, Inr ()))"

definition initiator_is_done :: "'mh dcutr_initiator \<Rightarrow> bool" where
  "initiator_is_done s \<longleftrightarrow> in_state s = InitDone"

definition initiator_take_trailing :: "'mh dcutr_initiator \<Rightarrow> 'mh dcutr_initiator \<times> bytes option" where
  "initiator_take_trailing s =
     (if in_state s = InitDone \<and> in_outcome s \<noteq> None then (s\<lparr> in_recv_buf := [] \<rparr>, Some (in_recv_buf s))
      else (s, None))"

definition initiator_handle_input ::
  "'mh multihash_ops \<Rightarrow> initiator_input \<Rightarrow> 'mh dcutr_initiator \<Rightarrow> 'mh dcutr_initiator \<times> (dcutr_error fault + unit)"
where
  "initiator_handle_input mh i s =
     (case in_pending_error s of
        Some err \<Rightarrow> (s\<lparr> in_pending_error := None \<rparr>, Inl (Err err))
      | None \<Rightarrow>
          (case i of
             InitFlush \<Rightarrow> (s, Inr ())
           | InitData bs rtt_ms \<Rightarrow> initiator_on_data mh bs rtt_ms s
           | InitRemoteWriteClosed \<Rightarrow> (s, Inr ())
           | InitSendSync \<Rightarrow> send_sync s))"

definition initiator_poll_output :: "'mh dcutr_initiator \<Rightarrow> 'mh dcutr_initiator \<times> 'mh initiator_output option" where
  "initiator_poll_output s =
     (case initiator_take_outbound s of (s1, outbound) \<Rightarrow>
        if outbound \<noteq> [] then (s1, Some (InitOutbound outbound))
        else case in_outcome s1 of
          Some outcome \<Rightarrow>
            if \<not> in_emitted_outcome s1 then (s1\<lparr> in_emitted_outcome := True \<rparr>, Some (InitOutcome outcome))
            else (s1, None)
        | None \<Rightarrow> (s1, None))"

definition initiator_is_idle :: "'mh dcutr_initiator \<Rightarrow> bool" where
  "initiator_is_idle s \<longleftrightarrow>
     in_pending_error s = None \<and> in_outbound s = [] \<and> (in_emitted_outcome s \<or> in_outcome s = None)"

subsection \<open>The responder\<close>

definition responder_new :: "'mh multihash_ops \<Rightarrow> 'mh multiaddr list \<Rightarrow> 'mh dcutr_responder" where
  "responder_new mh own_addrs =
     (case checked_outbound_frame (hole_punch_encode (connect_message mh own_addrs)) of
        Inr frame \<Rightarrow>
          \<lparr> re_connect_reply = frame, re_outbound = [], re_recv_buf = [], re_state = AwaitingConnect,
            re_events = [], re_pending_error = None \<rparr>
      | Inl err \<Rightarrow>
          \<lparr> re_connect_reply = [], re_outbound = [], re_recv_buf = [], re_state = RespFailed,
            re_events = [], re_pending_error = Some err \<rparr>)"

text \<open>The state change for one complete message; \<open>Inl\<close> ends the loop with the error.\<close>

definition responder_on_message ::
  "'mh multihash_ops \<Rightarrow> hole_punch \<Rightarrow> 'mh dcutr_responder \<Rightarrow> 'mh dcutr_responder \<times> (dcutr_error fault + unit)"
where
  "responder_on_message mh msg s =
     (if re_state s = AwaitingConnect \<and> hp_kind msg = HpConnect then
        (s\<lparr> re_outbound := re_outbound s @ re_connect_reply s, re_connect_reply := [],
            re_events := re_events s @
              [ConnectReceived (decode_remote_addrs mh (hp_obs_addrs msg)) (hp_obs_addrs msg)],
            re_state := AwaitingSync \<rparr>, Inr ())
      else if re_state s = AwaitingSync \<and> hp_kind msg = HpSync then
        (s\<lparr> re_events := re_events s @ [SyncReceived], re_state := RespDone \<rparr>, Inr ())
      else
        (s\<lparr> re_state := RespFailed \<rparr>,
         Inl (Err (DcUnexpectedMessage
           (str_lit ''unexpected '' @ hole_punch_debug (hp_kind msg) @ str_lit '' in state '' @
            responder_state_debug (re_state s))))))"

text \<open>
  The loop of \<open>try_decode\<close>. Every turn that goes on moves the state towards the end, so
  the number of steps left bounds it.
\<close>

fun responder_rank :: "responder_state \<Rightarrow> nat" where
  "responder_rank AwaitingConnect = 2"
| "responder_rank AwaitingSync = 1"
| "responder_rank RespDone = 0"
| "responder_rank RespFailed = 0"

function responder_try_decode ::
  "'mh multihash_ops \<Rightarrow> 'mh dcutr_responder \<Rightarrow> 'mh dcutr_responder \<times> (dcutr_error fault + unit)"
where
  "responder_try_decode mh s =
     (if re_state s = RespDone \<or> re_state s = RespFailed then (s, Inr ())
      else case dcutr_decode_frame (re_recv_buf s) of
        FrameComplete payload consumed \<Rightarrow>
          (case hole_punch_decode payload of
             Inl (Err e) \<Rightarrow> (s\<lparr> re_state := RespFailed \<rparr>, Inl (Err (DcMalformed e)))
           | Inl Panic \<Rightarrow> (s, Inl Panic)
           | Inl Diverge \<Rightarrow> (s, Inl Diverge)
           | Inr msg \<Rightarrow>
               (case responder_on_message mh msg (s\<lparr> re_recv_buf := drop consumed (re_recv_buf s) \<rparr>) of
                  (s1, Inl e) \<Rightarrow> (s1, Inl e)
                | (s1, Inr _) \<Rightarrow> responder_try_decode mh s1))
      | FrameIncomplete \<Rightarrow>
          (case enforce_max_size (re_recv_buf s) of
             Inl e \<Rightarrow> (s\<lparr> re_state := RespFailed \<rparr>, Inl (Err e))
           | Inr _ \<Rightarrow> (s, Inr ()))
      | FrameTooLarge len \<Rightarrow> (s\<lparr> re_state := RespFailed \<rparr>, Inl (Err (DcFrameTooLarge len)))
      | FrameError e \<Rightarrow> (s\<lparr> re_state := RespFailed \<rparr>, Inl (Err (DcMalformed (DcVarint e)))))"
  by pat_completeness auto
termination
  by (relation "measure (\<lambda>(mh, s). responder_rank (re_state s))")
    (auto simp: responder_on_message_def split: if_splits)

declare responder_try_decode.simps [simp del]

definition responder_on_data ::
  "'mh multihash_ops \<Rightarrow> bytes \<Rightarrow> 'mh dcutr_responder \<Rightarrow> 'mh dcutr_responder \<times> (dcutr_error fault + unit)"
where
  "responder_on_data mh data s =
     (if re_state s = RespDone \<or> re_state s = RespFailed then (s, Inr ())
      else responder_try_decode mh (s\<lparr> re_recv_buf := re_recv_buf s @ data \<rparr>))"

definition responder_is_done :: "'mh dcutr_responder \<Rightarrow> bool" where
  "responder_is_done s \<longleftrightarrow> re_state s = RespDone \<or> re_state s = RespFailed"

definition responder_take_trailing :: "'mh dcutr_responder \<Rightarrow> 'mh dcutr_responder \<times> bytes option" where
  "responder_take_trailing s =
     (if re_state s = RespDone then (s\<lparr> re_recv_buf := [] \<rparr>, Some (re_recv_buf s)) else (s, None))"

definition responder_handle_input ::
  "'mh multihash_ops \<Rightarrow> responder_input \<Rightarrow> 'mh dcutr_responder \<Rightarrow> 'mh dcutr_responder \<times> (dcutr_error fault + unit)"
where
  "responder_handle_input mh i s =
     (case re_pending_error s of
        Some err \<Rightarrow> (s\<lparr> re_pending_error := None \<rparr>, Inl (Err err))
      | None \<Rightarrow>
          (case i of
             RespFlush \<Rightarrow> (s, Inr ())
           | RespData data \<Rightarrow> responder_on_data mh data s
           | RespRemoteWriteClosed \<Rightarrow> responder_try_decode mh s))"

definition responder_poll_output :: "'mh dcutr_responder \<Rightarrow> 'mh dcutr_responder \<times> 'mh responder_output option" where
  "responder_poll_output s =
     (if re_outbound s \<noteq> [] then (s\<lparr> re_outbound := [] \<rparr>, Some (RespOutbound (re_outbound s)))
      else case re_events s of
        [] \<Rightarrow> (s\<lparr> re_outbound := [] \<rparr>, None)
      | e # es \<Rightarrow> (s\<lparr> re_outbound := [], re_events := es \<rparr>, Some (RespEvent e)))"

definition responder_is_idle :: "'mh dcutr_responder \<Rightarrow> bool" where
  "responder_is_idle s \<longleftrightarrow> re_pending_error s = None \<and> re_outbound s = [] \<and> re_events s = []"

section \<open>Frames and addresses\<close>

lemma decode_remote_addrs_to_bytes:
  assumes "multihash_laws mh" and "\<forall>a \<in> set addrs. \<forall>p \<in> set a. protocol_wf mh p"
  shows "decode_remote_addrs mh (map (multiaddr_to_bytes mh) addrs) = addrs"
  using assms(2) from_to_bytes_acc [OF assms(1), where acc = "[]"]
  by (induction addrs) simp_all

lemma dcutr_frame_valid:
  assumes "length p \<le> DCUTR_MAX_MESSAGE_SIZE"
  shows "frame_valid DCUTR_MAX_MESSAGE_SIZE p"
    and "length (encode_frame p) \<le> DCUTR_MAX_MESSAGE_SIZE + MAX_FRAME_PREFIX_LEN"
proof -
  have "unat (word_of_nat (length p) :: u64) = length p"
    using assms by (intro unat_word_of_nat) (simp add: dcutr_consts)
  then have "uvarint_len (word_of_nat (length p)) \<le> 2"
    using assms uvarint_len_le_iff [of 2 "word_of_nat (length p)"] by (simp add: dcutr_consts)
  then show "length (encode_frame p) \<le> DCUTR_MAX_MESSAGE_SIZE + MAX_FRAME_PREFIX_LEN"
    using assms by (simp add: encode_frame_def length_write_uvarint dcutr_consts)
  then show "frame_valid DCUTR_MAX_MESSAGE_SIZE p"
    using assms by (simp add: frame_valid_def dcutr_consts usize_max_def)
qed

lemma dcutr_decode_encode:
  assumes "length (hole_punch_encode h) \<le> DCUTR_MAX_MESSAGE_SIZE"
  shows "dcutr_decode_frame (encode_frame (hole_punch_encode h) @ rest) =
      FrameComplete (hole_punch_encode h) (length (encode_frame (hole_punch_encode h)))"
    and "hole_punch_decode (hole_punch_encode h) = Inr h"
  using assms dcutr_frame_valid(1) [OF assms]
  by (simp_all add: dcutr_decode_frame_def decode_encode_frame hole_punch_round_trip dcutr_consts usize_max_def)

definition initiator_waiting :: "'mh dcutr_initiator \<Rightarrow> bool" where
  "initiator_waiting s \<longleftrightarrow> in_pending_error s = None \<and> in_state s = AwaitingConnectReply"

definition responder_waiting :: "'mh dcutr_responder \<Rightarrow> bool" where
  "responder_waiting s \<longleftrightarrow>
     re_pending_error s = None \<and> (re_state s = AwaitingConnect \<or> re_state s = AwaitingSync)"

interpretation initiator_frames: frame_receiver "\<lambda>data. initiator_handle_input mh (InitData data rtt_ms)"
  in_recv_buf "\<lambda>b s. s\<lparr> in_recv_buf := b \<rparr>" initiator_waiting
  DCUTR_MAX_MESSAGE_SIZE "DCUTR_MAX_MESSAGE_SIZE + MAX_FRAME_PREFIX_LEN"
  for mh rtt_ms
  by unfold_locales
    (simp_all add: initiator_waiting_def initiator_handle_input_def initiator_on_data_def try_decode_reply_def
      dcutr_decode_frame_def enforce_max_size_def)

interpretation responder_frames: frame_receiver "\<lambda>data. responder_handle_input mh (RespData data)"
  re_recv_buf "\<lambda>b s. s\<lparr> re_recv_buf := b \<rparr>" responder_waiting
  DCUTR_MAX_MESSAGE_SIZE "DCUTR_MAX_MESSAGE_SIZE + MAX_FRAME_PREFIX_LEN"
  for mh
  by unfold_locales
    (auto simp: responder_waiting_def responder_handle_input_def responder_on_data_def
      responder_try_decode.simps [of mh "_\<lparr> re_recv_buf := _ \<rparr>"] dcutr_decode_frame_def enforce_max_size_def)

section \<open>One exchange\<close>

definition connect_fits :: "'mh multihash_ops \<Rightarrow> 'mh multiaddr list \<Rightarrow> bool" where
  "connect_fits mh addrs \<longleftrightarrow> length (hole_punch_encode (connect_message mh addrs)) \<le> DCUTR_MAX_MESSAGE_SIZE"

definition connect_frame :: "'mh multihash_ops \<Rightarrow> 'mh multiaddr list \<Rightarrow> bytes" where
  "connect_frame mh addrs = encode_frame (hole_punch_encode (connect_message mh addrs))"

definition sync_frame :: bytes where
  "sync_frame = encode_frame (hole_punch_encode \<lparr> hp_kind = HpSync, hp_obs_addrs = [] \<rparr>)"

lemma connect_frame_not_nil [simp]: "connect_frame mh addrs \<noteq> []" "sync_frame \<noteq> []"
  by (simp_all add: connect_frame_def sync_frame_def)

lemma sync_fits: "length (hole_punch_encode \<lparr> hp_kind = HpSync, hp_obs_addrs = [] \<rparr>) \<le> DCUTR_MAX_MESSAGE_SIZE"
  using uvarint_len_le_10 [of 300]
  by (simp add: hole_punch_encode_def encode_varint_field_def dcutr_consts length_write_uvarint
      write_uvarint_acc [of _ "[tag_byte 1 0]"])

lemma connect_checked:
  "connect_fits mh addrs \<Longrightarrow>
     checked_outbound_frame (hole_punch_encode (connect_message mh addrs)) = Inr (connect_frame mh addrs)"
  by (simp add: checked_outbound_frame_def connect_fits_def connect_frame_def)

lemma sync_checked:
  "checked_outbound_frame (hole_punch_encode \<lparr> hp_kind = HpSync, hp_obs_addrs = [] \<rparr>) = Inr sync_frame"
  using sync_fits by (simp add: checked_outbound_frame_def sync_frame_def)

text \<open>The reply arrives at the initiator, with application bytes behind it.\<close>

lemma initiator_gets_reply:
  assumes "multihash_laws mh" and "\<forall>a \<in> set addrs. \<forall>p \<in> set a. protocol_wf mh p" and "connect_fits mh addrs"
    and "initiator_waiting s" and "in_recv_buf s = []"
  shows "initiator_handle_input mh (InitData (connect_frame mh addrs @ app) rtt_ms) s =
    (s\<lparr> in_recv_buf := app, in_state := ReadyToSync,
        in_outcome := Some (DialNow addrs (map (multiaddr_to_bytes mh) addrs) rtt_ms),
        in_emitted_outcome := False \<rparr>, Inr ())"
  using assms dcutr_decode_encode [of "connect_message mh addrs"]
  by (simp add: initiator_waiting_def initiator_handle_input_def initiator_on_data_def try_decode_reply_def
      connect_fits_def connect_frame_def)
    (simp add: connect_message_def decode_remote_addrs_to_bytes)

lemma responder_gets_connect:
  assumes "multihash_laws mh" and "\<forall>a \<in> set addrs. \<forall>p \<in> set a. protocol_wf mh p" and "connect_fits mh addrs"
    and "re_pending_error s = None" and "re_state s = AwaitingConnect" and "re_recv_buf s = []"
  shows "responder_handle_input mh (RespData (connect_frame mh addrs)) s =
    (s\<lparr> re_outbound := re_outbound s @ re_connect_reply s, re_connect_reply := [],
        re_events := re_events s @ [ConnectReceived addrs (map (multiaddr_to_bytes mh) addrs)],
        re_state := AwaitingSync \<rparr>, Inr ())"
proof -
  have "dcutr_decode_frame [] = FrameIncomplete" by (simp add: dcutr_decode_frame_def decode_frame_def)
  then show ?thesis
    using assms dcutr_decode_encode(1) [of "connect_message mh addrs" "[]"]
      dcutr_decode_encode(2) [of "connect_message mh addrs"]
    by (simp add: responder_handle_input_def responder_on_data_def responder_try_decode.simps connect_fits_def
        connect_frame_def)
      (simp add: responder_on_message_def connect_message_def decode_remote_addrs_to_bytes
        responder_try_decode.simps enforce_max_size_def)
qed

lemma responder_gets_sync:
  assumes "re_pending_error s = None" and "re_state s = AwaitingSync" and "re_recv_buf s = []"
  shows "responder_handle_input mh (RespData (sync_frame @ app)) s =
    (s\<lparr> re_recv_buf := app, re_events := re_events s @ [SyncReceived], re_state := RespDone \<rparr>, Inr ())"
  using assms dcutr_decode_encode [OF sync_fits]
  by (simp add: responder_handle_input_def responder_on_data_def responder_try_decode.simps sync_frame_def)
    (simp add: responder_on_message_def responder_try_decode.simps)

text \<open>The same steps with the frame cut into chunks.\<close>

lemma initiator_reply_chunks:
  assumes "multihash_laws mh" and "\<forall>a \<in> set addrs. \<forall>p \<in> set a. protocol_wf mh p" and "connect_fits mh addrs"
    and "initiator_waiting s" and "in_recv_buf s = []" and "concat c = connect_frame mh addrs" and "[] \<notin> set c"
  shows "deliver (\<lambda>d. initiator_handle_input mh (InitData d rtt_ms)) c s =
    (s\<lparr> in_recv_buf := [], in_state := ReadyToSync,
        in_outcome := Some (DialNow addrs (map (multiaddr_to_bytes mh) addrs) rtt_ms),
        in_emitted_outcome := False \<rparr>, Inr ())"
  using initiator_frames.whole_frame [OF assms(4,5) _ _ assms(6) [unfolded connect_frame_def] assms(7)]
    dcutr_frame_valid [of "hole_punch_encode (connect_message mh addrs)"] assms(3)
    initiator_gets_reply [OF assms(1-5), of "[]" rtt_ms]
  by (simp add: connect_frame_def connect_fits_def)

lemma responder_connect_chunks:
  assumes "multihash_laws mh" and "\<forall>a \<in> set addrs. \<forall>p \<in> set a. protocol_wf mh p" and "connect_fits mh addrs"
    and "re_pending_error s = None" and "re_state s = AwaitingConnect" and "re_recv_buf s = []"
    and "concat c = connect_frame mh addrs" and "[] \<notin> set c"
  shows "deliver (\<lambda>d. responder_handle_input mh (RespData d)) c s =
    (s\<lparr> re_outbound := re_outbound s @ re_connect_reply s, re_connect_reply := [],
        re_events := re_events s @ [ConnectReceived addrs (map (multiaddr_to_bytes mh) addrs)],
        re_state := AwaitingSync \<rparr>, Inr ())"
  using responder_frames.whole_frame [OF _ assms(6) _ _ assms(7) [unfolded connect_frame_def] assms(8)]
    dcutr_frame_valid [of "hole_punch_encode (connect_message mh addrs)"] assms(3-5)
    responder_gets_connect [OF assms(1-6)]
  by (simp add: connect_frame_def connect_fits_def responder_waiting_def)

lemma responder_sync_chunks:
  assumes "re_pending_error s = None" and "re_state s = AwaitingSync" and "re_recv_buf s = []"
    and "concat c = sync_frame" and "[] \<notin> set c"
  shows "deliver (\<lambda>d. responder_handle_input mh (RespData d)) (butlast c @ [last c @ app]) s =
    (s\<lparr> re_recv_buf := app, re_events := re_events s @ [SyncReceived], re_state := RespDone \<rparr>, Inr ())"
proof -
  have "responder_waiting s" using assms by (simp add: responder_waiting_def)
  then show ?thesis
    using responder_frames.any_chunking [OF _ assms(3) _ _ _ assms(5), where app = app and mh = mh]
      assms(4) dcutr_frame_valid [OF sync_fits] responder_gets_sync [OF assms(1-3)]
    by (simp add: sync_frame_def)
qed

text \<open>
  C36. The whole exchange between an initiator and a responder whose addresses fit in a
  message, over a stream that delivers each frame in arbitrary non-empty chunks: the
  responder learns exactly the addresses of the initiator and answers with its own, the
  initiator is told to dial exactly those together with the measured round trip, its SYNC
  completes the responder, and the application bytes that arrive in one piece with the end
  of the SYNC are handed over unchanged. No step reports an error.
\<close>

theorem dcutr_exchange:
  assumes "multihash_laws mh"
    and "\<forall>a \<in> set as. \<forall>p \<in> set a. protocol_wf mh p" and "connect_fits mh as"
    and "\<forall>b \<in> set bs. \<forall>p \<in> set b. protocol_wf mh p" and "connect_fits mh bs"
  shows "\<exists>i1 w1 r1 r2 w2 i2 i3 i4 i5 w3 r3.
    initiator_poll_output (initiator_new mh as) = (i1, Some (InitOutbound w1)) \<and>
    (\<forall>c. concat c = w1 \<and> [] \<notin> set c \<longrightarrow>
       deliver (\<lambda>d. responder_handle_input mh (RespData d)) c (responder_new mh bs) = (r1, Inr ())) \<and>
    poll_many responder_poll_output 3 r1 =
      (r2, [RespOutbound w2, RespEvent (ConnectReceived as (map (multiaddr_to_bytes mh) as))]) \<and>
    (\<forall>c. concat c = w2 \<and> [] \<notin> set c \<longrightarrow>
       deliver (\<lambda>d. initiator_handle_input mh (InitData d rtt)) c i1 = (i2, Inr ())) \<and>
    poll_many initiator_poll_output 2 i2 =
      (i3, [InitOutcome (DialNow bs (map (multiaddr_to_bytes mh) bs) rtt)]) \<and>
    initiator_handle_input mh InitSendSync i3 = (i4, Inr ()) \<and>
    initiator_poll_output i4 = (i5, Some (InitOutbound w3)) \<and> initiator_is_done i5 \<and>
    (\<forall>c app. concat c = w3 \<and> [] \<notin> set c \<longrightarrow>
       deliver (\<lambda>d. responder_handle_input mh (RespData d)) (butlast c @ [last c @ app]) r2 =
         (r3\<lparr> re_recv_buf := app \<rparr>, Inr ())) \<and>
    (\<forall>app. snd (poll_many responder_poll_output 2 (r3\<lparr> re_recv_buf := app \<rparr>)) = [RespEvent SyncReceived] \<and>
       snd (responder_take_trailing (r3\<lparr> re_recv_buf := app \<rparr>)) = Some app)"
proof -
  define i1 where "i1 = (initiator_new mh as)\<lparr> in_outbound := [], in_state := AwaitingConnectReply \<rparr>"
  define r1 where "r1 = (responder_new mh bs)\<lparr> re_outbound := connect_frame mh bs, re_connect_reply := [],
    re_events := [ConnectReceived as (map (multiaddr_to_bytes mh) as)], re_state := AwaitingSync \<rparr>"
  define r2 where "r2 = r1\<lparr> re_outbound := [], re_events := [] \<rparr>"
  define i2 where "i2 = i1\<lparr> in_recv_buf := [], in_state := ReadyToSync,
    in_outcome := Some (DialNow bs (map (multiaddr_to_bytes mh) bs) rtt), in_emitted_outcome := False \<rparr>"
  define i3 where "i3 = i2\<lparr> in_emitted_outcome := True \<rparr>"
  define i4 where "i4 = i3\<lparr> in_outbound := sync_frame, in_state := SyncPending \<rparr>"
  define r3 where "r3 = r2\<lparr> re_events := [SyncReceived], re_state := RespDone \<rparr>"
  note start = initiator_new_def responder_new_def connect_checked [OF assms(3)] connect_checked [OF assms(5)]
  note states = i1_def i2_def i3_def i4_def r1_def r2_def r3_def start
  note polls = initiator_poll_output_def initiator_take_outbound_def responder_poll_output_def numeral_eq_Suc
  have "initiator_poll_output (initiator_new mh as) = (i1, Some (InitOutbound (connect_frame mh as)))"
    by (simp add: polls i1_def start)
  moreover have "deliver (\<lambda>d. responder_handle_input mh (RespData d)) c (responder_new mh bs) = (r1, Inr ())"
    if "concat c = connect_frame mh as" "[] \<notin> set c" for c
    using responder_connect_chunks [OF assms(1-3) _ _ _ that, of "responder_new mh bs"] by (simp add: r1_def start)
  moreover have "poll_many responder_poll_output 3 r1 = (r2,
      [RespOutbound (connect_frame mh bs), RespEvent (ConnectReceived as (map (multiaddr_to_bytes mh) as))])"
    by (simp add: polls r1_def r2_def start)
  moreover have "deliver (\<lambda>d. initiator_handle_input mh (InitData d rtt)) c i1 = (i2, Inr ())"
    if "concat c = connect_frame mh bs" "[] \<notin> set c" for c
    using initiator_reply_chunks [OF assms(1,4,5) _ _ that, of i1 rtt]
    by (simp add: i1_def i2_def start initiator_waiting_def)
  moreover have "poll_many initiator_poll_output 2 i2 =
      (i3, [InitOutcome (DialNow bs (map (multiaddr_to_bytes mh) bs) rtt)])"
    by (simp add: polls i3_def i2_def i1_def start)
  moreover have "initiator_handle_input mh InitSendSync i3 = (i4, Inr ())"
    by (simp add: initiator_handle_input_def send_sync_def sync_checked states)
  moreover have "initiator_poll_output i4 = (i4\<lparr> in_outbound := [], in_state := InitDone \<rparr>, Some (InitOutbound sync_frame))"
    "initiator_is_done (i4\<lparr> in_outbound := [], in_state := InitDone \<rparr>)"
    by (simp_all add: polls initiator_is_done_def states)
  moreover have "deliver (\<lambda>d. responder_handle_input mh (RespData d)) (butlast c @ [last c @ app]) r2 =
      (r3\<lparr> re_recv_buf := app \<rparr>, Inr ())" if "concat c = sync_frame" "[] \<notin> set c" for c app
    using responder_sync_chunks [OF _ _ _ that, of r2 mh app] by (simp add: r3_def r2_def r1_def start)
  moreover have "snd (poll_many responder_poll_output 2 (r3\<lparr> re_recv_buf := app \<rparr>)) = [RespEvent SyncReceived]"
    "snd (responder_take_trailing (r3\<lparr> re_recv_buf := app \<rparr>)) = Some app" for app
    by (simp_all add: polls responder_take_trailing_def states)
  ultimately show ?thesis by blast
qed

definition sample_addrs :: "(u64 \<times> bytes) multiaddr list" where
  "sample_addrs = [[Ip4 [10, 0, 0, 1], Tcp 80]]"

lemma sample_connect_fits: "connect_fits plain_multihash sample_addrs"
proof -
  have "multiaddr_to_bytes plain_multihash [Ip4 [10, 0, 0, 1], Tcp 80] = [4, 10, 0, 0, 1, 6, 0, 80]"
    by (simp add: multiaddr_to_bytes_def write_binary_def IP4_CODE_def TCP_CODE_def u16_to_be_def
        write_uvarint.simps [of 4] write_uvarint.simps [of 6])
  then show ?thesis
    by (simp add: connect_fits_def connect_message_def sample_addrs_def hole_punch_encode_fields
        hole_punch_fields_def enc_fields_def enc_field_def enc_tag_def rep_field_def write_uvarint_nil dcutr_consts)
qed

theorem dcutr_exchange_witness:
  "\<exists>i1 w1 r1.
    initiator_poll_output (initiator_new plain_multihash sample_addrs) = (i1, Some (InitOutbound w1)) \<and>
    (\<forall>c. concat c = w1 \<and> [] \<notin> set c \<longrightarrow>
       deliver (\<lambda>d. responder_handle_input plain_multihash (RespData d)) c (responder_new plain_multihash []) =
         (r1, Inr ()))"
proof -
  have "connect_fits plain_multihash []"
    by (simp add: connect_fits_def connect_message_def hole_punch_encode_def encode_varint_field_def dcutr_consts
        write_uvarint_nil write_uvarint_acc [of _ "[tag_byte 1 0]"])
  moreover have "\<forall>a \<in> set sample_addrs. \<forall>p \<in> set a. protocol_wf plain_multihash p"
    by (simp add: sample_addrs_def)
  ultimately show ?thesis
    using dcutr_exchange [OF plain_multihash_laws, of sample_addrs "[]" 7] sample_connect_fits by auto
qed

section \<open>Every peer\<close>

text \<open>
  Runs of a responder: any inputs, in any order, with outputs taken at any time. A buffer
  never outgrows the address space.
\<close>

fun input_fits :: "responder_input \<Rightarrow> 'mh dcutr_responder \<Rightarrow> bool" where
  "input_fits (RespData d) s \<longleftrightarrow> length (re_recv_buf s) + length d \<le> usize_max"
| "input_fits _ s \<longleftrightarrow> length (re_recv_buf s) \<le> usize_max"

inductive responder_run ::
  "'mh multihash_ops \<Rightarrow> 'mh multiaddr list \<Rightarrow> 'mh dcutr_responder \<Rightarrow> 'mh responder_output list \<Rightarrow> bool"
  for mh own_addrs
where
  run_start: "responder_run mh own_addrs (responder_new mh own_addrs) []"
| run_input: "responder_run mh own_addrs s outs \<Longrightarrow> input_fits i s \<Longrightarrow>
    responder_run mh own_addrs (fst (responder_handle_input mh i s)) outs"
| run_poll: "responder_run mh own_addrs s outs \<Longrightarrow>
    responder_run mh own_addrs (fst (responder_poll_output s))
      (outs @ (case snd (responder_poll_output s) of None \<Rightarrow> [] | Some out \<Rightarrow> [out]))"

fun sent_bytes :: "'mh responder_output list \<Rightarrow> bytes" where
  "sent_bytes [] = []"
| "sent_bytes (RespOutbound bs # outs) = bs @ sent_bytes outs"
| "sent_bytes (RespEvent e # outs) = sent_bytes outs"

fun seen_events :: "'mh responder_output list \<Rightarrow> 'mh responder_event list" where
  "seen_events [] = []"
| "seen_events (RespOutbound bs # outs) = seen_events outs"
| "seen_events (RespEvent e # outs) = e # seen_events outs"

lemma sent_bytes_append [simp]: "sent_bytes (xs @ ys) = sent_bytes xs @ sent_bytes ys"
  by (induction xs rule: sent_bytes.induct) simp_all

lemma seen_events_append [simp]: "seen_events (xs @ ys) = seen_events xs @ seen_events ys"
  by (induction xs rule: seen_events.induct) simp_all

text \<open>
  What was reported and sent, counted together with what is queued, is determined by the
  state up to the addresses in the first message.
\<close>

definition responder_progress :: "bytes \<Rightarrow> 'mh responder_event list \<Rightarrow> bytes \<Rightarrow> 'mh dcutr_responder \<Rightarrow> bool" where
  "responder_progress reply evs sent s \<longleftrightarrow>
     (case re_state s of
        AwaitingConnect \<Rightarrow> evs = [] \<and> sent = [] \<and> re_connect_reply s = reply
      | AwaitingSync \<Rightarrow> (\<exists>a b. evs = [ConnectReceived a b]) \<and> sent = reply
      | RespDone \<Rightarrow> (\<exists>a b. evs = [ConnectReceived a b, SyncReceived]) \<and> sent = reply
      | RespFailed \<Rightarrow> evs = [] \<and> sent = [] \<or> (\<exists>a b. evs = [ConnectReceived a b]) \<and> sent = reply)"

definition responder_ok :: "bytes \<Rightarrow> 'mh dcutr_responder \<Rightarrow> 'mh responder_output list \<Rightarrow> bool" where
  "responder_ok reply s outs \<longleftrightarrow>
     responder_progress reply (seen_events outs @ re_events s) (sent_bytes outs @ re_outbound s) s \<and>
     (re_state s \<in> {AwaitingConnect, AwaitingSync} \<longrightarrow> length (re_recv_buf s) \<le> 4098)"

lemma responder_progress_frame [simp]:
  "responder_progress reply evs sent (s\<lparr> re_recv_buf := b \<rparr>) = responder_progress reply evs sent s"
  "responder_progress reply evs sent (s\<lparr> re_outbound := b \<rparr>) = responder_progress reply evs sent s"
  "responder_progress reply evs sent (s\<lparr> re_events := es \<rparr>) = responder_progress reply evs sent s"
  "responder_progress reply evs sent (s\<lparr> re_pending_error := e \<rparr>) = responder_progress reply evs sent s"
  by (simp_all add: responder_progress_def split: responder_state.split)

lemma responder_on_message_ok:
  assumes "responder_on_message mh msg s = (s1, r)" and "re_state s \<noteq> RespDone" and "re_state s \<noteq> RespFailed"
    and "responder_progress reply (evs @ re_events s) (sent @ re_outbound s) s"
  shows "responder_progress reply (evs @ re_events s1) (sent @ re_outbound s1) s1"
    and "re_recv_buf s1 = re_recv_buf s" and "r \<noteq> Inl Panic" and "r \<noteq> Inl Diverge"
    and "r \<noteq> Inr () \<Longrightarrow> re_state s1 = RespFailed"
  using assms
  by (auto simp: responder_on_message_def responder_progress_def split: if_splits responder_state.splits)

lemma responder_try_decode_ok:
  assumes "length (re_recv_buf s) \<le> usize_max"
    and "responder_progress reply (evs @ re_events s) (sent @ re_outbound s) s"
  shows "responder_progress reply (evs @ re_events (fst (responder_try_decode mh s)))
       (sent @ re_outbound (fst (responder_try_decode mh s))) (fst (responder_try_decode mh s)) \<and>
     (re_state (fst (responder_try_decode mh s)) \<in> {AwaitingConnect, AwaitingSync} \<longrightarrow>
        length (re_recv_buf (fst (responder_try_decode mh s))) \<le> 4098) \<and>
     snd (responder_try_decode mh s) \<noteq> Inl Panic \<and> snd (responder_try_decode mh s) \<noteq> Inl Diverge"
  using assms
proof (induction mh s rule: responder_try_decode.induct)
  case (1 mh s)
  show ?case
  proof (cases "re_state s = RespDone \<or> re_state s = RespFailed")
    case True
    with "1.prems" show ?thesis by (subst (1 2 3 4 5 6 7) responder_try_decode.simps) auto
  next
    case False
    show ?thesis
    proof (cases "dcutr_decode_frame (re_recv_buf s)")
      case (FrameComplete payload consumed)
      have "length payload \<le> usize_max"
        using FrameComplete by (auto simp: dcutr_decode_frame_def decode_frame_complete_iff [OF "1.prems"(1)]
            dcutr_consts usize_max_def)
      then have fault: "hole_punch_decode payload \<noteq> Inl Panic" "hole_punch_decode payload \<noteq> Inl Diverge"
        by (simp_all add: hole_punch_no_fault)
      show ?thesis
      proof (cases "hole_punch_decode payload")
        case (Inl e)
        with fault obtain e' where "responder_try_decode mh s = (s\<lparr> re_state := RespFailed \<rparr>, Inl (Err (DcMalformed e')))"
          using FrameComplete False by (cases e) (auto simp: responder_try_decode.simps [of mh s])
        with False "1.prems" show ?thesis
          by (auto simp: responder_progress_def split: responder_state.splits)
      next
        case (Inr msg)
        let ?s = "s\<lparr> re_recv_buf := drop consumed (re_recv_buf s) \<rparr>"
        obtain s1 r where step: "responder_on_message mh msg ?s = (s1, r)" by force
        have prog: "responder_progress reply (evs @ re_events ?s) (sent @ re_outbound ?s) ?s"
          using "1.prems"(2) by simp
        note ok = responder_on_message_ok [OF step _ _ prog]
        show ?thesis
        proof (cases r)
          case (Inl e)
          with step FrameComplete \<open>hole_punch_decode payload = Inr msg\<close> False
          have "responder_try_decode mh s = (s1, r)" by (simp add: responder_try_decode.simps [of mh s])
          with ok False Inl show ?thesis by simp
        next
          case (Inr u)
          with step FrameComplete \<open>hole_punch_decode payload = Inr msg\<close> False
          have eq: "responder_try_decode mh s = responder_try_decode mh s1"
            by (simp add: responder_try_decode.simps [of mh s])
          have "length (re_recv_buf s1) \<le> usize_max" using ok(2) False "1.prems"(1) by simp
          with "1.IH" [OF _ FrameComplete \<open>hole_punch_decode payload = Inr msg\<close> step [symmetric]] ok(1) False Inr
          show ?thesis unfolding eq by simp
        qed
      qed
    qed (use False "1.prems" in \<open>auto simp: responder_try_decode.simps [of mh s] enforce_max_size_def dcutr_consts
      responder_progress_def split: responder_state.splits\<close>)
  qed
qed

lemma responder_input_ok:
  assumes "responder_ok reply s outs" and "input_fits i s"
  shows "responder_ok reply (fst (responder_handle_input mh i s)) outs"
    and "snd (responder_handle_input mh i s) \<noteq> Inl Panic" and "snd (responder_handle_input mh i s) \<noteq> Inl Diverge"
proof -
  have prog: "responder_progress reply (seen_events outs @ re_events s) (sent_bytes outs @ re_outbound s)
      (s\<lparr> re_recv_buf := b \<rparr>)" for b
    using assms(1) by (simp add: responder_ok_def)
  have same: "s\<lparr> re_recv_buf := re_recv_buf s \<rparr> = s" by simp
  have loop: "responder_ok reply (fst (responder_try_decode mh (s\<lparr> re_recv_buf := b \<rparr>))) outs \<and>
      snd (responder_try_decode mh (s\<lparr> re_recv_buf := b \<rparr>)) \<noteq> Inl Panic \<and>
      snd (responder_try_decode mh (s\<lparr> re_recv_buf := b \<rparr>)) \<noteq> Inl Diverge" if "length b \<le> usize_max" for b
    using responder_try_decode_ok [of "s\<lparr> re_recv_buf := b \<rparr>" reply "seen_events outs" "sent_bytes outs" mh] prog that
    by (auto simp: responder_ok_def)
  have err: "responder_ok reply (s\<lparr> re_pending_error := None \<rparr>) outs"
    if "re_pending_error s \<noteq> None" using assms(1) that
    by (simp add: responder_ok_def)
  show "responder_ok reply (fst (responder_handle_input mh i s)) outs"
    and "snd (responder_handle_input mh i s) \<noteq> Inl Panic" and "snd (responder_handle_input mh i s) \<noteq> Inl Diverge"
    using assms loop [of "re_recv_buf s"] loop [of "re_recv_buf s @ d" for d] err
    by (cases i; auto simp: responder_handle_input_def responder_on_data_def same split: option.splits)+
qed

lemma responder_poll_ok:
  assumes "responder_ok reply s outs"
  shows "responder_ok reply (fst (responder_poll_output s))
     (outs @ (case snd (responder_poll_output s) of None \<Rightarrow> [] | Some out \<Rightarrow> [out]))"
  using assms
  by (auto simp: responder_poll_output_def responder_ok_def split: list.splits)

text \<open>
  C37. Whatever a remote peer sends, in whatever pieces and order, and whenever outputs are
  taken: the responder reports at most the addresses of the peer once and then, only after
  them, the SYNC; it sends nothing before it has the addresses and exactly its own
  reply afterwards; while it waits for a message its buffer holds at most one frame of
  4096 bytes with its prefix; and no input makes it panic or loop.
\<close>

theorem dcutr_responder_protocol:
  assumes "responder_run mh own_addrs s outs" and "connect_fits mh own_addrs"
  shows "(\<exists>a b. prefix (seen_events outs) [ConnectReceived a b, SyncReceived]) \<and>
    prefix (sent_bytes outs) (connect_frame mh own_addrs) \<and>
    (sent_bytes outs \<noteq> [] \<longrightarrow> seen_events outs @ re_events s \<noteq> []) \<and>
    (seen_events outs \<noteq> [] \<longrightarrow> sent_bytes outs @ re_outbound s = connect_frame mh own_addrs) \<and>
    (responder_waiting s \<longrightarrow> length (re_recv_buf s) \<le> 4098) \<and>
    (\<forall>i. input_fits i s \<longrightarrow>
       snd (responder_handle_input mh i s) \<noteq> Inl Panic \<and> snd (responder_handle_input mh i s) \<noteq> Inl Diverge)"
proof -
  have ok: "responder_ok (connect_frame mh own_addrs) s outs"
    using assms(1)
  proof induction
    case run_start
    show ?case
      by (simp add: responder_ok_def responder_progress_def responder_new_def connect_checked [OF assms(2)])
  qed (simp_all add: responder_input_ok responder_poll_ok)
  define evs sent where "evs = seen_events outs @ re_events s" and "sent = sent_bytes outs @ re_outbound s"
  then have prog: "responder_progress (connect_frame mh own_addrs) evs sent s"
    using ok by (simp add: responder_ok_def)
  then obtain a b where "evs = [] \<or> evs = [ConnectReceived a b] \<or> evs = [ConnectReceived a b, SyncReceived]"
    by (auto simp: responder_progress_def split: responder_state.splits)
  then have "prefix evs [ConnectReceived a b, SyncReceived]" by auto
  then have "prefix (seen_events outs) [ConnectReceived a b, SyncReceived]"
    unfolding evs_def by (rule append_prefixD)
  moreover from prog have bytes: "sent = (if evs = [] then [] else connect_frame mh own_addrs)"
    by (auto simp: responder_progress_def split: responder_state.splits)
  then have "prefix sent (connect_frame mh own_addrs)" by simp
  then have "prefix (sent_bytes outs) (connect_frame mh own_addrs)"
    unfolding sent_def by (rule append_prefixD)
  moreover from bytes have "sent_bytes outs \<noteq> [] \<longrightarrow> seen_events outs @ re_events s \<noteq> []"
    and "seen_events outs \<noteq> [] \<longrightarrow> sent_bytes outs @ re_outbound s = connect_frame mh own_addrs"
    by (auto simp: evs_def sent_def split: if_splits)
  moreover have "responder_waiting s \<longrightarrow> length (re_recv_buf s) \<le> 4098"
    using ok by (auto simp: responder_ok_def responder_waiting_def)
  ultimately show ?thesis using responder_input_ok(2,3) [OF ok] by blast
qed

theorem dcutr_responder_protocol_witness:
  "snd (responder_handle_input plain_multihash (RespData [1, 2]) (responder_new plain_multihash sample_addrs)) \<noteq> Inl Panic
   \<and> length (re_recv_buf (responder_new plain_multihash sample_addrs)) \<le> 4098"
proof -
  have "responder_waiting (responder_new plain_multihash sample_addrs)"
    "input_fits (RespData [1, 2]) (responder_new plain_multihash sample_addrs)"
    by (simp_all add: responder_waiting_def responder_new_def connect_checked [OF sample_connect_fits] usize_max_def)
  then show ?thesis
    using dcutr_responder_protocol [OF run_start sample_connect_fits] by blast
qed

text \<open>
  A role whose own addresses do not fit keeps the error for the first input. Until then it
  reports itself busy although it has no output to offer.
\<close>

lemma deferred_error_not_idle:
  assumes "\<not> connect_fits mh addrs"
  shows "\<not> initiator_is_idle (initiator_new mh addrs)" "snd (initiator_poll_output (initiator_new mh addrs)) = None"
    "\<not> responder_is_idle (responder_new mh addrs)" "snd (responder_poll_output (responder_new mh addrs)) = None"
  using assms
  by (simp_all add: connect_fits_def initiator_is_idle_def responder_is_idle_def initiator_new_def responder_new_def
      checked_outbound_frame_def initiator_poll_output_def initiator_take_outbound_def responder_poll_output_def)

end
