(* ===== verification/Autonat_Message.thy ===== *)
theory Autonat_Message
  imports Protobuf Peer_Id Rust_Str
begin

text \<open>
  The messages of AutoNAT v1, \<open>crates/autonat/src/lib.rs\<close>: DIAL with the peer's id and
  addresses, DIAL_RESPONSE with a status, a text and the addresses that were reached. The
  readers of this crate differ from the shared ones: field number 0 is refused,
  and unknown fields are skipped only when they are varints or byte strings.
\<close>

section \<open>Model\<close>

datatype message_type = MtDial | MtDialResponse

fun message_type_code :: "message_type \<Rightarrow> u64" where
  "message_type_code MtDial = 0"
| "message_type_code MtDialResponse = 1"

definition message_type_from_u64 :: "u64 \<Rightarrow> message_type option" where
  "message_type_from_u64 v = (if v = 0 then Some MtDial else if v = 1 then Some MtDialResponse else None)"

datatype response_status = RsOk | RsDialError | RsDialRefused | RsBadRequest | RsInternalError

fun response_status_code :: "response_status \<Rightarrow> u64" where
  "response_status_code RsOk = 0"
| "response_status_code RsDialError = 100"
| "response_status_code RsDialRefused = 101"
| "response_status_code RsBadRequest = 200"
| "response_status_code RsInternalError = 300"

definition response_status_from_u64 :: "u64 \<Rightarrow> response_status" where
  "response_status_from_u64 v =
     (if v = 0 then RsOk else if v = 100 then RsDialError else if v = 101 then RsDialRefused
      else if v = 200 then RsBadRequest else if v = 300 then RsInternalError else RsInternalError)"

record autonat_peer_info =
  ap_id :: bytes
  ap_addrs :: "bytes list"

record autonat_dial =
  ad_peer :: "autonat_peer_info option"

record dial_response =
  dr_status :: response_status
  dr_text :: "str option"
  dr_addrs :: "bytes list"

record autonat_message =
  am_kind :: message_type
  am_dial :: "autonat_dial option"
  am_response :: "dial_response option"

text \<open>The code prints the \<open>PeerIdError\<close> into \<open>InvalidPeerId\<close>; the model keeps the value.\<close>

datatype autonat_error =
    AnMessageTooLarge nat
  | AnFrameTooLarge u64
  | AnVarint varint_error
  | AnFieldOverflow nat nat nat
  | AnUnsupportedWireType u8 nat
  | AnMissingType
  | AnInvalidMessageType u64
  | AnMissingField str
  | AnUnexpectedMessage str
  | AnInvalidPeerId peer_id_error

definition autonat_errors :: "autonat_error pb_errors" where
  "autonat_errors =
     \<lparr> err_tail = (\<lambda>_. AnVarint BufferTooShort), err_varint = AnVarint,
       err_overflow = AnFieldOverflow, err_wire = AnUnsupportedWireType \<rparr>"

definition autonat_read_tag :: "bytes \<Rightarrow> nat \<Rightarrow> autonat_error + ((u64 \<times> u8) \<times> nat) option" where
  "autonat_read_tag input idx =
     (case pb_tag autonat_errors input idx of
        Inl e \<Rightarrow> Inl e
      | Inr None \<Rightarrow> Inr None
      | Inr (Some ((field_number, wt), idx')) \<Rightarrow>
          if field_number = 0 then Inl (AnUnsupportedWireType wt idx)
          else Inr (Some ((field_number, wt), idx')))"

definition autonat_skip :: "bytes \<Rightarrow> nat \<Rightarrow> u8 \<Rightarrow> autonat_error + nat" where
  "autonat_skip input idx wt =
     (if wt = 2 then rbind (pb_len autonat_errors input idx) (\<lambda>(_, idx'). Inr idx')
      else if wt = 0 then rbind (pb_varint autonat_errors input idx) (\<lambda>(_, idx'). Inr idx')
      else Inl (AnUnsupportedWireType wt idx))"

definition autonat_reader :: "autonat_error wire_reader" where
  "autonat_reader =
     \<lparr> rd_tag = autonat_read_tag, rd_varint = pb_varint autonat_errors,
       rd_len = pb_len autonat_errors, rd_skip = autonat_skip \<rparr>"

subsection \<open>Encoders\<close>

definition peer_info_encode :: "autonat_peer_info \<Rightarrow> bytes" where
  "peer_info_encode p =
     foldl (\<lambda>out addr. encode_bytes_field out (tag_byte 2 2) addr)
       (encode_bytes_field [] (tag_byte 1 2) (ap_id p)) (ap_addrs p)"

definition dial_encode :: "autonat_dial \<Rightarrow> bytes" where
  "dial_encode d =
     (case ad_peer d of
        Some peer \<Rightarrow> encode_bytes_field [] (tag_byte 1 2) (peer_info_encode peer)
      | None \<Rightarrow> [])"

definition dial_response_encode :: "dial_response \<Rightarrow> bytes" where
  "dial_response_encode r =
     (let out = encode_varint_field [] (tag_byte 1 0) (response_status_code (dr_status r));
          out = (case dr_text r of Some t \<Rightarrow> encode_bytes_field out (tag_byte 2 2) t | None \<Rightarrow> out)
      in foldl (\<lambda>out addr. encode_bytes_field out (tag_byte 3 2) addr) out (dr_addrs r))"

definition autonat_message_encode :: "autonat_message \<Rightarrow> bytes" where
  "autonat_message_encode m =
     (let out = encode_varint_field [] (tag_byte 1 0) (message_type_code (am_kind m));
          out = (case am_dial m of
                   Some d \<Rightarrow> encode_bytes_field out (tag_byte 2 2) (dial_encode d) | None \<Rightarrow> out)
      in case am_response m of
           Some r \<Rightarrow> encode_bytes_field out (tag_byte 3 2) (dial_response_encode r)
         | None \<Rightarrow> out)"

subsection \<open>Decoders\<close>

definition peer_info_table :: "(autonat_error, autonat_peer_info) field_table" where
  "peer_info_table f wt =
     (if f = 1 \<and> wt = 2 then Some (OnLen (\<lambda>_ v m. Inr (m\<lparr> ap_id := v \<rparr>)))
      else if f = 2 \<and> wt = 2 then Some (OnLen (\<lambda>_ v m. Inr (m\<lparr> ap_addrs := ap_addrs m @ [v] \<rparr>)))
      else None)"

definition peer_info_decode :: "bytes \<Rightarrow> autonat_error fault + autonat_peer_info" where
  "peer_info_decode input = pb_decode autonat_reader peer_info_table \<lparr> ap_id = [], ap_addrs = [] \<rparr> input"

definition dial_table :: "(autonat_error, autonat_dial) field_table" where
  "dial_table f wt =
     (if f = 1 \<and> wt = 2 then
        Some (OnLen (\<lambda>_ v m. rbind (peer_info_decode v) (\<lambda>p. Inr (m\<lparr> ad_peer := Some p \<rparr>))))
      else None)"

definition dial_decode :: "bytes \<Rightarrow> autonat_error fault + autonat_dial" where
  "dial_decode input = pb_decode autonat_reader dial_table \<lparr> ad_peer = None \<rparr> input"

definition dial_response_table :: "(autonat_error, dial_response) field_table" where
  "dial_response_table f wt =
     (if f = 1 \<and> wt = 0 then Some (OnVarint (\<lambda>_ v m. Inr (m\<lparr> dr_status := response_status_from_u64 v \<rparr>)))
      else if f = 2 \<and> wt = 2 then Some (OnLen (\<lambda>_ v m. Inr (m\<lparr> dr_text := Some (from_utf8_lossy v) \<rparr>)))
      else if f = 3 \<and> wt = 2 then Some (OnLen (\<lambda>_ v m. Inr (m\<lparr> dr_addrs := dr_addrs m @ [v] \<rparr>)))
      else None)"

definition dial_response_decode :: "bytes \<Rightarrow> autonat_error fault + dial_response" where
  "dial_response_decode input =
     pb_decode autonat_reader dial_response_table
       \<lparr> dr_status = RsInternalError, dr_text = None, dr_addrs = [] \<rparr> input"

record autonat_message_seen =
  seen_am_kind :: "message_type option"
  seen_am_dial :: "autonat_dial option"
  seen_am_response :: "dial_response option"

definition autonat_message_table :: "(autonat_error, autonat_message_seen) field_table" where
  "autonat_message_table f wt =
     (if f = 1 \<and> wt = 0 then
        Some (OnVarint (\<lambda>_ v m.
          rbind (ok_or (message_type_from_u64 v) (Err (AnInvalidMessageType v))) (\<lambda>k.
          Inr (m\<lparr> seen_am_kind := Some k \<rparr>))))
      else if f = 2 \<and> wt = 2 then
        Some (OnLen (\<lambda>_ v m. rbind (dial_decode v) (\<lambda>d. Inr (m\<lparr> seen_am_dial := Some d \<rparr>))))
      else if f = 3 \<and> wt = 2 then
        Some (OnLen (\<lambda>_ v m. rbind (dial_response_decode v) (\<lambda>r. Inr (m\<lparr> seen_am_response := Some r \<rparr>))))
      else None)"

definition autonat_message_decode :: "bytes \<Rightarrow> autonat_error fault + autonat_message" where
  "autonat_message_decode input =
     rbind (pb_decode autonat_reader autonat_message_table
              \<lparr> seen_am_kind = None, seen_am_dial = None, seen_am_response = None \<rparr> input) (\<lambda>m.
     rbind (ok_or (seen_am_kind m) (Err AnMissingType)) (\<lambda>kind.
     Inr \<lparr> am_kind = kind, am_dial = seen_am_dial m, am_response = seen_am_response m \<rparr>))"

section \<open>The readers\<close>

lemma autonat_skip_pb: "autonat_skip input idx wt = Inr idx' \<longleftrightarrow> wt \<in> {0, 2} \<and> pb_skip autonat_errors input idx wt = Inr idx'"
  by (auto simp: autonat_skip_def pb_skip_def)

interpretation autonat_wire: wire_reader_base autonat_reader "\<lambda>f. f \<noteq> 0"
proof
  show "length input \<le> idx" if "rd_tag autonat_reader input idx = Inr None" for input idx
    using that by (auto simp: autonat_reader_def autonat_read_tag_def pb_tag_def result_simps
        split: if_splits sum.splits option.splits)
  show "rd_tag autonat_reader input idx = Inr (Some ((f, wt), idx')) \<longleftrightarrow>
      f \<noteq> 0 \<and> field_number_ok f \<and> wt < 8 \<and> reads input idx (enc_tag f wt) idx'"
    if "length input \<le> usize_max" for input idx f wt idx'
    using pb_tag_iff [OF that, of autonat_errors idx f wt idx']
    by (auto simp: autonat_reader_def autonat_read_tag_def split: sum.splits option.splits)
  show "skips autonat_reader x" if "value_ok x" "wire_type x \<in> {0, 2}" for x
    unfolding skips_def
  proof (intro allI impI)
    fix input idx idx'
    assume a: "length input \<le> usize_max" "reads input idx (enc_value x) idx'"
    then have "idx \<le> length input" by (auto simp: reads_def)
    with a that show "rd_skip autonat_reader input idx (wire_type x) = Inr idx'"
      by (auto simp: autonat_reader_def autonat_skip_pb pb_skip_iff)
  qed
qed (simp_all add: autonat_reader_def autonat_read_tag_def pb_tag_end pb_varint_iff pb_len_iff
    autonat_skip_pb pb_skip_iff del: enc_value.simps)

lemma autonat_tables_ok [simp]:
  "table_ok peer_info_table" "table_ok dial_table" "table_ok dial_response_table" "table_ok autonat_message_table"
  by (auto simp: table_ok_def peer_info_table_def dial_table_def dial_response_table_def
      autonat_message_table_def split: if_splits)

section \<open>Round trips\<close>

definition peer_info_fields :: "autonat_peer_info \<Rightarrow> (u64 \<times> wire_value) list" where
  "peer_info_fields p = (1, LenV (ap_id p)) # rep_field 2 LenV (ap_addrs p)"

definition dial_fields :: "autonat_dial \<Rightarrow> (u64 \<times> wire_value) list" where
  "dial_fields d = opt_field 1 (\<lambda>p. LenV (peer_info_encode p)) (ad_peer d)"

definition dial_response_fields :: "dial_response \<Rightarrow> (u64 \<times> wire_value) list" where
  "dial_response_fields r =
     (1, VarintV (response_status_code (dr_status r))) # opt_field 2 LenV (dr_text r) @ rep_field 3 LenV (dr_addrs r)"

definition autonat_message_fields :: "autonat_message \<Rightarrow> (u64 \<times> wire_value) list" where
  "autonat_message_fields m =
     (1, VarintV (message_type_code (am_kind m))) # opt_field 2 (\<lambda>d. LenV (dial_encode d)) (am_dial m) @
     opt_field 3 (\<lambda>r. LenV (dial_response_encode r)) (am_response m)"

lemmas autonat_fields_defs =
  peer_info_fields_def dial_fields_def dial_response_fields_def autonat_message_fields_def

lemma autonat_encode_fields:
  "peer_info_encode p = enc_fields (peer_info_fields p)"
  "dial_encode d = enc_fields (dial_fields d)"
  "dial_response_encode r = enc_fields (dial_response_fields r)"
  "autonat_message_encode m = enc_fields (autonat_message_fields m)"
  by (simp_all add: peer_info_encode_def dial_encode_def dial_response_encode_def autonat_message_encode_def
      autonat_fields_defs encode_bytes_field_enc encode_varint_field_enc pb_enc Let_def split: option.splits)

lemma autonat_plain [simp]:
  "plain_fields (\<lambda>f. f \<noteq> 0) (peer_info_fields p)" "plain_fields (\<lambda>f. f \<noteq> 0) (dial_fields d)"
  "plain_fields (\<lambda>f. f \<noteq> 0) (dial_response_fields r)" "plain_fields (\<lambda>f. f \<noteq> 0) (autonat_message_fields m)"
  by (simp_all add: autonat_fields_defs)

lemma message_type_round_trip [simp]: "message_type_from_u64 (message_type_code k) = Some k"
  by (cases k) (simp_all add: message_type_from_u64_def)

lemma response_status_round_trip [simp]: "response_status_from_u64 (response_status_code k) = k"
  by (cases k) (simp_all add: response_status_from_u64_def)

lemma fold_dial_addrs:
  "fold (\<lambda>a m. m\<lparr> ap_addrs := ap_addrs m @ [a] \<rparr>) xs m = m\<lparr> ap_addrs := ap_addrs m @ xs \<rparr>"
  by (induction xs arbitrary: m) simp_all

lemma fold_response_addrs:
  "fold (\<lambda>a m. m\<lparr> dr_addrs := dr_addrs m @ [a] \<rparr>) xs m = m\<lparr> dr_addrs := dr_addrs m @ xs \<rparr>"
  by (induction xs arbitrary: m) simp_all

lemma peer_info_round_trip:
  assumes "length (peer_info_encode p) \<le> usize_max"
  shows "peer_info_decode (peer_info_encode p) = Inr p"
proof -
  have addrs: "apply_fields peer_info_table off (rep_field 2 LenV xs) x =
      Inr (fold (\<lambda>a m. m\<lparr> ap_addrs := ap_addrs m @ [a] \<rparr>) xs x)" for off xs x
    by (rule apply_rep_field) (simp add: pb_apply peer_info_table_def)
  have "apply_fields peer_info_table 0 (peer_info_fields p) \<lparr> ap_id = [], ap_addrs = [] \<rparr> = Inr p"
    by (simp add: peer_info_fields_def pb_apply addrs fold_dial_addrs peer_info_table_def)
  with assms show ?thesis
    by (simp add: peer_info_decode_def autonat_encode_fields autonat_wire.decode_plain_fields)
qed

lemma dial_round_trip:
  assumes "length (dial_encode d) \<le> usize_max"
  shows "dial_decode (dial_encode d) = Inr d"
proof -
  have "peer_info_decode (peer_info_encode p) = Inr p" if "ad_peer d = Some p" for p
    using value_ok_LenV [of 1 "peer_info_encode p" "dial_fields d"] assms that
    by (intro peer_info_round_trip) (simp add: autonat_encode_fields(2) dial_fields_def opt_field_def)
  then have "apply_fields dial_table 0 (dial_fields d) \<lparr> ad_peer = None \<rparr> = Inr d"
    by (simp add: dial_fields_def pb_apply dial_table_def split: option.splits)
  with assms show ?thesis
    by (simp add: dial_decode_def autonat_encode_fields autonat_wire.decode_plain_fields)
qed

lemma dial_response_round_trip:
  assumes "length (dial_response_encode r) \<le> usize_max" and "\<And>t. dr_text r = Some t \<Longrightarrow> utf8_valid t"
  shows "dial_response_decode (dial_response_encode r) = Inr r"
proof -
  have addrs: "apply_fields dial_response_table off (rep_field 3 LenV xs) x =
      Inr (fold (\<lambda>a m. m\<lparr> dr_addrs := dr_addrs m @ [a] \<rparr>) xs x)" for off xs x
    by (rule apply_rep_field) (simp add: pb_apply dial_response_table_def)
  have "apply_fields dial_response_table 0 (dial_response_fields r)
      \<lparr> dr_status = RsInternalError, dr_text = None, dr_addrs = [] \<rparr> = Inr r"
    using assms(2) by (cases "dr_text r")
      (simp_all add: dial_response_fields_def pb_apply addrs fold_response_addrs dial_response_table_def)
  with assms(1) show ?thesis
    by (simp add: dial_response_decode_def autonat_encode_fields autonat_wire.decode_plain_fields)
qed

definition autonat_message_wf :: "autonat_message \<Rightarrow> bool" where
  "autonat_message_wf m \<longleftrightarrow> (\<forall>r t. am_response m = Some r \<longrightarrow> dr_text r = Some t \<longrightarrow> utf8_valid t)"

lemma autonat_message_round_trip:
  assumes "length (autonat_message_encode m) \<le> usize_max" and "autonat_message_wf m"
  shows "autonat_message_decode (autonat_message_encode m) = Inr m"
proof -
  note fits = value_ok_LenV [of _ _ "autonat_message_fields m", OF _ assms(1) [unfolded autonat_encode_fields(4)]]
  have dial: "dial_decode (dial_encode d) = Inr d" if "am_dial m = Some d" for d
    using fits [of 2 "dial_encode d"] that
    by (intro dial_round_trip) (simp add: autonat_message_fields_def opt_field_def)
  have resp: "dial_response_decode (dial_response_encode r) = Inr r" if "am_response m = Some r" for r
    using fits [of 3 "dial_response_encode r"] that assms(2)
    by (intro dial_response_round_trip) (auto simp: autonat_message_fields_def opt_field_def autonat_message_wf_def)
  have "apply_fields autonat_message_table 0 (autonat_message_fields m)
      \<lparr> seen_am_kind = None, seen_am_dial = None, seen_am_response = None \<rparr> =
    Inr \<lparr> seen_am_kind = Some (am_kind m), seen_am_dial = am_dial m, seen_am_response = am_response m \<rparr>"
    using dial resp by (cases "am_dial m"; cases "am_response m")
      (simp_all add: autonat_message_fields_def pb_apply autonat_message_table_def)
  with assms(1) show ?thesis
    by (simp add: autonat_message_decode_def autonat_encode_fields autonat_wire.decode_plain_fields)
qed

section \<open>No faults\<close>

lemma autonat_nested_no_fault:
  assumes "length input \<le> usize_max" and "\<And>e. x \<noteq> Err e"
  shows "peer_info_decode input \<noteq> Inl x" "dial_decode input \<noteq> Inl x" "dial_response_decode input \<noteq> Inl x"
proof -
  have peer: "peer_info_decode v \<noteq> Inl x" if "length v \<le> usize_max" for v
    unfolding peer_info_decode_def pb_decode_def
    by (rule autonat_wire.loop_no_fault [OF _ that])
      (auto simp: assms(2) peer_info_table_def split: if_splits)
  then show "peer_info_decode input \<noteq> Inl x" using assms(1) by simp
  show "dial_decode input \<noteq> Inl x"
    unfolding dial_decode_def pb_decode_def
    by (rule autonat_wire.loop_no_fault [OF _ assms(1)])
      (use peer in \<open>auto simp: assms(2) dial_table_def result_simps split: if_splits\<close>)
  show "dial_response_decode input \<noteq> Inl x"
    unfolding dial_response_decode_def pb_decode_def
    by (rule autonat_wire.loop_no_fault [OF _ assms(1)])
      (auto simp: assms(2) dial_response_table_def split: if_splits)
qed

lemma autonat_message_no_fault:
  assumes "length input \<le> usize_max" and "\<And>e. x \<noteq> Err e"
  shows "autonat_message_decode input \<noteq> Inl x"
proof -
  have "pb_decode autonat_reader autonat_message_table m input \<noteq> Inl x" for m
    unfolding pb_decode_def
    by (rule autonat_wire.loop_no_fault [OF _ assms(1)])
      (use autonat_nested_no_fault(2,3) [OF _ assms(2)] in
        \<open>auto simp: assms(2) autonat_message_table_def result_simps split: if_splits\<close>)
  then show ?thesis by (auto simp: autonat_message_decode_def result_simps assms(2))
qed

end
