(* ===== verification/Autonat.thy ===== *)
theory Autonat
  imports Autonat_Message Frame_Receiver Multiaddr
begin

text \<open>
  The client and the server of AutoNAT, \<open>crates/autonat/src/lib.rs\<close>. The client sends one
  DIAL request and turns the response into a reachability verdict; the server reports the
  request to its caller and queues the response it is told to give.
\<close>

section \<open>Model\<close>

definition AUTONAT_MAX_MESSAGE_SIZE :: nat where "AUTONAT_MAX_MESSAGE_SIZE = 8192"

datatype 'mh reachability =
    RPublic "'mh multiaddr list" "bytes list"
  | RPrivate response_status str
  | RUnknown response_status str

record 'mh autonat_request =
  ar_peer_id :: "'mh peer_id"
  ar_addrs :: "'mh multiaddr list"
  ar_raw_addrs :: "bytes list"

datatype autonat_client_input =
    ClientFlush
  | ClientData bytes
  | ClientRemoteWriteClosed

datatype 'mh autonat_client_output =
    ClientOutbound bytes
  | ClientOutcome "'mh reachability"

datatype 'mh autonat_server_input =
    ServerData bytes
  | RespondPublic "'mh multiaddr list"
  | RespondError response_status str
  | ServerFlush

datatype 'mh autonat_server_output =
    ServerRequest "'mh autonat_request"
  | ServerOutbound bytes

datatype flow_state = FlowPending | AwaitingResponse | FlowDone

datatype server_state = AwaitingRequest | RequestReady | ServerDone

record 'mh autonat_client =
  ac_outbound :: bytes
  ac_recv_buf :: bytes
  ac_state :: flow_state
  ac_outcome :: "'mh reachability option"
  ac_emitted_outcome :: bool

record 'mh autonat_server =
  as_outbound :: bytes
  as_recv_buf :: bytes
  as_request :: "'mh autonat_request option"
  as_emitted_request :: bool
  as_state :: server_state

subsection \<open>Shared helpers\<close>

definition autonat_decode_frame :: "bytes \<Rightarrow> frame_decode" where
  "autonat_decode_frame input = decode_frame input AUTONAT_MAX_MESSAGE_SIZE"

definition decode_addrs :: "'mh multihash_ops \<Rightarrow> bytes list \<Rightarrow> 'mh multiaddr list" where
  "decode_addrs mh raw =
     List.map_filter (\<lambda>bs. case multiaddr_from_bytes mh bs [] of Inl e \<Rightarrow> None | Inr a \<Rightarrow> Some a) raw"

definition autonat_enforce_max_size :: "bytes \<Rightarrow> autonat_error + unit" where
  "autonat_enforce_max_size buf =
     (if AUTONAT_MAX_MESSAGE_SIZE < length buf then Inl (AnMessageTooLarge (length buf)) else Inr ())"

subsection \<open>The client\<close>

definition dial_message :: "'mh multihash_ops \<Rightarrow> 'mh peer_id \<Rightarrow> 'mh multiaddr list \<Rightarrow> autonat_message" where
  "dial_message mh peer_id addrs =
     \<lparr> am_kind = MtDial,
       am_dial = Some \<lparr> ad_peer = Some \<lparr> ap_id = to_bytes mh peer_id, ap_addrs = map (multiaddr_to_bytes mh) addrs \<rparr> \<rparr>,
       am_response = None \<rparr>"

definition autonat_client_new :: "'mh multihash_ops \<Rightarrow> 'mh peer_id \<Rightarrow> 'mh multiaddr list \<Rightarrow> 'mh autonat_client" where
  "autonat_client_new mh peer_id addrs =
     \<lparr> ac_outbound = encode_frame (autonat_message_encode (dial_message mh peer_id addrs)),
       ac_recv_buf = [], ac_state = FlowPending, ac_outcome = None, ac_emitted_outcome = False \<rparr>"

definition client_take_outbound :: "'mh autonat_client \<Rightarrow> 'mh autonat_client \<times> bytes" where
  "client_take_outbound s =
     (s\<lparr> ac_state := (if ac_state s = FlowPending then AwaitingResponse else ac_state s), ac_outbound := [] \<rparr>,
      ac_outbound s)"

definition response_reachability :: "'mh multihash_ops \<Rightarrow> dial_response \<Rightarrow> 'mh reachability" where
  "response_reachability mh response =
     (let reason = (case dr_text response of None \<Rightarrow> [] | Some t \<Rightarrow> t); raw_addrs = dr_addrs response in
      case dr_status response of
        RsOk \<Rightarrow> RPublic (decode_addrs mh raw_addrs) raw_addrs
      | RsDialError \<Rightarrow> RPrivate (dr_status response) reason
      | RsDialRefused \<Rightarrow> RPrivate (dr_status response) reason
      | RsBadRequest \<Rightarrow> RUnknown (dr_status response) reason
      | RsInternalError \<Rightarrow> RUnknown (dr_status response) reason)"

definition try_decode_response ::
  "'mh multihash_ops \<Rightarrow> 'mh autonat_client \<Rightarrow> 'mh autonat_client \<times> (autonat_error fault + unit)"
where
  "try_decode_response mh s =
     (case autonat_enforce_max_size (ac_recv_buf s) of
        Inl e \<Rightarrow> (s, Inl (Err e))
      | Inr _ \<Rightarrow>
          (case autonat_decode_frame (ac_recv_buf s) of
             FrameIncomplete \<Rightarrow> (s, Inr ())
           | FrameTooLarge len \<Rightarrow> (s, Inl (Err (AnFrameTooLarge len)))
           | FrameError e \<Rightarrow> (s, Inl (Err (AnVarint e)))
           | FrameComplete payload consumed \<Rightarrow>
               let s1 = s\<lparr> ac_recv_buf := drop consumed (ac_recv_buf s) \<rparr> in
               (case autonat_message_decode payload of
                  Inl e \<Rightarrow> (s1, Inl e)
                | Inr msg \<Rightarrow>
                    if am_kind msg \<noteq> MtDialResponse
                    then (s1\<lparr> ac_state := FlowDone \<rparr>,
                      Inl (Err (AnUnexpectedMessage (str_lit ''expected DIAL_RESPONSE''))))
                    else (case am_response msg of
                      None \<Rightarrow> (s1, Inl (Err (AnMissingField (str_lit ''dial_response''))))
                    | Some response \<Rightarrow>
                        (s1\<lparr> ac_outcome := Some (response_reachability mh response), ac_state := FlowDone \<rparr>,
                         Inr ())))))"

definition client_on_data ::
  "'mh multihash_ops \<Rightarrow> bytes \<Rightarrow> 'mh autonat_client \<Rightarrow> 'mh autonat_client \<times> (autonat_error fault + unit)"
where
  "client_on_data mh data s =
     (if ac_state s = FlowDone then (s, Inr ())
      else try_decode_response mh (s\<lparr> ac_recv_buf := ac_recv_buf s @ data \<rparr>))"

definition client_handle_input ::
  "'mh multihash_ops \<Rightarrow> autonat_client_input \<Rightarrow> 'mh autonat_client \<Rightarrow> 'mh autonat_client \<times> (autonat_error fault + unit)"
where
  "client_handle_input mh i s =
     (case i of
        ClientFlush \<Rightarrow> (s, Inr ())
      | ClientData data \<Rightarrow> client_on_data mh data s
      | ClientRemoteWriteClosed \<Rightarrow> try_decode_response mh s)"

definition client_poll_output :: "'mh autonat_client \<Rightarrow> 'mh autonat_client \<times> 'mh autonat_client_output option" where
  "client_poll_output s =
     (case client_take_outbound s of (s1, outbound) \<Rightarrow>
        if outbound \<noteq> [] then (s1, Some (ClientOutbound outbound))
        else case ac_outcome s1 of
          Some outcome \<Rightarrow>
            if \<not> ac_emitted_outcome s1 then (s1\<lparr> ac_emitted_outcome := True \<rparr>, Some (ClientOutcome outcome))
            else (s1, None)
        | None \<Rightarrow> (s1, None))"

definition client_is_idle :: "'mh autonat_client \<Rightarrow> bool" where
  "client_is_idle s \<longleftrightarrow> ac_outbound s = [] \<and> (ac_emitted_outcome s \<or> ac_outcome s = None)"

subsection \<open>The server\<close>

definition autonat_server_new :: "'mh autonat_server" where
  "autonat_server_new =
     \<lparr> as_outbound = [], as_recv_buf = [], as_request = None, as_emitted_request = False, as_state = AwaitingRequest \<rparr>"

definition response_message ::
  "'mh multihash_ops \<Rightarrow> response_status \<Rightarrow> str option \<Rightarrow> 'mh multiaddr list \<Rightarrow> autonat_message"
where
  "response_message mh status status_text addrs =
     \<lparr> am_kind = MtDialResponse, am_dial = None,
       am_response = Some \<lparr> dr_status = status, dr_text = status_text, dr_addrs = map (multiaddr_to_bytes mh) addrs \<rparr> \<rparr>"

definition respond ::
  "'mh multihash_ops \<Rightarrow> response_status \<Rightarrow> str option \<Rightarrow> 'mh multiaddr list \<Rightarrow> 'mh autonat_server \<Rightarrow> 'mh autonat_server"
where
  "respond mh status status_text addrs s =
     s\<lparr> as_outbound := encode_frame (autonat_message_encode (response_message mh status status_text addrs)),
        as_state := ServerDone \<rparr>"

definition respond_public :: "'mh multihash_ops \<Rightarrow> 'mh multiaddr list \<Rightarrow> 'mh autonat_server \<Rightarrow> 'mh autonat_server" where
  "respond_public mh addrs = respond mh RsOk None addrs"

definition respond_error ::
  "'mh multihash_ops \<Rightarrow> response_status \<Rightarrow> str \<Rightarrow> 'mh autonat_server \<Rightarrow> 'mh autonat_server"
where
  "respond_error mh status reason = respond mh status (Some reason) []"

definition try_decode_request ::
  "'mh multihash_ops \<Rightarrow> 'mh autonat_server \<Rightarrow> 'mh autonat_server \<times> (autonat_error fault + unit)"
where
  "try_decode_request mh s =
     (case autonat_enforce_max_size (as_recv_buf s) of
        Inl e \<Rightarrow> (s, Inl (Err e))
      | Inr _ \<Rightarrow>
          (case autonat_decode_frame (as_recv_buf s) of
             FrameIncomplete \<Rightarrow> (s, Inr ())
           | FrameTooLarge len \<Rightarrow> (s, Inl (Err (AnFrameTooLarge len)))
           | FrameError e \<Rightarrow> (s, Inl (Err (AnVarint e)))
           | FrameComplete payload consumed \<Rightarrow>
               let s1 = s\<lparr> as_recv_buf := drop consumed (as_recv_buf s) \<rparr> in
               (case autonat_message_decode payload of
                  Inl e \<Rightarrow> (s1, Inl e)
                | Inr msg \<Rightarrow>
                    if am_kind msg \<noteq> MtDial
                    then (s1\<lparr> as_state := ServerDone \<rparr>, Inl (Err (AnUnexpectedMessage (str_lit ''expected DIAL''))))
                    else (case am_dial msg of
                      None \<Rightarrow> (s1, Inl (Err (AnMissingField (str_lit ''dial''))))
                    | Some dial \<Rightarrow>
                        (case ad_peer dial of
                           None \<Rightarrow> (s1, Inl (Err (AnMissingField (str_lit ''dial.peer''))))
                         | Some peer \<Rightarrow>
                             (case from_bytes mh (ap_id peer) of
                                Inl e \<Rightarrow> (s1, Inl (Err (AnInvalidPeerId e)))
                              | Inr peer_id \<Rightarrow>
                                  (s1\<lparr> as_request := Some \<lparr> ar_peer_id = peer_id, ar_addrs = decode_addrs mh (ap_addrs peer),
                                         ar_raw_addrs = ap_addrs peer \<rparr>,
                                       as_emitted_request := False, as_state := RequestReady \<rparr>, Inr ())))))))"

definition server_on_data ::
  "'mh multihash_ops \<Rightarrow> bytes \<Rightarrow> 'mh autonat_server \<Rightarrow> 'mh autonat_server \<times> (autonat_error fault + unit)"
where
  "server_on_data mh data s =
     (if as_state s \<noteq> AwaitingRequest then (s, Inr ())
      else try_decode_request mh (s\<lparr> as_recv_buf := as_recv_buf s @ data \<rparr>))"

definition server_handle_input ::
  "'mh multihash_ops \<Rightarrow> 'mh autonat_server_input \<Rightarrow> 'mh autonat_server \<Rightarrow> 'mh autonat_server \<times> (autonat_error fault + unit)"
where
  "server_handle_input mh i s =
     (case i of
        ServerData data \<Rightarrow> server_on_data mh data s
      | RespondPublic addrs \<Rightarrow> (respond_public mh addrs s, Inr ())
      | RespondError status reason \<Rightarrow> (respond_error mh status reason s, Inr ())
      | ServerFlush \<Rightarrow> (s, Inr ()))"

definition server_poll_output :: "'mh autonat_server \<Rightarrow> 'mh autonat_server \<times> 'mh autonat_server_output option" where
  "server_poll_output s =
     (case (as_emitted_request s, as_request s) of
        (False, Some request) \<Rightarrow> (s\<lparr> as_emitted_request := True \<rparr>, Some (ServerRequest request))
      | _ \<Rightarrow>
          if as_outbound s \<noteq> [] then (s\<lparr> as_outbound := [] \<rparr>, Some (ServerOutbound (as_outbound s)))
          else (s\<lparr> as_outbound := [] \<rparr>, None))"

definition server_is_idle :: "'mh autonat_server \<Rightarrow> bool" where
  "server_is_idle s \<longleftrightarrow> as_outbound s = [] \<and> (as_emitted_request s \<or> as_request s = None)"

section \<open>Frames, addresses and outputs\<close>

lemma decode_addrs_to_bytes:
  assumes "multihash_laws mh" and "\<forall>a \<in> set addrs. \<forall>p \<in> set a. protocol_wf mh p"
  shows "decode_addrs mh (map (multiaddr_to_bytes mh) addrs) = addrs"
  using assms(2) from_to_bytes_acc [OF assms(1), where acc = "[]"]
  by (induction addrs) (simp_all add: decode_addrs_def List.map_filter_simps)

definition server_pending :: "'mh autonat_server \<Rightarrow> 'mh autonat_server_output list" where
  "server_pending s =
     (case (as_emitted_request s, as_request s) of (False, Some r) \<Rightarrow> [ServerRequest r] | _ \<Rightarrow> []) @
     (if as_outbound s = [] then [] else [ServerOutbound (as_outbound s)])"

interpretation server_outputs: sans_io_outputs server_poll_output server_is_idle server_pending
  "\<lambda>s. (as_recv_buf s, as_request s, as_state s)"
proof
  fix s :: "'mh autonat_server"
  show "server_poll_output s = (s, None)" if "server_pending s = []"
    using that by (cases "as_emitted_request s"; cases "as_request s")
      (simp_all add: server_pending_def server_poll_output_def split: if_splits)
  show "\<exists>s'. server_poll_output s = (s', Some out) \<and> server_pending s' = outs \<and>
      (as_recv_buf s', as_request s', as_state s') = (as_recv_buf s, as_request s, as_state s)"
    if "server_pending s = out # outs" for out outs
    using that by (cases "as_emitted_request s"; cases "as_request s")
      (auto simp: server_pending_def server_poll_output_def split: if_splits)
  show "server_is_idle s \<longleftrightarrow> server_pending s = []"
    by (cases "as_emitted_request s"; cases "as_request s") (simp_all add: server_pending_def server_is_idle_def)
qed

interpretation client_frames: frame_receiver "\<lambda>data. client_handle_input mh (ClientData data)"
  ac_recv_buf "\<lambda>b s. s\<lparr> ac_recv_buf := b \<rparr>" "\<lambda>s. ac_state s = AwaitingResponse"
  AUTONAT_MAX_MESSAGE_SIZE AUTONAT_MAX_MESSAGE_SIZE
  for mh
  by unfold_locales
    (simp_all add: client_handle_input_def client_on_data_def try_decode_response_def
      autonat_decode_frame_def autonat_enforce_max_size_def)

interpretation server_frames: frame_receiver "\<lambda>data. server_handle_input mh (ServerData data)"
  as_recv_buf "\<lambda>b s. s\<lparr> as_recv_buf := b \<rparr>" "\<lambda>s. as_state s = AwaitingRequest"
  AUTONAT_MAX_MESSAGE_SIZE AUTONAT_MAX_MESSAGE_SIZE
  for mh
  by unfold_locales
    (simp_all add: server_handle_input_def server_on_data_def try_decode_request_def
      autonat_decode_frame_def autonat_enforce_max_size_def)

section \<open>One exchange\<close>

definition frame_fits :: "autonat_message \<Rightarrow> bool" where
  "frame_fits m \<longleftrightarrow> length (encode_frame (autonat_message_encode m)) \<le> AUTONAT_MAX_MESSAGE_SIZE"

lemma autonat_frame_fits:
  assumes "frame_fits m"
  shows "frame_valid AUTONAT_MAX_MESSAGE_SIZE (autonat_message_encode m)"
    and "length (autonat_message_encode m) \<le> usize_max"
proof -
  have "length p \<le> length (encode_frame p)" for p by (simp add: encode_frame_def)
  from this [of "autonat_message_encode m"] assms show
    "frame_valid AUTONAT_MAX_MESSAGE_SIZE (autonat_message_encode m)"
    "length (autonat_message_encode m) \<le> usize_max"
    by (simp_all add: frame_fits_def frame_valid_def AUTONAT_MAX_MESSAGE_SIZE_def usize_max_def)
qed

lemma autonat_decode_encode:
  assumes "frame_fits m" and "autonat_message_wf m"
  shows "autonat_decode_frame (encode_frame (autonat_message_encode m)) =
      FrameComplete (autonat_message_encode m) (length (encode_frame (autonat_message_encode m)))"
    and "autonat_message_decode (autonat_message_encode m) = Inr m"
    and "autonat_enforce_max_size (encode_frame (autonat_message_encode m)) = Inr ()"
  using assms autonat_frame_fits [OF assms(1)] decode_encode_frame [of AUTONAT_MAX_MESSAGE_SIZE _ "[]"]
  by (simp_all add: autonat_decode_frame_def autonat_message_round_trip autonat_enforce_max_size_def frame_fits_def)

text \<open>What the caller of the server decides, and the verdict it stands for.\<close>

fun answer_message :: "'mh multihash_ops \<Rightarrow> 'mh autonat_server_input \<Rightarrow> autonat_message" where
  "answer_message mh (RespondPublic addrs) = response_message mh RsOk None addrs"
| "answer_message mh (RespondError status reason) = response_message mh status (Some reason) []"
| "answer_message mh _ = response_message mh RsInternalError None []"

fun answer_ok :: "'mh multihash_ops \<Rightarrow> 'mh autonat_server_input \<Rightarrow> bool" where
  "answer_ok mh (RespondPublic addrs) \<longleftrightarrow>
     (\<forall>a \<in> set addrs. \<forall>p \<in> set a. protocol_wf mh p) \<and> frame_fits (response_message mh RsOk None addrs)"
| "answer_ok mh (RespondError status reason) \<longleftrightarrow>
     utf8_valid reason \<and> frame_fits (response_message mh status (Some reason) [])"
| "answer_ok mh _ \<longleftrightarrow> False"

fun answer_verdict :: "'mh multihash_ops \<Rightarrow> 'mh autonat_server_input \<Rightarrow> 'mh reachability" where
  "answer_verdict mh (RespondPublic addrs) = RPublic addrs (map (multiaddr_to_bytes mh) addrs)"
| "answer_verdict mh (RespondError status reason) =
     (case status of
        RsOk \<Rightarrow> RPublic [] []
      | RsDialError \<Rightarrow> RPrivate RsDialError reason
      | RsDialRefused \<Rightarrow> RPrivate RsDialRefused reason
      | RsBadRequest \<Rightarrow> RUnknown RsBadRequest reason
      | RsInternalError \<Rightarrow> RUnknown RsInternalError reason)"
| "answer_verdict mh _ = RUnknown RsInternalError []"

lemma server_answers:
  assumes "answer_ok mh answer"
  shows "server_handle_input mh answer s =
    (s\<lparr> as_outbound := encode_frame (autonat_message_encode (answer_message mh answer)), as_state := ServerDone \<rparr>, Inr ())"
  using assms
  by (cases answer) (simp_all add: server_handle_input_def respond_public_def respond_error_def respond_def)

lemma answer_decodes:
  assumes "multihash_laws mh" and "answer_ok mh answer"
  shows "frame_fits (answer_message mh answer)" "autonat_message_wf (answer_message mh answer)"
    and "am_kind (answer_message mh answer) = MtDialResponse"
    and "\<exists>r. am_response (answer_message mh answer) = Some r \<and> response_reachability mh r = answer_verdict mh answer"
  using assms
  by (cases answer; simp add: response_message_def autonat_message_wf_def response_reachability_def
      decode_addrs_to_bytes split: response_status.splits; simp add: decode_addrs_def)+

lemma client_gets_answer:
  assumes "multihash_laws mh" and "answer_ok mh answer" and "ac_state s = AwaitingResponse" and "ac_recv_buf s = []"
  shows "client_handle_input mh (ClientData (encode_frame (autonat_message_encode (answer_message mh answer)))) s =
    (s\<lparr> ac_outcome := Some (answer_verdict mh answer), ac_state := FlowDone \<rparr>, Inr ())"
  using answer_decodes [OF assms(1,2)] autonat_decode_encode [of "answer_message mh answer"] assms(3,4)
  by (auto simp: client_handle_input_def client_on_data_def try_decode_response_def)

lemma server_gets_dial:
  assumes "multihash_laws mh" and "\<forall>a \<in> set addrs. \<forall>p \<in> set a. protocol_wf mh p" and "peer_id_ok mh peer"
    and "frame_fits (dial_message mh peer addrs)" and "as_state s = AwaitingRequest" and "as_recv_buf s = []"
  shows "server_handle_input mh (ServerData (encode_frame (autonat_message_encode (dial_message mh peer addrs)))) s =
    (s\<lparr> as_request := Some \<lparr> ar_peer_id = peer, ar_addrs = addrs, ar_raw_addrs = map (multiaddr_to_bytes mh) addrs \<rparr>,
        as_emitted_request := False, as_state := RequestReady \<rparr>, Inr ())"
proof -
  have "autonat_message_wf (dial_message mh peer addrs)" by (simp add: autonat_message_wf_def dial_message_def)
  note msg = autonat_decode_encode [OF assms(4) this]
  have parts: "am_kind (dial_message mh peer addrs) = MtDial" "am_dial (dial_message mh peer addrs) =
      Some \<lparr> ad_peer = Some \<lparr> ap_id = to_bytes mh peer, ap_addrs = map (multiaddr_to_bytes mh) addrs \<rparr> \<rparr>"
    by (simp_all add: dial_message_def)
  show ?thesis
    using assms(5,6)
    by (simp add: server_handle_input_def server_on_data_def try_decode_request_def msg parts
        from_bytes_to_bytes [OF assms(1,3)] decode_addrs_to_bytes [OF assms(1,2)])
qed

text \<open>
  C38. One probe between a client and a server, over a stream that cuts both frames into
  arbitrary non-empty chunks: the server reports exactly the peer id and the addresses the
  client was created with, and whatever the caller of the server then decides, the client
  reports exactly the verdict it stands for and nothing else. No step reports an error.
\<close>

theorem autonat_exchange:
  assumes "multihash_laws mh" and "\<forall>a \<in> set addrs. \<forall>p \<in> set a. protocol_wf mh p" and "peer_id_ok mh peer"
    and "frame_fits (dial_message mh peer addrs)" and "answer_ok mh answer"
  shows "\<exists>c1 w1 s1 s2 s3 s4 w2 c2 c3.
    client_poll_output (autonat_client_new mh peer addrs) = (c1, Some (ClientOutbound w1)) \<and>
    (\<forall>c. concat c = w1 \<and> [] \<notin> set c \<longrightarrow>
       deliver (\<lambda>d. server_handle_input mh (ServerData d)) c autonat_server_new = (s1, Inr ())) \<and>
    poll_many server_poll_output 2 s1 = (s2, [ServerRequest
      \<lparr> ar_peer_id = peer, ar_addrs = addrs, ar_raw_addrs = map (multiaddr_to_bytes mh) addrs \<rparr>]) \<and>
    server_handle_input mh answer s2 = (s3, Inr ()) \<and>
    server_poll_output s3 = (s4, Some (ServerOutbound w2)) \<and> server_is_idle s4 \<and>
    (\<forall>c. concat c = w2 \<and> [] \<notin> set c \<longrightarrow>
       deliver (\<lambda>d. client_handle_input mh (ClientData d)) c c1 = (c2, Inr ())) \<and>
    poll_many client_poll_output 2 c2 = (c3, [ClientOutcome (answer_verdict mh answer)]) \<and> client_is_idle c3"
proof -
  let ?dial = "autonat_message_encode (dial_message mh peer addrs)"
    and ?answer = "autonat_message_encode (answer_message mh answer)"
    and ?request = "\<lparr> ar_peer_id = peer, ar_addrs = addrs, ar_raw_addrs = map (multiaddr_to_bytes mh) addrs \<rparr>"
  define c1 where "c1 = (autonat_client_new mh peer addrs)\<lparr> ac_state := AwaitingResponse, ac_outbound := [] \<rparr>"
  define s1 where "s1 = (autonat_server_new :: 'a autonat_server)\<lparr> as_request := Some ?request, as_state := RequestReady \<rparr>"
  define s2 where "s2 = s1\<lparr> as_emitted_request := True \<rparr>"
  define s3 where "s3 = s2\<lparr> as_outbound := encode_frame ?answer, as_state := ServerDone \<rparr>"
  define c2 where "c2 = c1\<lparr> ac_outcome := Some (answer_verdict mh answer), ac_state := FlowDone \<rparr>"
  note states = c1_def s1_def s2_def s3_def c2_def autonat_client_new_def autonat_server_new_def
  note polls = client_poll_output_def client_take_outbound_def server_poll_output_def
    client_is_idle_def server_is_idle_def numeral_eq_Suc
  have "client_poll_output (autonat_client_new mh peer addrs) = (c1, Some (ClientOutbound (encode_frame ?dial)))"
    by (simp add: polls states)
  moreover have "deliver (\<lambda>d. server_handle_input mh (ServerData d)) c autonat_server_new = (s1, Inr ())"
    if "concat c = encode_frame ?dial" "[] \<notin> set c" for c
    using server_frames.whole_frame [OF _ _ autonat_frame_fits(1) [OF assms(4)] _ that, of autonat_server_new mh]
      server_gets_dial [OF assms(1-4), of autonat_server_new] assms(4)
    by (simp add: frame_fits_def states)
  moreover have "poll_many server_poll_output 2 s1 = (s2, [ServerRequest ?request])"
    by (simp add: polls states)
  moreover have "server_handle_input mh answer s2 = (s3, Inr ())"
    by (simp add: server_answers [OF assms(5)] s3_def)
  moreover have "server_poll_output s3 = (s3\<lparr> as_outbound := [] \<rparr>, Some (ServerOutbound (encode_frame ?answer)))"
    "server_is_idle (s3\<lparr> as_outbound := [] \<rparr>)"
    by (simp_all add: polls states)
  moreover have "deliver (\<lambda>d. client_handle_input mh (ClientData d)) c c1 = (c2, Inr ())"
    if "concat c = encode_frame ?answer" "[] \<notin> set c" for c
    using client_frames.whole_frame [OF _ _ autonat_frame_fits(1) _ that, of c1 mh]
      client_gets_answer [OF assms(1,5), of c1] answer_decodes(1) [OF assms(1,5)]
    by (simp add: frame_fits_def c2_def c1_def autonat_client_new_def)
  moreover have "poll_many client_poll_output 2 c2 =
      (c2\<lparr> ac_emitted_outcome := True \<rparr>, [ClientOutcome (answer_verdict mh answer)])"
    "client_is_idle (c2\<lparr> ac_emitted_outcome := True \<rparr>)"
    by (simp_all add: polls states)
  ultimately show ?thesis by blast
qed

theorem autonat_exchange_witness:
  "\<exists>c1 w1 s1. client_poll_output (autonat_client_new plain_multihash \<lparr> multihash = (0, [1]) \<rparr> []) =
      (c1, Some (ClientOutbound w1)) \<and>
    (\<forall>c. concat c = w1 \<and> [] \<notin> set c \<longrightarrow>
       deliver (\<lambda>d. server_handle_input plain_multihash (ServerData d)) c autonat_server_new = (s1, Inr ()))"
proof -
  have "frame_fits (dial_message plain_multihash \<lparr> multihash = (0, [1]) \<rparr> [])"
    by (simp add: frame_fits_def dial_message_def autonat_encode_fields autonat_fields_defs opt_field_def
        rep_field_def enc_fields_def enc_field_def enc_tag_def write_uvarint_nil encode_frame_def to_bytes_def
        plain_multihash_def AUTONAT_MAX_MESSAGE_SIZE_def)
  moreover have "peer_id_ok plain_multihash \<lparr> multihash = (0, [1]) \<rparr>"
    by (simp add: peer_id_ok_def validate_multihash_def plain_multihash_def peer_id_consts)
  moreover have "answer_ok plain_multihash (RespondError RsDialRefused [])"
    by (simp add: frame_fits_def response_message_def autonat_encode_fields autonat_fields_defs opt_field_def
        rep_field_def enc_fields_def enc_field_def enc_tag_def write_uvarint_nil encode_frame_def
        AUTONAT_MAX_MESSAGE_SIZE_def)
  ultimately show ?thesis
    using autonat_exchange [OF plain_multihash_laws, of "[]" "\<lparr> multihash = (0, [1]) \<rparr>"] by fastforce
qed

section \<open>Every service\<close>

text \<open>
  The states of a client that is fed and polled in any order, with the outputs taken so far.
  A \<open>Vec\<close> never grows beyond the address space.
\<close>

fun client_input_fits :: "autonat_client_input \<Rightarrow> 'mh autonat_client \<Rightarrow> bool" where
  "client_input_fits (ClientData data) s \<longleftrightarrow> length (ac_recv_buf s) + length data \<le> usize_max"
| "client_input_fits _ s \<longleftrightarrow> True"

inductive client_run ::
  "'mh multihash_ops \<Rightarrow> 'mh peer_id \<Rightarrow> 'mh multiaddr list \<Rightarrow> 'mh autonat_client \<Rightarrow> 'mh autonat_client_output list \<Rightarrow> bool"
  for mh peer addrs
where
  client_start: "client_run mh peer addrs (autonat_client_new mh peer addrs) []"
| client_input: "client_run mh peer addrs s outs \<Longrightarrow> client_input_fits i s \<Longrightarrow>
    client_run mh peer addrs (fst (client_handle_input mh i s)) outs"
| client_poll: "client_run mh peer addrs s outs \<Longrightarrow>
    client_run mh peer addrs (fst (client_poll_output s))
      (outs @ (case snd (client_poll_output s) of None \<Rightarrow> [] | Some out \<Rightarrow> [out]))"

definition client_ok :: "bytes \<Rightarrow> 'mh autonat_client \<Rightarrow> 'mh autonat_client_output list \<Rightarrow> bool" where
  "client_ok request s outs \<longleftrightarrow>
     length (ac_recv_buf s) \<le> usize_max \<and>
     (if ac_outbound s \<noteq> [] then ac_outbound s = request \<and> outs = [] \<and> \<not> ac_emitted_outcome s
      else if ac_emitted_outcome s then \<exists>r. outs = [ClientOutbound request, ClientOutcome r]
      else outs = [ClientOutbound request])"

lemma try_decode_response_frame:
  assumes "length (ac_recv_buf s) \<le> usize_max"
  shows "ac_outbound (fst (try_decode_response mh s)) = ac_outbound s"
    "ac_emitted_outcome (fst (try_decode_response mh s)) = ac_emitted_outcome s"
    "length (ac_recv_buf (fst (try_decode_response mh s))) \<le> length (ac_recv_buf s)"
    and "snd (try_decode_response mh s) \<noteq> Inl Panic" "snd (try_decode_response mh s) \<noteq> Inl Diverge"
proof -
  have "length payload \<le> usize_max" if "autonat_decode_frame (ac_recv_buf s) = FrameComplete payload consumed"
    for payload consumed
    using that assms decode_frame_complete_iff [of "ac_recv_buf s" AUTONAT_MAX_MESSAGE_SIZE payload consumed]
    by (auto simp: autonat_decode_frame_def frame_valid_def encode_frame_def)
  then have "autonat_message_decode payload \<noteq> Inl Panic" "autonat_message_decode payload \<noteq> Inl Diverge"
    if "autonat_decode_frame (ac_recv_buf s) = FrameComplete payload consumed" for payload consumed
    using that autonat_message_no_fault [of payload] by blast+
  then show "snd (try_decode_response mh s) \<noteq> Inl Panic" "snd (try_decode_response mh s) \<noteq> Inl Diverge"
    by (auto simp: try_decode_response_def Let_def split: sum.splits frame_decode.splits option.splits)
qed (auto simp: try_decode_response_def Let_def split: sum.splits frame_decode.splits option.splits)

lemma client_input_ok:
  assumes "client_ok request s outs" and "client_input_fits i s"
  shows "client_ok request (fst (client_handle_input mh i s)) outs"
    and "snd (client_handle_input mh i s) \<noteq> Inl Panic" "snd (client_handle_input mh i s) \<noteq> Inl Diverge"
proof -
  have decode: "client_ok request (fst (try_decode_response mh (s\<lparr> ac_recv_buf := b \<rparr>))) outs \<and>
      snd (try_decode_response mh (s\<lparr> ac_recv_buf := b \<rparr>)) \<noteq> Inl Panic \<and>
      snd (try_decode_response mh (s\<lparr> ac_recv_buf := b \<rparr>)) \<noteq> Inl Diverge" if "length b \<le> usize_max" for b
    using try_decode_response_frame [of "s\<lparr> ac_recv_buf := b \<rparr>" mh] that assms(1)
    by (auto simp: client_ok_def split: if_splits)
  have same: "s\<lparr> ac_recv_buf := ac_recv_buf s \<rparr> = s" by simp
  have "length (ac_recv_buf s) \<le> usize_max" using assms(1) by (simp add: client_ok_def)
  then have "client_ok request (fst (client_handle_input mh i s)) outs \<and>
      snd (client_handle_input mh i s) \<noteq> Inl Panic \<and> snd (client_handle_input mh i s) \<noteq> Inl Diverge"
    using assms decode [of "ac_recv_buf s"] decode
    by (cases i) (simp_all add: client_handle_input_def client_on_data_def same)
  then show "client_ok request (fst (client_handle_input mh i s)) outs"
    and "snd (client_handle_input mh i s) \<noteq> Inl Panic" "snd (client_handle_input mh i s) \<noteq> Inl Diverge"
    by simp_all
qed

lemma client_poll_ok:
  assumes "client_ok request s outs"
  shows "client_ok request (fst (client_poll_output s))
     (outs @ (case snd (client_poll_output s) of None \<Rightarrow> [] | Some out \<Rightarrow> [out]))"
  using assms
  by (auto simp: client_poll_output_def client_take_outbound_def client_ok_def split: option.splits if_splits)

text \<open>
  C39. Whatever the service sends, in whatever pieces and order, before or after the request
  was written and also behind a complete response: the client writes its request exactly
  once and before anything else, reports at most one verdict, and no input makes it panic
  or loop.
\<close>

theorem autonat_client_protocol:
  assumes "client_run mh peer addrs s outs"
  shows "(\<exists>r. prefix outs
      [ClientOutbound (encode_frame (autonat_message_encode (dial_message mh peer addrs))), ClientOutcome r]) \<and>
    (\<forall>i. client_input_fits i s \<longrightarrow>
       snd (client_handle_input mh i s) \<noteq> Inl Panic \<and> snd (client_handle_input mh i s) \<noteq> Inl Diverge)"
proof -
  have ok: "client_ok (encode_frame (autonat_message_encode (dial_message mh peer addrs))) s outs"
    using assms
  proof induction
    case client_start
    show ?case by (simp add: client_ok_def autonat_client_new_def)
  qed (simp_all add: client_input_ok client_poll_ok)
  then show ?thesis
    using client_input_ok(2,3) [OF ok] by (auto simp: client_ok_def split: if_splits)
qed

theorem autonat_client_protocol_witness:
  "snd (client_handle_input plain_multihash (ClientData [2, 8, 7])
     (autonat_client_new plain_multihash \<lparr> multihash = (0, [1]) \<rparr> [])) \<noteq> Inl Panic"
  using autonat_client_protocol [OF client_start, of plain_multihash "\<lparr> multihash = (0, [1]) \<rparr>" "[]"]
  by (simp add: autonat_client_new_def usize_max_def)

section \<open>Two limits of the code\<close>

text \<open>
  The size check counts the length prefix and whatever arrived behind the frame, so a frame
  with a legal payload is refused when the buffer holds more than the limit.
\<close>

lemma legal_frame_refused:
  assumes "frame_valid AUTONAT_MAX_MESSAGE_SIZE p" and "ac_state s \<noteq> FlowDone" and "ac_recv_buf s = []"
    and "AUTONAT_MAX_MESSAGE_SIZE < length (encode_frame p @ rest)"
  shows "autonat_decode_frame (encode_frame p @ rest) = FrameComplete p (length (encode_frame p))"
    "snd (client_handle_input mh (ClientData (encode_frame p @ rest)) s) =
      Inl (Err (AnMessageTooLarge (length (encode_frame p @ rest))))"
  using assms decode_encode_frame [OF assms(1), of rest]
  by (simp_all add: autonat_decode_frame_def client_handle_input_def client_on_data_def try_decode_response_def
      autonat_enforce_max_size_def)

text \<open>
  Data that arrives after the verdict is ignored, but the end of the remote's stream decodes
  what was left in the buffer once more: a second response replaces the verdict.
\<close>

lemma second_response_replaces_verdict:
  assumes "autonat_message_wf m" and "frame_fits m" and "am_kind m = MtDialResponse" and "am_response m = Some r"
    and "ac_state s = FlowDone" and "ac_recv_buf s = encode_frame (autonat_message_encode m)"
  shows "client_handle_input mh ClientRemoteWriteClosed s =
    (s\<lparr> ac_recv_buf := [], ac_outcome := Some (response_reachability mh r) \<rparr>, Inr ())"
  using autonat_decode_encode [OF assms(2,1)] assms(3-6)
  by (simp add: client_handle_input_def try_decode_response_def)

end
