(* ===== verification/Gossip_Cache.thy ===== *)
theory Gossip_Cache
  imports Btree_Map Rust_Str
begin

text \<open>
  The message cache of the gossipsub router, \<open>crates/pubsub/src/gossipsub/mcache.rs\<close>, and
  the router's configuration, \<open>crates/pubsub/src/gossipsub/config.rs\<close>. The cache keeps three
  indexes: the messages, one map of identifiers per heartbeat, and the order of insertion,
  tied together by generation numbers that wrap. It refines a list of messages with their
  age in heartbeats.
\<close>

section \<open>The cache\<close>

record 'm cache_entry =
  ce_message :: 'm
  ce_topics :: "str list"
  ce_generation :: u64

record ('k, 'm) message_cache =
  mc_messages :: "('k, 'm cache_entry) btree"
  mc_history :: "('k, u64) btree list"
  mc_order :: "('k \<times> u64) list"
  mc_history_len :: nat
  mc_max_messages :: nat
  mc_next_generation :: u64

definition cache_new :: "nat \<Rightarrow> nat \<Rightarrow> ('k, 'm) message_cache" where
  "cache_new history_len max_messages =
     \<lparr> mc_messages = [], mc_history = [[]], mc_order = [], mc_history_len = history_len,
       mc_max_messages = max_messages, mc_next_generation = 0 \<rparr>"

text \<open>The test that an identifier is cached with this generation.\<close>

definition has_generation :: "('k, 'm cache_entry) btree \<Rightarrow> 'k \<Rightarrow> u64 \<Rightarrow> bool" where
  "has_generation messages k g = (case bt_get messages k of None \<Rightarrow> False | Some entry \<Rightarrow> ce_generation entry = g)"

fun remove_from_windows :: "'k::linorder \<Rightarrow> u64 \<Rightarrow> ('k, u64) btree list \<Rightarrow> ('k, u64) btree list" where
  "remove_from_windows k g [] = []"
| "remove_from_windows k g (w # ws) =
     (if bt_get w k = Some g then bt_remove k w # ws else w # remove_from_windows k g ws)"

definition remove_generation :: "'k::linorder \<Rightarrow> u64 \<Rightarrow> ('k, 'm) message_cache \<Rightarrow> ('k, 'm) message_cache" where
  "remove_generation k g c =
     (if \<not> has_generation (mc_messages c) k g then c
      else c\<lparr> mc_messages := bt_remove k (mc_messages c),
              mc_history := remove_from_windows k g (mc_history c) \<rparr>)"

definition discard_stale_order_front :: "('k, 'm) message_cache \<Rightarrow> ('k, 'm) message_cache" where
  "discard_stale_order_front c =
     c\<lparr> mc_order := dropWhile (\<lambda>(k, g). \<not> has_generation (mc_messages c) k g) (mc_order c) \<rparr>"

lemma remove_generation_order [simp]:
  "mc_order (remove_generation k g c) = mc_order c" "mc_max_messages (remove_generation k g c) = mc_max_messages c"
  by (simp_all add: remove_generation_def)

text \<open>With no identifier left to evict the loop of \<open>put\<close> would not end.\<close>

function evict_excess :: "('k::linorder, 'm) message_cache \<Rightarrow> unit fault + ('k, 'm) message_cache" where
  "evict_excess c =
     (if mc_max_messages c < length (mc_messages c) then
        (case mc_order c of
           [] \<Rightarrow> Inl Diverge
         | (oldest, g) # rest \<Rightarrow> evict_excess (remove_generation oldest g (c\<lparr> mc_order := rest \<rparr>)))
      else Inr c)"
  by pat_completeness auto
termination
  by (relation "measure (\<lambda>c. length (mc_order c))") auto

declare evict_excess.simps [simp del]

definition cache_put ::
  "'k::linorder \<Rightarrow> 'm \<Rightarrow> str list \<Rightarrow> ('k, 'm) message_cache \<Rightarrow> unit fault + ('k, 'm) message_cache"
where
  "cache_put k message topics c =
     (if bt_get (mc_messages c) k \<noteq> None then Inr c
      else
        let generation = mc_next_generation c;
            c1 = c\<lparr> mc_next_generation := mc_next_generation c + 1,
                    mc_messages := bt_insert k
                      \<lparr> ce_message = message, ce_topics = topics, ce_generation = generation \<rparr> (mc_messages c) \<rparr>
        in case mc_history c1 of
             [] \<Rightarrow> Inl Panic
           | w # ws \<Rightarrow>
               rbind (evict_excess
                   (c1\<lparr> mc_history := bt_insert k generation w # ws, mc_order := mc_order c1 @ [(k, generation)] \<rparr>))
                 (\<lambda>c2. Inr (discard_stale_order_front c2)))"

definition cache_get :: "('k, 'm) message_cache \<Rightarrow> 'k \<Rightarrow> 'm option" where
  "cache_get c k = map_option ce_message (bt_get (mc_messages c) k)"

definition gossip_ids :: "('k::linorder, 'm) message_cache \<Rightarrow> str \<Rightarrow> nat \<Rightarrow> 'k list" where
  "gossip_ids c topic windows =
     bt_keys (fold (\<lambda>(k, g) unique.
         case bt_get (mc_messages c) k of
           None \<Rightarrow> unique
         | Some entry \<Rightarrow>
             if ce_generation entry = g \<and> topic \<in> set (ce_topics entry) then bt_insert k () unique else unique)
       (concat (take windows (mc_history c))) [])"

definition expire_window ::
  "('k, u64) btree \<Rightarrow> ('k::linorder, 'm cache_entry) btree \<Rightarrow> ('k, 'm cache_entry) btree"
where
  "expire_window expired messages =
     fold (\<lambda>(k, g) ms. if has_generation ms k g then bt_remove k ms else ms) expired messages"

function shift_loop :: "('k::linorder, 'm) message_cache \<Rightarrow> ('k, 'm) message_cache" where
  "shift_loop c =
     (if mc_history_len c < length (mc_history c)
      then shift_loop
        (c\<lparr> mc_history := butlast (mc_history c),
            mc_messages := expire_window (last (mc_history c)) (mc_messages c) \<rparr>)
      else c)"
  by pat_completeness auto
termination
  by (relation "measure (\<lambda>c. length (mc_history c))") auto

declare shift_loop.simps [simp del]

definition cache_shift :: "('k::linorder, 'm) message_cache \<Rightarrow> ('k, 'm) message_cache" where
  "cache_shift c = discard_stale_order_front (shift_loop (c\<lparr> mc_history := [] # mc_history c \<rparr>))"

section \<open>The configuration\<close>

record pubsub_config_error =
  pce_field :: str
  pce_reason :: str

record gossipsub_config =
  gc_d :: nat
  gc_d_low :: nat
  gc_d_high :: nat
  gc_d_lazy :: nat
  gc_heartbeat_interval_ms :: u64
  gc_mcache_len :: nat
  gc_mcache_gossip :: nat
  gc_max_mcache_messages :: nat
  gc_fanout_ttl_ms :: u64
  gc_prune_backoff_ms :: u64
  gc_unsubscribe_backoff_ms :: u64
  gc_max_backoff_ms :: u64
  gc_max_ihave_length :: nat
  gc_max_ihave_messages_per_heartbeat :: nat
  gc_max_iwant_ids_per_heartbeat :: nat
  gc_max_iwant_serves_per_heartbeat :: nat
  gc_seen_ttl_ms :: u64
  gc_max_seen_messages :: nat
  gc_max_pending_per_peer :: nat
  gc_max_topics_per_peer :: nat
  gc_max_inbound_streams_per_peer :: nat
  gc_send_timeout_ms :: u64
  gc_allow_unsigned :: bool

definition gossipsub_config_default :: gossipsub_config where
  "gossipsub_config_default =
     \<lparr> gc_d = 6, gc_d_low = 4, gc_d_high = 12, gc_d_lazy = 6, gc_heartbeat_interval_ms = 1000,
       gc_mcache_len = 5, gc_mcache_gossip = 3, gc_max_mcache_messages = 512, gc_fanout_ttl_ms = 60000,
       gc_prune_backoff_ms = 60000, gc_unsubscribe_backoff_ms = 10000, gc_max_backoff_ms = 3600000,
       gc_max_ihave_length = 5000, gc_max_ihave_messages_per_heartbeat = 10,
       gc_max_iwant_ids_per_heartbeat = 5000, gc_max_iwant_serves_per_heartbeat = 32,
       gc_seen_ttl_ms = 120000, gc_max_seen_messages = 4096, gc_max_pending_per_peer = 32,
       gc_max_topics_per_peer = 256, gc_max_inbound_streams_per_peer = 4, gc_send_timeout_ms = 10000,
       gc_allow_unsigned = False \<rparr>"

definition gossip_invalid :: "string \<Rightarrow> string \<Rightarrow> pubsub_config_error + 'a" where
  "gossip_invalid fld reason = Inl \<lparr> pce_field = str_lit fld, pce_reason = str_lit reason \<rparr>"

definition nonzero :: "'t::zero \<Rightarrow> string \<Rightarrow> pubsub_config_error + unit" where
  "nonzero value fld = (if value = 0 then gossip_invalid fld ''must be non-zero'' else Inr ())"

definition gossipsub_validate :: "gossipsub_config \<Rightarrow> pubsub_config_error + unit" where
  "gossipsub_validate c =
     (if gc_d_low c = 0 \<or> gc_d c < gc_d_low c then gossip_invalid ''d_low'' ''must be in 1..=d''
      else if gc_d_high c < gc_d c then gossip_invalid ''d_high'' ''must be greater than or equal to d''
      else if gc_mcache_gossip c = 0 \<or> gc_mcache_len c < gc_mcache_gossip c
      then gossip_invalid ''mcache_gossip'' ''must be in 1..=mcache_len''
      else
        rbind (nonzero (gc_heartbeat_interval_ms c) ''heartbeat_interval_ms'') (\<lambda>_.
        rbind (nonzero (gc_max_mcache_messages c) ''max_mcache_messages'') (\<lambda>_.
        rbind (nonzero (gc_max_ihave_length c) ''max_ihave_length'') (\<lambda>_.
        rbind (nonzero (gc_max_ihave_messages_per_heartbeat c) ''max_ihave_messages_per_heartbeat'') (\<lambda>_.
        rbind (nonzero (gc_max_iwant_ids_per_heartbeat c) ''max_iwant_ids_per_heartbeat'') (\<lambda>_.
        rbind (nonzero (gc_max_iwant_serves_per_heartbeat c) ''max_iwant_serves_per_heartbeat'') (\<lambda>_.
        rbind (nonzero (gc_seen_ttl_ms c) ''seen_ttl_ms'') (\<lambda>_.
        rbind (nonzero (gc_max_seen_messages c) ''max_seen_messages'') (\<lambda>_.
        rbind (nonzero (gc_max_pending_per_peer c) ''max_pending_per_peer'') (\<lambda>_.
        rbind (nonzero (gc_max_topics_per_peer c) ''max_topics_per_peer'') (\<lambda>_.
        rbind (nonzero (gc_max_inbound_streams_per_peer c) ''max_inbound_streams_per_peer'') (\<lambda>_.
        rbind (nonzero (gc_send_timeout_ms c) ''send_timeout_ms'') (\<lambda>_.
        rbind (nonzero (gc_prune_backoff_ms c) ''prune_backoff_ms'') (\<lambda>_.
        if gc_max_backoff_ms c < gc_prune_backoff_ms c
        then gossip_invalid ''max_backoff_ms'' ''must be at least prune_backoff_ms''
        else if gc_max_backoff_ms c < gc_unsubscribe_backoff_ms c
        then gossip_invalid ''max_backoff_ms'' ''must be at least unsubscribe_backoff_ms''
        else Inr ()))))))))))))))"

section \<open>What the cache means\<close>

text \<open>The cached messages, oldest first, each with the number of heartbeats since it was put.\<close>

record ('k, 'm) cached =
  cd_id :: 'k
  cd_message :: 'm
  cd_topics :: "str list"
  cd_age :: nat

type_synonym ('k, 'm) cached_list = "('k, 'm) cached list"

datatype ('k, 'm) cache_op = CachePut 'k 'm "str list" | CacheShift

fun spec_step :: "nat \<Rightarrow> nat \<Rightarrow> ('k, 'm) cache_op \<Rightarrow> ('k, 'm) cached_list \<Rightarrow> ('k, 'm) cached_list" where
  "spec_step len limit (CachePut k m ts) L =
     (if k \<in> cd_id ` set L then L
      else let L' = L @ [\<lparr> cd_id = k, cd_message = m, cd_topics = ts, cd_age = 0 \<rparr>]
           in drop (length L' - limit) L')"
| "spec_step len limit CacheShift L =
     filter (\<lambda>e. cd_age e < len) (map (\<lambda>e. e\<lparr> cd_age := Suc (cd_age e) \<rparr>) L)"

fun cache_step :: "('k::linorder, 'm) cache_op \<Rightarrow> ('k, 'm) message_cache \<Rightarrow> unit fault + ('k, 'm) message_cache" where
  "cache_step (CachePut k m ts) c = cache_put k m ts c"
| "cache_step CacheShift c = Inr (cache_shift c)"

fun cache_run :: "('k::linorder, 'm) cache_op list \<Rightarrow> ('k, 'm) message_cache \<Rightarrow> unit fault + ('k, 'm) message_cache" where
  "cache_run [] c = Inr c"
| "cache_run (op # ops) c = rbind (cache_step op c) (cache_run ops)"

definition entry_of :: "('k \<Rightarrow> u64) \<Rightarrow> ('k, 'm) cached \<Rightarrow> 'm cache_entry" where
  "entry_of gen e = \<lparr> ce_message = cd_message e, ce_topics = cd_topics e, ce_generation = gen (cd_id e) \<rparr>"

text \<open>The maps of the cache index the list; \<open>gen\<close> is the generation of each identifier.\<close>

definition indexed :: "('k::linorder \<Rightarrow> u64) \<Rightarrow> ('k, 'm) message_cache \<Rightarrow> ('k, 'm) cached_list \<Rightarrow> bool" where
  "indexed gen c L \<longleftrightarrow>
     bt_wf (mc_messages c) \<and> (\<forall>w \<in> set (mc_history c). bt_wf w) \<and>
     (\<forall>k v. bt_get (mc_messages c) k = Some v \<longleftrightarrow> (\<exists>e \<in> set L. cd_id e = k \<and> v = entry_of gen e)) \<and>
     (\<forall>i < length (mc_history c). \<forall>k g.
        bt_get (mc_history c ! i) k = Some g \<longleftrightarrow> (\<exists>e \<in> set L. cd_id e = k \<and> cd_age e = i \<and> g = gen k)) \<and>
     (\<forall>e \<in> set L. cd_age e < length (mc_history c)) \<and>
     sorted_wrt (\<lambda>a b. cd_age b \<le> cd_age a) L \<and> distinct (map cd_id L)"

definition order_of :: "('k \<Rightarrow> u64) \<Rightarrow> ('k, 'm) cached_list \<Rightarrow> ('k \<times> u64) list" where
  "order_of gen L = map (\<lambda>e. (cd_id e, gen (cd_id e))) L"

definition tracks :: "('k::linorder \<Rightarrow> u64) \<Rightarrow> ('k, 'm) message_cache \<Rightarrow> ('k, 'm) cached_list \<Rightarrow> bool" where
  "tracks gen c L \<longleftrightarrow> indexed gen c L \<and> mc_order c = order_of gen L"

lemma indexedD:
  assumes "indexed gen c L"
  shows "bt_wf (mc_messages c)" "\<And>w. w \<in> set (mc_history c) \<Longrightarrow> bt_wf w"
    "bt_get (mc_messages c) k = Some v \<longleftrightarrow> (\<exists>e \<in> set L. cd_id e = k \<and> v = entry_of gen e)"
    "i < length (mc_history c) \<Longrightarrow> bt_get (mc_history c ! i) k = Some g \<longleftrightarrow>
       (\<exists>e \<in> set L. cd_id e = k \<and> cd_age e = i \<and> g = gen k)"
    "\<And>e. e \<in> set L \<Longrightarrow> cd_age e < length (mc_history c)"
    "sorted_wrt (\<lambda>a b. cd_age b \<le> cd_age a) L" "distinct (map cd_id L)"
  using assms by (auto simp: indexed_def)

lemma indexed_same_id:
  "indexed gen c L \<Longrightarrow> e \<in> set L \<Longrightarrow> e' \<in> set L \<Longrightarrow> cd_id e = cd_id e' \<Longrightarrow> e = e'"
  by (meson distinct_map indexedD(7) inj_on_eq_iff)

lemma indexed_present: "indexed gen c L \<Longrightarrow> bt_get (mc_messages c) k = None \<longleftrightarrow> k \<notin> cd_id ` set L"
  using indexedD(3) [of gen c L k] by (cases "bt_get (mc_messages c) k") auto

lemma indexed_live: "indexed gen c L \<Longrightarrow> has_generation (mc_messages c) k (gen k) \<longleftrightarrow> k \<in> cd_id ` set L"
proof (cases "bt_get (mc_messages c) k")
  case (Some v)
  assume idx: "indexed gen c L"
  from indexedD(3) [OF idx, of k v] Some have "ce_generation v = gen k" by (auto simp: entry_of_def)
  with Some indexed_present [OF idx, of k] show ?thesis by (simp add: has_generation_def)
next
  case None
  assume "indexed gen c L"
  with None indexed_present [of gen c L k] show ?thesis by (simp add: has_generation_def)
qed

lemma indexed_length:
  assumes "indexed gen c L"
  shows "length (mc_messages c) = length L"
proof -
  have "length (mc_messages c) = card (dom (bt_get (mc_messages c)))"
    using bt.size_is_card [OF indexedD(1) [OF assms]] by simp
  also have "dom (bt_get (mc_messages c)) = cd_id ` set L"
    using indexed_present [OF assms] by (auto simp: dom_def)
  also have "card \<dots> = length L"
    using indexedD(7) [OF assms] by (metis distinct_card length_map set_map)
  finally show ?thesis .
qed

section \<open>Every operation keeps the index\<close>

lemma remove_from_windows_map:
  assumes "\<And>w. w \<in> set ws \<Longrightarrow> bt_get w k \<in> {None, Some g}"
    and "\<And>i j. i < j \<Longrightarrow> j < length ws \<Longrightarrow> bt_get (ws ! i) k \<noteq> None \<Longrightarrow> bt_get (ws ! j) k = None"
  shows "remove_from_windows k g ws = map (bt_remove k) ws"
  using assms
proof (induction ws)
  case (Cons w ws)
  have rest: "bt_get (ws ! i) k \<noteq> None \<Longrightarrow> bt_get (ws ! j) k = None" if "i < j" "j < length ws" for i j
    using Cons.prems(2) [of "Suc i" "Suc j"] that by simp
  show ?case
  proof (cases "bt_get w k = Some g")
    case True
    have "bt_get v k = None" if "v \<in> set ws" for v
    proof -
      obtain j where "j < length ws" "v = ws ! j" using \<open>v \<in> set ws\<close> by (auto simp: in_set_conv_nth)
      then show ?thesis using Cons.prems(2) [of 0 "Suc j"] True by simp
    qed
    then have "map (bt_remove k) ws = ws" by (intro map_idI) (simp add: bt_remove_absent)
    with True show ?thesis by simp
  next
    case False
    then have "bt_get w k = None" using Cons.prems(1) [of w] by auto
    then show ?thesis using Cons.IH rest Cons.prems(1) by (simp add: bt_remove_absent)
  qed
qed simp

lemma remove_oldest:
  assumes "indexed gen c (e # L)"
  shows "indexed gen (remove_generation (cd_id e) (gen (cd_id e)) (c\<lparr> mc_order := rest \<rparr>)) L"
proof -
  note idx = indexedD [OF assms]
  let ?k = "cd_id e"
  have fresh: "cd_id x \<noteq> ?k" if "x \<in> set L" for x using idx(7) that by (force simp: image_iff)
  have live: "has_generation (mc_messages c) ?k (gen ?k)" using indexed_live [OF assms] by simp
  have windows: "remove_from_windows ?k (gen ?k) (mc_history c) = map (bt_remove ?k) (mc_history c)"
  proof (rule remove_from_windows_map)
    show "bt_get w ?k \<in> {None, Some (gen ?k)}" if "w \<in> set (mc_history c)" for w
      using that idx(4) by (fastforce simp: in_set_conv_nth)
    show "bt_get (mc_history c ! j) ?k = None"
      if "i < j" "j < length (mc_history c)" "bt_get (mc_history c ! i) ?k \<noteq> None" for i j
    proof (rule ccontr)
      assume "bt_get (mc_history c ! j) ?k \<noteq> None"
      with that idx(4) have "cd_age e = j" "cd_age e = i" using fresh by fastforce+
      with that show False by simp
    qed
  qed
  have hist: "bt_get (map (bt_remove ?k) (mc_history c) ! i) k = Some g \<longleftrightarrow>
      (\<exists>x \<in> set L. cd_id x = k \<and> cd_age x = i \<and> g = gen k)" if "i < length (mc_history c)" for i k g
    using that idx(2) [of "mc_history c ! i"] idx(4) [OF that] fresh by (auto simp: fun_upd_apply)
  have msgs: "bt_get (bt_remove ?k (mc_messages c)) k = Some v \<longleftrightarrow>
      (\<exists>x \<in> set L. cd_id x = k \<and> v = entry_of gen x)" for k v
    using idx(1,3) fresh by (auto simp: fun_upd_apply)
  show ?thesis
    using idx live hist msgs by (auto simp: remove_generation_def windows indexed_def)
qed

lemma evict_tracks:
  assumes "indexed gen c L" and "mc_order c = order_of gen L"
  shows "\<exists>c'. evict_excess c = Inr c' \<and> tracks gen c' (drop (length L - mc_max_messages c) L) \<and>
    mc_max_messages c' = mc_max_messages c \<and> mc_history_len c' = mc_history_len c \<and>
    length (mc_history c') = length (mc_history c)"
  using assms
proof (induction L arbitrary: c)
  case Nil
  then have "length (mc_messages c) = 0" by (simp add: indexed_length)
  with Nil show ?case by (subst evict_excess.simps) (simp add: tracks_def)
next
  case (Cons e L)
  note len = indexed_length [OF Cons.prems(1)]
  have frame: "mc_history_len (remove_generation k g c) = mc_history_len c"
    "length (mc_history (remove_generation k g c)) = length (mc_history c)" for k g and c :: "('a, 'b) message_cache"
  proof -
    have "length (remove_from_windows k g ws) = length ws" for ws by (induction ws) simp_all
    then show "mc_history_len (remove_generation k g c) = mc_history_len c"
      "length (mc_history (remove_generation k g c)) = length (mc_history c)"
      by (simp_all add: remove_generation_def)
  qed
  show ?case
  proof (cases "mc_max_messages c < Suc (length L)")
    case True
    let ?c = "remove_generation (cd_id e) (gen (cd_id e)) (c\<lparr> mc_order := order_of gen L \<rparr>)"
    have step: "evict_excess c = evict_excess ?c"
      using True len Cons.prems(2) by (subst evict_excess.simps) (simp add: order_of_def)
    have "mc_order ?c = order_of gen L" by simp
    from Cons.IH [OF remove_oldest [OF Cons.prems(1)] this] True frame show ?thesis
      by (simp add: step Suc_diff_le)
  next
    case False
    with len Cons.prems show ?thesis by (subst evict_excess.simps) (simp add: tracks_def)
  qed
qed

lemma discard_tracks:
  assumes "tracks gen c L"
  shows "discard_stale_order_front c = c"
proof (cases L)
  case (Cons e L')
  with assms have "has_generation (mc_messages c) (cd_id e) (gen (cd_id e))"
    using indexed_live [of gen c L] by (simp add: tracks_def)
  with assms Cons show ?thesis by (simp add: discard_stale_order_front_def tracks_def order_of_def)
qed (use assms in \<open>simp add: discard_stale_order_front_def tracks_def order_of_def\<close>)

lemma insert_indexed:
  assumes "indexed gen c L" and "k \<notin> cd_id ` set L" and "mc_history c = w # ws"
  shows "indexed (gen(k := g))
    (c\<lparr> mc_next_generation := n,
        mc_messages := bt_insert k \<lparr> ce_message = m, ce_topics = ts, ce_generation = g \<rparr> (mc_messages c),
        mc_history := bt_insert k g w # ws, mc_order := ord \<rparr>)
    (L @ [\<lparr> cd_id = k, cd_message = m, cd_topics = ts, cd_age = 0 \<rparr>])"
proof -
  note idx = indexedD [OF assms(1)]
  have old: "cd_id e \<noteq> k" if "e \<in> set L" for e using assms(2) that by auto
  then have gen: "entry_of (gen(k := g)) e = entry_of gen e" if "e \<in> set L" for e
    using that by (simp add: entry_of_def)
  have msgs: "bt_get (bt_insert k \<lparr> ce_message = m, ce_topics = ts, ce_generation = g \<rparr> (mc_messages c)) k' = Some v \<longleftrightarrow>
      (\<exists>e \<in> set (L @ [\<lparr> cd_id = k, cd_message = m, cd_topics = ts, cd_age = 0 \<rparr>]).
         cd_id e = k' \<and> v = entry_of (gen(k := g)) e)" for k' v
    using idx(3) [of k' v] old gen by (auto simp: fun_upd_apply entry_of_def)
  have hist: "bt_get ((bt_insert k g w # ws) ! i) k' = Some g' \<longleftrightarrow>
      (\<exists>e \<in> set (L @ [\<lparr> cd_id = k, cd_message = m, cd_topics = ts, cd_age = 0 \<rparr>]).
         cd_id e = k' \<and> cd_age e = i \<and> g' = (gen(k := g)) k')" if "i < length (mc_history c)" for i k' g'
    using idx(4) [OF that, of k' g'] old assms(3) by (cases i) (auto simp: fun_upd_apply)
  show ?thesis
    using idx msgs hist assms(2,3)
    by (auto simp: indexed_def sorted_wrt_append simp del: bt_get_insert)
qed

lemma put_tracks:
  assumes "tracks gen c L" and "mc_history c \<noteq> []"
  shows "\<exists>c' gen'. cache_put k m ts c = Inr c' \<and>
    tracks gen' c' (spec_step len (mc_max_messages c) (CachePut k m ts) L) \<and>
    mc_max_messages c' = mc_max_messages c \<and> mc_history_len c' = mc_history_len c \<and>
    length (mc_history c') = length (mc_history c)"
proof (cases "k \<in> cd_id ` set L")
  case True
  with assms indexed_present [of gen c L k] show ?thesis
    by (intro exI [of _ c] exI [of _ gen]) (auto simp: cache_put_def tracks_def)
next
  case False
  obtain w ws where h: "mc_history c = w # ws" using assms(2) by (cases "mc_history c") auto
  let ?g = "mc_next_generation c"
  let ?c = "c\<lparr> mc_next_generation := mc_next_generation c + 1,
        mc_messages := bt_insert k \<lparr> ce_message = m, ce_topics = ts, ce_generation = ?g \<rparr> (mc_messages c),
        mc_history := bt_insert k ?g w # ws, mc_order := mc_order c @ [(k, ?g)] \<rparr>"
  let ?L = "L @ [\<lparr> cd_id = k, cd_message = m, cd_topics = ts, cd_age = 0 \<rparr>]"
  have "order_of (gen(k := ?g)) ?L = mc_order ?c"
    using assms(1) False by (auto simp: order_of_def tracks_def)
  with insert_indexed [OF _ False h] assms(1) obtain c' where c': "evict_excess ?c = Inr c'"
    "tracks (gen(k := ?g)) c' (drop (length ?L - mc_max_messages c) ?L)"
    "mc_max_messages c' = mc_max_messages c" "mc_history_len c' = mc_history_len c"
    "length (mc_history c') = length (mc_history c)"
    using evict_tracks [of "gen(k := ?g)" ?c ?L] by (auto simp: tracks_def h)
  moreover have "bt_get (mc_messages c) k = None"
    using assms(1) False indexed_present [of gen c L k] by (auto simp: tracks_def)
  then have "cache_put k m ts c = Inr (discard_stale_order_front c')"
    using c'(1) h by (simp add: cache_put_def Let_def)
  ultimately show ?thesis using False discard_tracks [OF c'(2)]
    by (intro exI [of _ c'] exI [of _ "gen(k := ?g)"]) (simp add: Let_def)
qed

lemma expire_window_get:
  assumes "bt_wf ms" and "\<And>k g e. (k, g) \<in> set ps \<Longrightarrow> bt_get ms k = Some e \<Longrightarrow> ce_generation e = g"
  shows "bt_wf (expire_window ps ms) \<and> bt_get (expire_window ps ms) = (bt_get ms) |` (- fst ` set ps)"
  using assms
proof (induction ps arbitrary: ms)
  case (Cons p ps)
  obtain k g where p: "p = (k, g)" by force
  have step: "(if has_generation ms k g then bt_remove k ms else ms) = bt_remove k ms"
    using Cons.prems(2) [of k g] p
    by (cases "bt_get ms k") (auto simp: has_generation_def bt_remove_absent)
  then have "expire_window (p # ps) ms = expire_window ps (bt_remove k ms)"
    by (simp add: expire_window_def p)
  moreover have "bt_wf (bt_remove k ms)" "bt_get (bt_remove k ms) = (bt_get ms)(k := None)"
    using Cons.prems(1) by simp_all
  then have "bt_wf (expire_window ps (bt_remove k ms)) \<and>
      bt_get (expire_window ps (bt_remove k ms)) = ((bt_get ms)(k := None)) |` (- fst ` set ps)"
    using Cons.IH [of "bt_remove k ms"] Cons.prems(2) by (metis (no_types, lifting) fun_upd_apply list.set_intros(2) option.distinct(1))
  ultimately show ?case by (auto simp: p fun_eq_iff restrict_map_def)
qed (simp add: expire_window_def restrict_map_def)

lemma expire_indexed:
  assumes "indexed gen c L" and "mc_history c = hs @ [w]" and "hs \<noteq> []"
  shows "indexed gen (c\<lparr> mc_history := hs, mc_messages := expire_window w (mc_messages c) \<rparr>)
    (filter (\<lambda>e. cd_age e < length hs) L)"
proof -
  note idx = indexedD [OF assms(1)]
  have last: "bt_get w k = Some g \<longleftrightarrow> (\<exists>e \<in> set L. cd_id e = k \<and> cd_age e = length hs \<and> g = gen k)" for k g
    using idx(4) [of "length hs" k g] assms(2) by simp
  have age: "cd_age e < length hs \<longleftrightarrow> cd_age e \<noteq> length hs" if "e \<in> set L" for e
    using idx(5) [OF that] assms(2) by auto
  have w: "bt_wf w" using idx(2) assms(2) by simp
  have ids: "k \<in> fst ` set w \<longleftrightarrow> (\<exists>e \<in> set L. cd_id e = k \<and> cd_age e = length hs)" for k
  proof -
    have "k \<in> fst ` set w \<longleftrightarrow> (\<exists>g. bt_get w k = Some g)"
      by (metis map_of_eq_None_iff not_None_eq)
    then show ?thesis unfolding last by blast
  qed
  have gens: "ce_generation e = g" if "(k, g) \<in> set w" "bt_get (mc_messages c) k = Some e" for k g e
    using that last [of k g] bt_mem_iff [OF w] idx(3) [of k e] by (auto simp: entry_of_def)
  have "bt_wf (expire_window w (mc_messages c)) \<and>
      bt_get (expire_window w (mc_messages c)) = (bt_get (mc_messages c)) |` (- fst ` set w)"
    using idx(1) gens by (rule expire_window_get)
  then have wf: "bt_wf (expire_window w (mc_messages c))"
    and get: "bt_get (expire_window w (mc_messages c)) = (bt_get (mc_messages c)) |` (- fst ` set w)"
    by blast+
  have msgs: "bt_get (expire_window w (mc_messages c)) k = Some v \<longleftrightarrow>
      (\<exists>e \<in> set (filter (\<lambda>e. cd_age e < length hs) L). cd_id e = k \<and> v = entry_of gen e)" for k v
    unfolding get using idx(3) [of k v] ids [of k] age indexed_same_id [OF assms(1)]
    by (auto simp: restrict_map_def)
  have hist: "bt_get (hs ! i) k = Some g \<longleftrightarrow>
      (\<exists>e \<in> set (filter (\<lambda>e. cd_age e < length hs) L). cd_id e = k \<and> cd_age e = i \<and> g = gen k)"
    if "i < length hs" for i k g
    using idx(4) [of i k g] that assms(2) by (auto simp: nth_append)
  have "distinct (map cd_id (filter (\<lambda>e. cd_age e < length hs) L))"
    using idx(7) by (simp add: distinct_map_filter)
  then show ?thesis
    using wf msgs hist idx(2,6) assms(2) by (auto simp: indexed_def sorted_wrt_filter)
qed

lemma discard_after_expiry:
  assumes "indexed gen c (filter (\<lambda>e. cd_age e < n) L)" and "mc_order c = order_of gen L"
    and "sorted_wrt (\<lambda>a b. cd_age b \<le> cd_age a) L" and "distinct (map cd_id L)"
  shows "tracks gen (discard_stale_order_front c) (filter (\<lambda>e. cd_age e < n) L)"
proof -
  have live: "has_generation (mc_messages c) (cd_id e) (gen (cd_id e)) \<longleftrightarrow> cd_age e < n" if "e \<in> set L" for e
  proof -
    have "cd_id e \<in> cd_id ` set (filter (\<lambda>e. cd_age e < n) L) \<longleftrightarrow> cd_age e < n"
      using that assms(4) by (auto simp: distinct_map inj_on_eq_iff)
    then show ?thesis using indexed_live [OF assms(1)] by simp
  qed
  have drop: "dropWhile (\<lambda>e. \<not> cd_age e < n) xs = filter (\<lambda>e. cd_age e < n) xs"
    if "sorted_wrt (\<lambda>a b. cd_age b \<le> cd_age a) xs" for xs :: "('a, 'b) cached_list"
    using that
  proof (induction xs)
    case (Cons x xs)
    show ?case
    proof (cases "cd_age x < n")
      case True
      with Cons.prems have "filter (\<lambda>e. cd_age e < n) xs = xs" by (intro filter_True) auto
      with True show ?thesis by simp
    qed (use Cons in simp)
  qed simp
  have "dropWhile (\<lambda>(k, g). \<not> has_generation (mc_messages c) k g) (order_of gen L) =
      order_of gen (dropWhile (\<lambda>e. \<not> cd_age e < n) L)"
    unfolding order_of_def dropWhile_map using live by (auto intro!: arg_cong [where f = "map _"] dropWhile_cong)
  then have "mc_order (discard_stale_order_front c) = order_of gen (filter (\<lambda>e. cd_age e < n) L)"
    using assms(2) drop [OF assms(3)] by (simp add: discard_stale_order_front_def)
  moreover have "indexed gen (discard_stale_order_front c) (filter (\<lambda>e. cd_age e < n) L)"
    using assms(1) by (simp add: indexed_def discard_stale_order_front_def)
  ultimately show ?thesis by (simp add: tracks_def)
qed

lemma push_window_indexed:
  assumes "indexed gen c L"
  shows "indexed gen (c\<lparr> mc_history := [] # mc_history c \<rparr>) (map (\<lambda>e. e\<lparr> cd_age := Suc (cd_age e) \<rparr>) L)"
    (is "indexed gen ?c ?L")
proof -
  have "bt_get (([] # mc_history c) ! i) k = Some g \<longleftrightarrow> (\<exists>e \<in> set ?L. cd_id e = k \<and> cd_age e = i \<and> g = gen k)"
    if "i < Suc (length (mc_history c))" for i k g
    using that indexedD(4) [OF assms, of "i - 1" k g] by (cases i) auto
  moreover have "distinct (map cd_id ?L)" using indexedD(7) [OF assms] by (simp add: comp_def)
  moreover have "sorted_wrt (\<lambda>a b. cd_age b \<le> cd_age a) ?L"
    using indexedD(6) [OF assms] by (simp add: sorted_wrt_map)
  ultimately show ?thesis
    using indexedD(1,2,3,5) [OF assms] by (auto simp: indexed_def entry_of_def)
qed

lemma shift_tracks:
  assumes "tracks gen c L" and "length (mc_history c) \<le> mc_history_len c" and "mc_history c \<noteq> []"
  shows "tracks gen (cache_shift c) (spec_step (mc_history_len c) limit CacheShift L) \<and>
    mc_max_messages (cache_shift c) = mc_max_messages c \<and> mc_history_len (cache_shift c) = mc_history_len c \<and>
    mc_history (cache_shift c) \<noteq> [] \<and> length (mc_history (cache_shift c)) \<le> mc_history_len c"
proof -
  let ?L = "map (\<lambda>e. e\<lparr> cd_age := Suc (cd_age e) \<rparr>) L" and ?n = "mc_history_len c"
  let ?c = "c\<lparr> mc_history := [] # mc_history c \<rparr>"
  have idx: "indexed gen ?c ?L" using assms(1) push_window_indexed by (auto simp: tracks_def)
  have ord: "mc_order ?c = order_of gen ?L" using assms(1) by (simp add: tracks_def order_of_def comp_def)
  show ?thesis
  proof (cases "length (mc_history c) = ?n")
    case False
    then have stop: "shift_loop ?c = ?c" using assms(2) by (subst shift_loop.simps) simp
    have "filter (\<lambda>e. cd_age e < ?n) ?L = ?L"
      using indexedD(5) [OF idx] False assms(2) by (intro filter_True) fastforce
    moreover have "tracks gen ?c ?L" using idx ord by (simp add: tracks_def)
    ultimately show ?thesis
      using discard_tracks [of gen ?c ?L] False assms(2) by (simp add: cache_shift_def stop del: map_map)
  next
    case True
    let ?hs = "[] # butlast (mc_history c)" and ?w = "last (mc_history c)"
    let ?d = "c\<lparr> mc_history := ?hs, mc_messages := expire_window ?w (mc_messages c) \<rparr>"
    have len: "length ?hs = ?n" using True assms(3) by (cases "mc_history c" rule: rev_cases) auto
    have "shift_loop ?c = shift_loop ?d" using True assms(3) by (subst shift_loop.simps) simp
    also have "\<dots> = ?d" using len by (subst shift_loop.simps) simp
    finally have stop: "shift_loop ?c = ?d" .
    have "indexed gen (?c\<lparr> mc_history := ?hs, mc_messages := expire_window ?w (mc_messages ?c) \<rparr>)
        (filter (\<lambda>e. cd_age e < length ?hs) ?L)"
      using idx assms(3) by (intro expire_indexed) simp_all
    then have "indexed gen ?d (filter (\<lambda>e. cd_age e < ?n) ?L)" by (simp only: len) simp
    then have "tracks gen (discard_stale_order_front ?d) (filter (\<lambda>e. cd_age e < ?n) ?L)"
      using ord indexedD(6,7) [OF idx] by (intro discard_after_expiry) simp_all
    then show ?thesis
      using len by (simp add: cache_shift_def stop discard_stale_order_front_def)
  qed
qed

section \<open>Refinement\<close>

lemma run_tracks:
  assumes "tracks gen c L" and "length (mc_history c) \<le> mc_history_len c" and "mc_history c \<noteq> []"
  shows "\<exists>c' gen'. cache_run ops c = Inr c' \<and>
    tracks gen' c' (fold (spec_step (mc_history_len c) (mc_max_messages c)) ops L)"
  using assms
proof (induction ops arbitrary: gen c L)
  case (Cons op ops)
  have "\<exists>c1 gen1. cache_step op c = Inr c1 \<and>
      tracks gen1 c1 (spec_step (mc_history_len c) (mc_max_messages c) op L) \<and>
      mc_max_messages c1 = mc_max_messages c \<and> mc_history_len c1 = mc_history_len c \<and>
      length (mc_history c1) \<le> mc_history_len c \<and> mc_history c1 \<noteq> []"
  proof (cases op)
    case (CachePut k m ts)
    with put_tracks [OF Cons.prems(1,3), of k m ts "mc_history_len c"] Cons.prems(2,3) show ?thesis by fastforce
  next
    case CacheShift
    with shift_tracks [OF Cons.prems(1,2,3), of "mc_max_messages c"] show ?thesis by fastforce
  qed
  then obtain c1 gen1 where c1: "cache_step op c = Inr c1"
    "tracks gen1 c1 (spec_step (mc_history_len c) (mc_max_messages c) op L)"
    "mc_max_messages c1 = mc_max_messages c" "mc_history_len c1 = mc_history_len c"
    "length (mc_history c1) \<le> mc_history_len c" "mc_history c1 \<noteq> []" by blast
  with Cons.IH [of gen1 c1] show ?case by simp
qed auto

lemma tracks_new: "tracks gen (cache_new len limit) []"
  by (auto simp: tracks_def indexed_def cache_new_def order_of_def)

lemma cache_get_spec:
  assumes "tracks gen c L"
  shows "cache_get c k = map_option cd_message (find (\<lambda>e. cd_id e = k) L)"
proof (cases "find (\<lambda>e. cd_id e = k) L")
  case None
  then have "k \<notin> cd_id ` set L" by (auto simp: find_None_iff)
  with assms None indexed_present [of gen c L k] show ?thesis by (simp add: tracks_def cache_get_def)
next
  case (Some e)
  then have "e \<in> set L" "cd_id e = k" by (auto simp: find_Some_iff)
  with assms indexedD(3) [of gen c L k "entry_of gen e"] have "bt_get (mc_messages c) k = Some (entry_of gen e)"
    by (auto simp: tracks_def)
  with Some show ?thesis by (simp add: cache_get_def entry_of_def)
qed

lemma collect_ids:
  fixes ps :: "('k::linorder \<times> 'g) list"
  assumes "bt_wf u"
  shows "bt_wf (fold (\<lambda>(k, g) u. if P k g then bt_insert k () u else u) ps u) \<and>
    set (bt_keys (fold (\<lambda>(k, g) u. if P k g then bt_insert k () u else u) ps u)) =
      set (bt_keys u) \<union> {k. \<exists>g. (k, g) \<in> set ps \<and> P k g}"
  using assms
proof (induction ps arbitrary: u)
  case (Cons p ps)
  obtain k g where p: "p = (k, g)" by force
  show ?case
    using Cons.IH [of u] Cons.IH [of "bt_insert k () u"] Cons.prems by (auto simp: p bt_keys_insert)
qed simp

text \<open>The entries of the newest windows are the young messages.\<close>

lemma windows_spec:
  assumes "indexed gen c L"
  shows "(k, g) \<in> set (concat (take n (mc_history c))) \<longleftrightarrow> (\<exists>e \<in> set L. cd_id e = k \<and> cd_age e < n \<and> g = gen k)"
proof
  assume "(k, g) \<in> set (concat (take n (mc_history c)))"
  then obtain w where w: "w \<in> set (take n (mc_history c))" "(k, g) \<in> set w" by auto
  then obtain i where i: "i < n" "i < length (mc_history c)" "w = mc_history c ! i"
    unfolding in_set_conv_nth by auto
  with w(2) bt_mem_iff [OF indexedD(2) [OF assms nth_mem]] have "bt_get (mc_history c ! i) k = Some g" by auto
  with indexedD(4) [OF assms i(2)] i(1) show "\<exists>e \<in> set L. cd_id e = k \<and> cd_age e < n \<and> g = gen k" by blast
next
  assume "\<exists>e \<in> set L. cd_id e = k \<and> cd_age e < n \<and> g = gen k"
  then obtain e where e: "e \<in> set L" "cd_id e = k" "cd_age e < n" "g = gen k" by blast
  let ?w = "mc_history c ! cd_age e"
  have len: "cd_age e < length (mc_history c)" using indexedD(5) [OF assms e(1)] .
  then have "bt_get ?w k = Some g" using indexedD(4) [OF assms len] e by blast
  then have "(k, g) \<in> set ?w" using bt_mem_iff [OF indexedD(2) [OF assms nth_mem [OF len]]] by blast
  moreover have "?w \<in> set (take n (mc_history c))"
    using len e(3) nth_mem [of "cd_age e" "take n (mc_history c)"] by simp
  ultimately show "(k, g) \<in> set (concat (take n (mc_history c)))" by auto
qed

lemma gossip_ids_spec:
  assumes "tracks gen c L"
  shows "gossip_ids c topic n =
    sorted_list_of_set (cd_id ` {e \<in> set L. cd_age e < n \<and> topic \<in> set (cd_topics e)})"
proof -
  have idx: "indexed gen c L" using assms by (simp add: tracks_def)
  define P where "P k g \<longleftrightarrow> (\<exists>entry. bt_get (mc_messages c) k = Some entry \<and> ce_generation entry = g \<and>
    topic \<in> set (ce_topics entry))" for k g
  define u where "u = fold (\<lambda>(k, g) u. if P k g then bt_insert k () u else u) (concat (take n (mc_history c))) []"
  have "(case bt_get (mc_messages c) k of None \<Rightarrow> v
       | Some entry \<Rightarrow> if ce_generation entry = g \<and> topic \<in> set (ce_topics entry) then bt_insert k () v else v) =
     (if P k g then bt_insert k () v else v)" for k g v
    unfolding P_def by (cases "bt_get (mc_messages c) k") simp_all
  then have u: "gossip_ids c topic n = bt_keys u" by (simp only: gossip_ids_def u_def)
  have P: "P k g \<longleftrightarrow> (\<exists>e \<in> set L. cd_id e = k \<and> g = gen k \<and> topic \<in> set (cd_topics e))" for k g
    unfolding P_def indexedD(3) [OF idx] by (force simp: entry_of_def)
  have "(\<exists>g. (k, g) \<in> set (concat (take n (mc_history c))) \<and> P k g) \<longleftrightarrow>
      k \<in> cd_id ` {e \<in> set L. cd_age e < n \<and> topic \<in> set (cd_topics e)}" for k
    unfolding windows_spec [OF idx] P using indexed_same_id [OF idx] by (auto simp: image_iff)
  then have "bt_wf u" "set (bt_keys u) = cd_id ` {e \<in> set L. cd_age e < n \<and> topic \<in> set (cd_topics e)}"
    using collect_ids [of "[]" P "concat (take n (mc_history c))"] by (auto simp: u_def)
  then show ?thesis
    unfolding u bt_wf_def strict_sorted_iff by (metis sorted_list_of_set.idem_if_sorted_distinct)
qed

lemma validated_windows:
  "gossipsub_validate config = Inr () \<Longrightarrow> 1 \<le> gc_mcache_gossip config \<and> gc_mcache_gossip config \<le> gc_mcache_len config"
  by (auto simp: gossipsub_validate_def gossip_invalid_def split: if_splits)

text \<open>
  C40. A cache of a validated configuration never panics and never loops, whatever is put into
  it and however often the heartbeat shifts it, and its three indexes together are a list of
  the messages with their ages: the first message put under an identifier is served until it
  is \<open>mcache_len\<close> heartbeats old or \<open>max_mcache_messages\<close> newer ones have come, and exactly the
  identifiers of the topic that are younger than the given number of heartbeats are gossiped,
  in order. Wrapping generation numbers make no difference.
\<close>

theorem gossip_cache_refines:
  fixes ops :: "('k::linorder, 'm) cache_op list"
  assumes "gossipsub_validate config = Inr ()"
  shows "\<exists>c. cache_run ops (cache_new (gc_mcache_len config) (gc_max_mcache_messages config)) = Inr c \<and>
    (let L = fold (spec_step (gc_mcache_len config) (gc_max_mcache_messages config)) ops [] in
     (\<forall>k. cache_get c k = map_option cd_message (find (\<lambda>e. cd_id e = k) L)) \<and>
     (\<forall>topic n. gossip_ids c topic n =
        sorted_list_of_set (cd_id ` {e \<in> set L. cd_age e < n \<and> topic \<in> set (cd_topics e)})))"
proof -
  let ?c = "cache_new (gc_mcache_len config) (gc_max_mcache_messages config) :: ('k, 'm) message_cache"
  have len: "length (mc_history ?c) \<le> mc_history_len ?c" "mc_history ?c \<noteq> []"
    using validated_windows [OF assms] by (simp_all add: cache_new_def)
  from run_tracks [OF tracks_new len, of ops] obtain c gen where
    "cache_run ops ?c = Inr c"
    "tracks gen c (fold (spec_step (gc_mcache_len config) (gc_max_mcache_messages config)) ops [])"
    by (auto simp: cache_new_def)
  then show ?thesis by (auto simp: Let_def cache_get_spec gossip_ids_spec)
qed

lemma default_config_valid: "gossipsub_validate gossipsub_config_default = Inr ()"
  by (simp add: gossipsub_validate_def gossipsub_config_default_def nonzero_def)

theorem gossip_cache_refines_witness:
  "\<exists>c. cache_run [CachePut (1 :: nat) CHR ''a'' [[7]], CacheShift, CachePut 2 CHR ''b'' [[7], [8]],
       CacheShift, CacheShift] (cache_new 5 512) = Inr c \<and>
     cache_get c 1 = Some CHR ''a'' \<and> gossip_ids c [7] 3 = [2] \<and> gossip_ids c [7] 4 = [1, 2]"
  using gossip_cache_refines [OF default_config_valid,
      of "[CachePut (1 :: nat) CHR ''a'' [[7]], CacheShift, CachePut 2 CHR ''b'' [[7], [8]], CacheShift, CacheShift]"]
  by (simp add: gossipsub_config_default_def) (auto simp: Collect_conv_if conj_disj_distribR Collect_disj_eq)

end
