(* ===== verification/Spec2Isabelle.thy ===== *)
theory Spec2Isabelle
  imports Frame_Codec Btree_Map Yamux_Properties Multistream_Negotiation Noise_Frames
    Seen_Cache Relay_Config Peer_Addr Ping Relay_Message Identify Dcutr_Message Pubsub_Sign Dcutr Autonat Gossip_Cache
begin

text \<open>
  A verification library for minip2p, a libp2p implementation in Rust whose protocol logic is
  written as state machines without I/O. Sources are named relative to \<open>src/\<close>.

  \<^bold>\<open>The program and its parts.\<close> Bytes of a connection pass through layers, each a codec or a
  state machine with calls for arriving data and a queue of outputs: multistream-select agrees
  on a protocol, Noise secures the connection, Yamux multiplexes streams, and on the streams run identify, ping, the circuit relay, DCUtR, AutoNAT and pubsub. All of them share
  unsigned varints, length-prefixed frames and protobuf messages; peers are named by identifiers
  derived from public keys and reached through multiaddresses.

  \<^bold>\<open>How the model corresponds to the code.\<close> A struct is a record with the fields of the source
  in its order, an enum a datatype, a method a function from the state to the new state and the
  result. \<open>Result\<close> is a sum, \<open>Inl\<close> the error. A panic (\<open>expect\<close>, an arithmetic underflow, an
  index out of range) and a loop that does not advance are the values \<open>Panic\<close> and
  \<open>Diverge\<close> of \<open>fault\<close>, so that their absence is a theorem. Integers of the wire and counters
  that can wrap are machine words; \<open>usize\<close> is a natural number bounded by \<open>usize_max\<close>, the
  address space of a 64-bit host. A \<open>str\<close> is a list of bytes that is valid UTF-8. A
  \<open>BTreeMap\<close> is a sorted association list. Code outside the repository is a parameter: the
  \<open>multihash\<close> crate (\<open>multihash_ops\<close>, its documented behaviour \<open>multihash_laws\<close>), SHA-256 (a
  function with 32-byte results) and \<open>ed25519-dalek\<close> (\<open>ed25519_ops\<close>, \<open>ed25519_laws\<close>); both sets of
  laws have an instance in the development.

  \<^bold>\<open>Theories.\<close>
  \<^item> Prelude, Rust_Str, Btree_Map: machine types, results, slices, strings, maps.
  \<^item> Stream_Codec, Frame_Receiver, Sans_Io: the interfaces. A framing is uniquely decodable from
    any chunking; a machine that waits for a frame does not depend on how it is cut; outputs are
    polled in order and \<open>is_idle\<close> tells when none is left. The codecs and machines below
    interpret them.
  \<^item> Varint, Varint_Text, Frame_Codec: \<open>read_uvarint\<close> and \<open>write_uvarint\<close> of
    \<open>crates/identity/src/peer_id.rs\<close>, \<open>crates/core/src/frame.rs\<close>. The reader accepts exactly the minimal
    encodings.
  \<^item> Noise_Frames: \<open>crates/noise/src/frames.rs\<close>.
  \<^item> Yamux_Frame, Yamux_Session, Yamux_Invariant, Yamux_Safety, Yamux_Reachable,
    Yamux_Properties: \<open>crates/yamux\<close>. Frames, the session with all its methods, the invariant and its
    preservation, and for every session reachable by calls: no panic, byte order of a stream,
    conservation of credit, bounded queues, failing closed, fresh identifiers, keepalive.
  \<^item> Multistream, Multistream_Negotiation: \<open>crates/multistream-select\<close>. A dialer and a listener that
    talk over two channels agree on the protocol and stop.
  \<^item> Public_Key, Base58, Base32, Peer_Id, Ed25519_Keypair: \<open>crates/identity\<close>. Key and identifier
    codecs and their text forms.
  \<^item> Multiaddr, Peer_Addr: \<open>crates/core\<close>. Binary multiaddresses, peer addresses and the choice of
    dial candidates.
  \<^item> Protobuf: the readers and writers that the message modules repeat, the decoding loop driven
    by a table of fields, and its contract as the locales \<open>wire_reader_base\<close> and
    \<open>wire_reader_laws\<close>: decoding an encoding applies the fields in order, accepted bytes are
    well-formed fields, the loop ends.
  \<^item> Relay_Message, Identify_Message, Dcutr_Message, Autonat_Message, Pubsub_Message: the messages
    of the crates of these names, with round trips and totality.
  \<^item> Ping, Identify, Dcutr, Autonat: the state machines. For each an exchange between two
    sides in any chunking and an invariant of all reachable states.
  \<^item> Pubsub_Sign, Seen_Cache, Gossip_Cache: StrictSign, the duplicate filter and the message cache of
    \<open>crates/pubsub\<close>. An accepted message was signed by its publisher; the two caches refine lists
    of identifiers with their times and of messages with their ages in heartbeats.
  \<^item> Token_Buckets, Relay_Config: rate limits and configuration of \<open>crates/relay-server\<close>.

  \<^bold>\<open>Bounds and fuel.\<close> No definition uses fuel. Loops over input are recursive functions with a
  termination measure on the unread bytes, or carry an explicit \<open>Diverge\<close> branch for a turn that
  does not advance, which the theorems exclude. Theorems about decoders assume inputs no longer
  than \<open>usize_max\<close>, which every Rust slice satisfies.

  \<^bold>\<open>Not modelled.\<close> Outside the reach of the model: the transports (\<open>transports/tcp\<close>,
  \<open>transports/quic\<close>: sockets, quiche, BoringSSL), TLS certificates (\<open>crates/tls\<close>: external X.509
  crates), the cryptography of the Noise handshake (\<open>crates/noise\<close> apart from its frames), the sockets
  of \<open>crates/mdns\<close>, the clocks and entropy of \<open>crates/platform\<close>, the smoltcp adapter, and the bindings
  for other languages (\<open>crates/ffi\<close>, \<open>crates/ffi-core\<close>, \<open>crates/nodejs\<close>). Protocol logic without I/O
  that could be modelled in the same way and is not: the relay client and server, the gossipsub and
  floodsub agents, discovery, the mDNS packets and agent, connection identifiers and the transport
  set; and the layers that compose the parts: the swarm, the secure-multiplexing session, the circuit
  transport, the NAT and relay-server agents and the endpoint facade. Of multiaddresses only the
  binary form is modelled, not the text form. Examples, benchmarks and test support are not part of
  the program.
\<close>

end
